(* ===== verification/Aesd_Prelude.thy ===== *)
theory Aesd_Prelude
  imports Main "HOL-Library.Word" "HOL-Library.Monad_Syntax"
begin

text \<open>
  Shared vocabulary of the development: the machine types of the C sources, the error
  numbers the driver returns, undefined behaviour as \<open>None\<close> of the option monad, and the
  generic lemmas on lists and words the components share.

  A definition of type \<open>'a option\<close> returns \<open>None\<close> exactly where the C program would
  dereference a null or dangling pointer, index outside an array or release memory it does
  not own. Error codes are ordinary values inside \<open>Some\<close>.
\<close>

section \<open>Machine types\<close>

type_synonym u8 = "8 word"
type_synonym u32 = "32 word"
type_synonym size_t = "64 word"
type_synonym ssize_t = "64 word"
type_synonym loff_t = "64 word"

text \<open>The error numbers of the kernel that the driver uses, as non-negative constants.\<close>

abbreviation EFAULT :: ssize_t where "EFAULT \<equiv> 14"
abbreviation ENOMEM :: ssize_t where "ENOMEM \<equiv> 12"
abbreviation EINVAL :: ssize_t where "EINVAL \<equiv> 22"
abbreviation ENOTTY :: ssize_t where "ENOTTY \<equiv> 25"
abbreviation ERESTARTSYS :: ssize_t where "ERESTARTSYS \<equiv> 512"

abbreviation newline :: char where "newline \<equiv> CHR 0x0A"

text \<open>
  Pointers to dynamically allocated memory. \<open>Ptr a\<close> is the base address of a block;
  \<open>ZERO_SIZE_PTR\<close> is the non-null pointer the kernel hands out for an allocation of no bytes.
\<close>

datatype ptr = NULL | ZERO_SIZE_PTR | Ptr nat

section \<open>Collections of rewrite rules\<close>

named_theorems list_simps \<open>facts on take, drop and last_n the component proofs share\<close>
named_theorems inv_intros \<open>preservation of the component invariants\<close>

section \<open>Lists\<close>

text \<open>The last \<open>n\<close> elements of a list: what a bounded log of capacity \<open>n\<close> remembers.\<close>

definition last_n :: "nat \<Rightarrow> 'a list \<Rightarrow> 'a list" where
  "last_n n xs = drop (length xs - n) xs"

lemma length_last_n [simp]: "length (last_n n xs) = min n (length xs)"
  by (auto simp: last_n_def)

lemma last_n_Nil [simp]: "last_n n [] = []"
  by (simp add: last_n_def)

lemma last_n_all [list_simps]: "length xs \<le> n \<Longrightarrow> last_n n xs = xs"
  by (simp add: last_n_def)

lemma last_n_append_absorb [list_simps]: "last_n n (last_n n xs @ ys) = last_n n (xs @ ys)"
proof (cases "length xs \<le> n")
  case True
  then show ?thesis by (simp add: last_n_all)
next
  case False
  then have "n + length ys - n = length ys" by simp
  with False show ?thesis
    by (simp add: last_n_def drop_append add.commute)
qed

lemma last_n_snoc [list_simps]:
  "0 < n \<Longrightarrow> last_n n (xs @ [x]) = last_n (n - 1) xs @ [x]"
  by (cases n) (auto simp: last_n_def drop_append)

lemma set_last_n: "set (last_n n xs) \<subseteq> set xs"
  by (simp add: last_n_def set_drop_subset)

lemma map_last_n: "map f (last_n n xs) = last_n n (map f xs)"
  by (simp add: last_n_def drop_map)

text \<open>The \<open>k\<close>-th slot of a ring of \<open>N\<close> slots, counted from slot \<open>i\<close>.\<close>

lemma mod_add_eq_iff_diff:
  fixes a b i N :: nat
  assumes "a < N" and "b < N"
  shows "(i + a) mod N = (i + b) mod N \<longleftrightarrow> a = b"
proof
  assume "(i + a) mod N = (i + b) mod N"
  then have "(int i + int a) mod int N = (int i + int b) mod int N"
    by (metis of_nat_add zmod_int)
  then have "int a mod int N = int b mod int N"
    by (metis add_diff_cancel_left' mod_diff_left_eq)
  with assms show "a = b" by simp
qed simp

lemma nth_concat_locate:
  assumes "k < length xss" and "r < length (xss ! k)"
  shows "concat xss ! (sum_list (map length (take k xss)) + r) = xss ! k ! r"
    and "sum_list (map length (take k xss)) + r < length (concat xss)"
proof -
  have split: "xss = take k xss @ xss ! k # drop (Suc k) xss"
    using assms(1) by (rule id_take_nth_drop)
  then have c: "concat xss = concat (take k xss) @ xss ! k @ concat (drop (Suc k) xss)"
    by (metis concat.simps(2) concat_append)
  have l: "length (concat (take k xss)) = sum_list (map length (take k xss))"
    by (simp add: length_concat)
  show "concat xss ! (sum_list (map length (take k xss)) + r) = xss ! k ! r"
    using assms(2) by (subst c) (simp add: nth_append flip: l)
  show "sum_list (map length (take k xss)) + r < length (concat xss)"
    using assms(2) by (subst c) (simp flip: l)
qed

section \<open>Words\<close>

lemma word_of_unat: "word_of_nat (unat x) = x"
  by (simp add: of_nat_unat)

lemma unat_word_of_nat:
  "n < 2 ^ LENGTH('a) \<Longrightarrow> unat (word_of_nat n :: 'a::len word) = n"
  by (simp add: unat_of_nat)

lemma unat_64_less: "unat (x :: 64 word) < 2 ^ 64"
proof -
  have "unat x < 2 ^ LENGTH(64)" by (rule unsigned_less)
  then show ?thesis by simp
qed

lemma sint_word_of_nat_64: "n < 2 ^ 63 \<Longrightarrow> sint (word_of_nat n :: 64 word) = int n"
  by (simp add: signed_of_nat signed_take_bit_int_eq_self)

lemma unat_32_less: "unat (x :: 32 word) < 2 ^ 32"
  using unsigned_less [of x] by simp

lemma unat_ucast_32_64: "unat (ucast (x :: 32 word) :: 64 word) = unat x"
  by transfer (simp add: take_bit_nat_eq_self nat_take_bit_eq)

lemma unat_add_no_wrap:
  fixes x y :: "'a::len word"
  assumes "unat x + unat y < 2 ^ LENGTH('a)"
  shows "unat (x + y) = unat x + unat y"
  using assms by (simp add: unat_word_ariths)

lemma unat_sub_no_wrap:
  fixes x y :: "'a::len word"
  assumes "unat y \<le> unat x"
  shows "unat (x - y) = unat x - unat y"
  using assms by (simp add: unat_sub word_le_nat_alt)

end
