(* ===== verification/Log_Interface.thy ===== *)
theory Log_Interface
  imports Aesd_Prelude
begin

text \<open>
  The interface between the character driver and the circular buffer it stores commands in:
  a log that remembers the last \<open>capacity\<close> items (\<open>bounded_log\<close>) and that finds the item and
  the offset of a byte position in the concatenation of the items (\<open>searchable_log\<close>).
  \<open>Circular_Buffer\<close> interprets both locales on the model of the C code; the driver's proofs
  use the facts of that interpretation.
\<close>

section \<open>Positions in a sequence of blocks\<close>

text \<open>
  The reference for the search: the index of the block, and the position inside it, of byte
  number \<open>p\<close> of a sequence of blocks with the given lengths.
\<close>

fun locate :: "nat list \<Rightarrow> nat \<Rightarrow> (nat \<times> nat) option" where
  "locate [] p = None"
| "locate (n # ns) p =
     (if p < n then Some (0, p) else map_option (apfst Suc) (locate ns (p - n)))"

lemma locate_None_iff: "locate ns p = None \<longleftrightarrow> sum_list ns \<le> p"
  by (induction ns p rule: locate.induct) auto

lemma locate_SomeD:
  "locate ns p = Some (k, r) \<Longrightarrow> k < length ns \<and> r < ns ! k \<and> p = sum_list (take k ns) + r"
  by (induction ns p arbitrary: k r rule: locate.induct) (auto split: if_splits)

lemma locate_SomeI:
  "k < length ns \<Longrightarrow> r < ns ! k \<Longrightarrow> locate ns (sum_list (take k ns) + r) = Some (k, r)"
proof (induction ns arbitrary: k)
  case (Cons n ns)
  then show ?case by (cases k) auto
qed simp

text \<open>Byte \<open>p\<close> of the concatenation is byte \<open>r\<close> of block \<open>k\<close>.\<close>

lemma locate_concat:
  assumes "locate (map length xss) p = Some (k, r)"
  shows "k < length xss \<and> r < length (xss ! k) \<and> p < length (concat xss) \<and>
         concat xss ! p = xss ! k ! r"
proof -
  from locate_SomeD [OF assms] have k: "k < length xss" and r: "r < length (xss ! k)"
    and p: "p = sum_list (map length (take k xss)) + r"
    by (auto simp: take_map)
  from nth_concat_locate [OF k r] k r p show ?thesis by simp
qed

section \<open>Bounded logs\<close>

text \<open>Adding a sequence of items, stopping at undefined behaviour.\<close>

fun add_seq :: "('b \<Rightarrow> 'e \<Rightarrow> 'b option) \<Rightarrow> 'b \<Rightarrow> 'e list \<Rightarrow> 'b option" where
  "add_seq add b [] = Some b"
| "add_seq add b (e # es) = (case add b e of None \<Rightarrow> None | Some b' \<Rightarrow> add_seq add b' es)"

locale bounded_log =
  fixes capacity :: nat
    and invar :: "'b \<Rightarrow> bool"
    and items :: "'b \<Rightarrow> 'e list"
    and init :: 'b
    and add :: "'b \<Rightarrow> 'e \<Rightarrow> 'b option"
  assumes invar_init: "invar init"
    and items_init: "items init = []"
    and add_total: "invar b \<Longrightarrow> \<exists>b'. add b e = Some b'"
    and add_invar: "invar b \<Longrightarrow> add b e = Some b' \<Longrightarrow> invar b'"
    and add_items: "invar b \<Longrightarrow> add b e = Some b' \<Longrightarrow> items b' = last_n capacity (items b @ [e])"
begin

lemma add_seq_last_n:
  "invar b \<Longrightarrow> length (items b) \<le> capacity \<Longrightarrow>
   \<exists>b'. add_seq add b es = Some b' \<and> invar b' \<and> items b' = last_n capacity (items b @ es)"
proof (induction es arbitrary: b)
  case Nil
  then show ?case by (simp add: last_n_all)
next
  case (Cons e es)
  from add_total [OF Cons.prems(1)] obtain b1 where b1: "add b e = Some b1" by blast
  note i1 = add_invar [OF Cons.prems(1) b1] and it1 = add_items [OF Cons.prems(1) b1]
  from Cons.IH [OF i1] it1 obtain b' where
    "add_seq add b1 es = Some b'" "invar b'" "items b' = last_n capacity (items b1 @ es)"
    by auto
  with b1 it1 show ?case by (auto simp: last_n_append_absorb)
qed

lemma add_seq_from_init:
  "\<exists>b'. add_seq add init es = Some b' \<and> invar b' \<and> items b' = last_n capacity es"
  using add_seq_last_n [OF invar_init] by (simp add: items_init)

end

section \<open>Searchable logs\<close>

locale searchable_log = bounded_log capacity invar items init add
  for capacity :: nat
    and invar :: "'b \<Rightarrow> bool"
    and items :: "'b \<Rightarrow> 'e list"
    and init :: 'b
    and add :: "'b \<Rightarrow> 'e \<Rightarrow> 'b option" +
  fixes weight :: "'e \<Rightarrow> nat"
    and find :: "'b \<Rightarrow> size_t \<Rightarrow> (nat \<times> size_t) option option"
    and get :: "'b \<Rightarrow> nat \<Rightarrow> 'e"
    and slot :: "'b \<Rightarrow> nat \<Rightarrow> nat"
  assumes find_locate: "invar b \<Longrightarrow> sum_list (map weight (items b)) < 2 ^ 64 \<Longrightarrow>
      find b off = Some (map_option (\<lambda>(k, r). (slot b k, word_of_nat r))
                          (locate (map weight (items b)) (unat off)))"
    and get_slot: "invar b \<Longrightarrow> k < length (items b) \<Longrightarrow> get b (slot b k) = items b ! k"
begin

lemma find_None_iff:
  assumes "invar b" and "sum_list (map weight (items b)) < 2 ^ 64"
  shows "find b off = Some None \<longleftrightarrow> sum_list (map weight (items b)) \<le> unat off"
  using find_locate [OF assms] locate_None_iff by simp

text \<open>
  Where the items stand for blocks of bytes, a successful search names the block and the
  offset of byte number \<open>off\<close> of the concatenation of all blocks.
\<close>

lemma find_Some:
  assumes inv: "invar b" and small: "sum_list (map weight (items b)) < 2 ^ 64"
    and found: "find b off = Some (Some (i, r))"
    and bytes: "\<And>e. e \<in> set (items b) \<Longrightarrow> length (bytes e) = weight e"
  shows "\<exists>k < length (items b). i = slot b k \<and> get b i = items b ! k \<and>
           unat off = sum_list (map weight (take k (items b))) + unat r \<and>
           unat r < weight (items b ! k) \<and>
           unat off < length (concat (map bytes (items b))) \<and>
           concat (map bytes (items b)) ! unat off = bytes (get b i) ! unat r"
proof -
  from found find_locate [OF inv small, of off] obtain k r' where
    l: "locate (map weight (items b)) (unat off) = Some (k, r')"
    and i: "i = slot b k" and r: "r = word_of_nat r'"
    by (auto simp: map_option_case split: option.splits)
  have wl: "map weight (items b) = map length (map bytes (items b))"
    using bytes by simp
  note D = locate_SomeD [OF l]
  have k: "k < length (items b)" and r': "r' < weight (items b ! k)"
    and off: "unat off = sum_list (map weight (take k (items b))) + r'"
    using D by (auto simp: take_map)
  have "r' < 2 ^ 64" using off unat_64_less [of off] by simp
  then have ur: "unat r = r'" by (simp add: r unat_word_of_nat)
  from locate_concat [OF l [unfolded wl]] k get_slot [OF inv k] r' off ur i
  show ?thesis by auto
qed

end

end
