(* ===== verification/Circular_Buffer.thy ===== *)
theory Circular_Buffer
  imports Log_Interface
begin

text \<open>
  The circular buffer of \<open>aesd-char-driver/aesd-circular-buffer.{h,c}\<close>: ten slots of
  (pointer, size) entries with an \<open>in_offs\<close> and an \<open>out_offs\<close> index. The state record and
  the three operations follow the C code; the abstraction \<open>cb_entries\<close> lists the stored
  entries from the oldest to the newest, and the operations are shown to implement a log
  that remembers the last ten entries and finds a byte position in their concatenation.
\<close>

section \<open>Data and operations\<close>

definition AESDCHAR_MAX_WRITE_OPERATIONS_SUPPORTED :: nat where
  [simp]: "AESDCHAR_MAX_WRITE_OPERATIONS_SUPPORTED = 10"

record aesd_buffer_entry =
  buffptr :: ptr
  esize :: size_t

record aesd_circular_buffer =
  entry :: "aesd_buffer_entry list"
  in_offs :: u8
  out_offs :: u8
  full :: bool

text \<open>Clearing the structure with \<open>memset\<close>: every pointer null, every number zero.\<close>

definition null_entry :: aesd_buffer_entry where
  "null_entry = \<lparr>buffptr = NULL, esize = 0\<rparr>"

definition aesd_circular_buffer_init :: aesd_circular_buffer where
  "aesd_circular_buffer_init =
     \<lparr>entry = replicate AESDCHAR_MAX_WRITE_OPERATIONS_SUPPORTED null_entry,
      in_offs = 0, out_offs = 0, full = False\<rparr>"

text \<open>
  The search loop, with the loop variables \<open>accumulated_byte_count\<close>, \<open>i\<close> and \<open>j\<close>. The
  outer \<open>None\<close> is an index outside the array; the inner one is the null pointer the C
  function returns. A found entry is its slot number and the byte offset inside it.
\<close>

function find_entry_loop ::
  "aesd_circular_buffer \<Rightarrow> size_t \<Rightarrow> size_t \<Rightarrow> nat \<Rightarrow> nat \<Rightarrow> (nat \<times> size_t) option option" where
  "find_entry_loop buffer char_offset accumulated_byte_count i j =
     (if (i \<noteq> unat (in_offs buffer) \<or> full buffer) \<and> j < 10 then
        if i < length (entry buffer) then
          if accumulated_byte_count + esize (entry buffer ! i) > char_offset then
            Some (Some (i, char_offset - accumulated_byte_count))
          else find_entry_loop buffer char_offset
                 (accumulated_byte_count + esize (entry buffer ! i))
                 ((i + 1) mod AESDCHAR_MAX_WRITE_OPERATIONS_SUPPORTED) (j + 1)
        else None
      else Some None)"
  by pat_completeness auto
termination
  by (relation "measure (\<lambda>(_, _, _, _, j). 10 - j)") auto

declare find_entry_loop.simps [simp del]

definition aesd_circular_buffer_find_entry_offset_for_fpos ::
  "aesd_circular_buffer \<Rightarrow> size_t \<Rightarrow> (nat \<times> size_t) option option" where
  "aesd_circular_buffer_find_entry_offset_for_fpos buffer char_offset =
     find_entry_loop buffer char_offset 0 (unat (out_offs buffer)) 0"

text \<open>
  Both parameters may be null pointers, modelled as \<open>None\<close> of the inner option types; then
  nothing happens. The increment of \<open>in_offs\<close> is computed in \<open>int\<close> and reduced modulo ten
  before it is stored in eight bits.
\<close>

definition aesd_circular_buffer_add_entry ::
  "aesd_circular_buffer option \<Rightarrow> aesd_buffer_entry option \<Rightarrow> aesd_circular_buffer option option" where
  "aesd_circular_buffer_add_entry buffer add_entry =
     (case (buffer, add_entry) of
        (Some b, Some e) \<Rightarrow>
          if unat (in_offs b) < length (entry b) then
            let b1 = b\<lparr>entry := (entry b)[unat (in_offs b) := e]\<rparr>;
                b2 = b1\<lparr>in_offs := word_of_nat ((unat (in_offs b1) + 1) mod
                                     AESDCHAR_MAX_WRITE_OPERATIONS_SUPPORTED)\<rparr>;
                b3 = (if full b2 then b2\<lparr>out_offs := in_offs b2\<rparr> else b2)
            in Some (Some (b3\<lparr>full := (in_offs b3 = out_offs b3)\<rparr>))
          else None
      | _ \<Rightarrow> Some buffer)"

text \<open>
  The loop macro: \<open>index\<close> runs over the ten slots, \<open>entryptr\<close> over their addresses, whether the slots are in use or not. The
  body gets the entry and its state. A slot outside the array is undefined.
\<close>

function AESD_CIRCULAR_BUFFER_FOREACH ::
  "(aesd_buffer_entry \<Rightarrow> 's \<Rightarrow> 's option) \<Rightarrow> aesd_circular_buffer \<Rightarrow> 's \<Rightarrow> nat \<Rightarrow> 's option" where
  "AESD_CIRCULAR_BUFFER_FOREACH body buffer s index =
     (if index < AESDCHAR_MAX_WRITE_OPERATIONS_SUPPORTED then
        if index < length (entry buffer) then
          do { s' \<leftarrow> body (entry buffer ! index) s; AESD_CIRCULAR_BUFFER_FOREACH body buffer s' (index + 1) }
        else None
      else Some s)"
  by pat_completeness auto
termination
  by (relation "measure (\<lambda>(_, _, _, i). 10 - i)") auto

declare AESD_CIRCULAR_BUFFER_FOREACH.simps [simp del]

section \<open>Well-formed buffers and their contents\<close>

definition cb_wf :: "aesd_circular_buffer \<Rightarrow> bool" where
  "cb_wf b \<longleftrightarrow> length (entry b) = 10 \<and> unat (in_offs b) < 10 \<and> unat (out_offs b) < 10 \<and>
     (full b \<longrightarrow> in_offs b = out_offs b)"

definition cb_count :: "aesd_circular_buffer \<Rightarrow> nat" where
  "cb_count b = (if full b then 10 else (10 + unat (in_offs b) - unat (out_offs b)) mod 10)"

definition cb_slot :: "aesd_circular_buffer \<Rightarrow> nat \<Rightarrow> nat" where
  "cb_slot b k = (unat (out_offs b) + k) mod 10"

definition cb_entries :: "aesd_circular_buffer \<Rightarrow> aesd_buffer_entry list" where
  "cb_entries b = map (\<lambda>k. entry b ! cb_slot b k) [0..<cb_count b]"

lemma cb_wfD [dest]:
  assumes "cb_wf b"
  shows "length (entry b) = 10" "unat (in_offs b) < 10" "unat (out_offs b) < 10"
  using assms by (auto simp: cb_wf_def)

lemma length_cb_entries [simp]: "length (cb_entries b) = cb_count b"
  by (simp add: cb_entries_def)

lemma cb_count_le: "cb_count b \<le> 10"
proof -
  have "(10 + unat (in_offs b) - unat (out_offs b)) mod 10 < 10" by simp
  then show ?thesis unfolding cb_count_def by simp
qed

lemma cb_slot_less [simp]: "cb_slot b k < 10"
  by (simp add: cb_slot_def)

lemma nth_cb_entries: "k < cb_count b \<Longrightarrow> cb_entries b ! k = entry b ! cb_slot b k"
  by (simp add: cb_entries_def)

lemma cb_slot_inj:
  "k < 10 \<Longrightarrow> l < 10 \<Longrightarrow> cb_slot b k = cb_slot b l \<longleftrightarrow> k = l"
  by (simp add: cb_slot_def mod_add_eq_iff_diff)

lemma cb_slot_Suc: "(cb_slot b k + 1) mod 10 = cb_slot b (Suc k)"
  by (simp add: cb_slot_def mod_Suc_eq)

text \<open>Slot number \<open>in_offs\<close> is the first slot after the stored entries.\<close>

lemma cb_slot_count: "cb_wf b \<Longrightarrow> cb_slot b (cb_count b) = unat (in_offs b)"
proof -
  assume wf: "cb_wf b"
  then have r: "unat (in_offs b) < 10" "unat (out_offs b) < 10" by auto
  show ?thesis
  proof (cases "full b")
    case True
    with wf have "in_offs b = out_offs b" by (simp add: cb_wf_def)
    with True r show ?thesis by (simp add: cb_slot_def cb_count_def)
  next
    case False
    with r show ?thesis
      by (simp add: cb_slot_def cb_count_def mod_add_right_eq)
  qed
qed

lemma cb_slot_neq_in:
  assumes "cb_wf b" and "k < cb_count b" and "\<not> full b"
  shows "cb_slot b k \<noteq> unat (in_offs b)"
proof -
  have c: "cb_count b < 10" using assms(3) by (simp add: cb_count_def)
  then show ?thesis
    using cb_slot_inj [of k "cb_count b" b] assms cb_slot_count [of b] by auto
qed

lemma cb_init_wf: "cb_wf aesd_circular_buffer_init"
  by (simp add: cb_wf_def aesd_circular_buffer_init_def)

lemma cb_init_entries: "cb_entries aesd_circular_buffer_init = []"
  by (simp add: cb_entries_def cb_count_def aesd_circular_buffer_init_def)

lemma cb_init_simps: "full aesd_circular_buffer_init = False" "cb_count aesd_circular_buffer_init = 0"
  by (simp_all add: cb_count_def aesd_circular_buffer_init_def)

section \<open>Adding an entry\<close>

text \<open>The result of \<open>aesd_circular_buffer_add_entry\<close> on a well-formed buffer, in closed form.\<close>

definition cb_next_in :: "aesd_circular_buffer \<Rightarrow> u8" where
  "cb_next_in b = word_of_nat ((unat (in_offs b) + 1) mod 10)"

definition cb_add :: "aesd_circular_buffer \<Rightarrow> aesd_buffer_entry \<Rightarrow> aesd_circular_buffer" where
  "cb_add b e =
     b\<lparr>entry := (entry b)[unat (in_offs b) := e], in_offs := cb_next_in b,
       out_offs := (if full b then cb_next_in b else out_offs b),
       full := (full b \<or> cb_next_in b = out_offs b)\<rparr>"

lemma unat_cb_next_in [simp]: "unat (cb_next_in b) = (unat (in_offs b) + 1) mod 10"
proof -
  have "(unat (in_offs b) + 1) mod 10 < 10" by simp
  then show ?thesis unfolding cb_next_in_def by (simp add: unat_of_nat)
qed

lemma add_entry_wf:
  "cb_wf b \<Longrightarrow> aesd_circular_buffer_add_entry (Some b) (Some e) = Some (Some (cb_add b e))"
  by (auto simp: aesd_circular_buffer_add_entry_def cb_add_def cb_next_in_def Let_def cb_wf_def)

lemma cb_add_wf [inv_intros]: "cb_wf b \<Longrightarrow> cb_wf (cb_add b e)"
  by (auto simp: cb_wf_def cb_add_def)

lemma cb_add_full:
  assumes "cb_wf b" and "full b"
  shows "cb_entries (cb_add b e) = tl (cb_entries b) @ [e]"
proof (rule nth_equalityI)
  have io: "in_offs b = out_offs b" using assms by (simp add: cb_wf_def)
  have r: "unat (in_offs b) < 10" "length (entry b) = 10" using assms by auto
  have cnt: "cb_count (cb_add b e) = 10" "cb_count b = 10"
    using assms by (simp_all add: cb_count_def cb_add_def)
  then show "length (cb_entries (cb_add b e)) = length (tl (cb_entries b) @ [e])" by simp
  fix k assume "k < length (cb_entries (cb_add b e))"
  then have k: "k < 10" by (simp add: cnt)
  have slot: "cb_slot (cb_add b e) k = (unat (in_offs b) + Suc k) mod 10"
    using assms(2) by (simp add: cb_slot_def cb_add_def mod_simps)
  have lhs: "cb_entries (cb_add b e) ! k =
      (entry b)[unat (in_offs b) := e] ! ((unat (in_offs b) + Suc k) mod 10)"
    using k by (simp add: nth_cb_entries cnt slot) (simp add: cb_add_def)
  show "cb_entries (cb_add b e) ! k = (tl (cb_entries b) @ [e]) ! k"
  proof (cases "k < 9")
    case True
    then have "(unat (in_offs b) + Suc k) mod 10 \<noteq> (unat (in_offs b) + 0) mod 10"
      by (subst mod_add_eq_iff_diff) auto
    with r have ne: "unat (in_offs b) \<noteq> (unat (in_offs b) + Suc k) mod 10" by simp
    have "cb_entries (cb_add b e) ! k = entry b ! ((unat (in_offs b) + Suc k) mod 10)"
      using ne by (simp add: lhs)
    also have "\<dots> = cb_entries b ! Suc k"
      using True by (simp add: nth_cb_entries cnt cb_slot_def io)
    finally show ?thesis using True by (simp add: nth_append cnt nth_tl)
  next
    case False
    with k have "k = 9" by simp
    moreover have "(unat (in_offs b) + 10) mod 10 = unat (in_offs b)" using r by simp
    ultimately show ?thesis using r lhs by (simp add: nth_append cnt)
  qed
qed

lemma cb_count_add_not_full:
  assumes "cb_wf b" and "\<not> full b"
  shows "cb_count (cb_add b e) = Suc (cb_count b)"
proof -
  have r: "unat (in_offs b) < 10" "unat (out_offs b) < 10" using assms by auto
  have eq: "cb_next_in b = out_offs b \<longleftrightarrow> (unat (in_offs b) + 1) mod 10 = unat (out_offs b)"
    by (metis unat_cb_next_in word_unat_eq_iff)
  have arith: "(10 + (i + 1) mod 10 - ou) mod 10 = Suc ((10 + i - ou) mod 10)"
    if "i < 10" "ou < 10" "(i + 1) mod 10 \<noteq> ou" for i ou :: nat
    using that by (cases "i = 9"; cases "i < ou") (auto simp: mod_if)
  have arith9: "(10 + i - (i + 1) mod 10) mod 10 = 9" if "i < 10" for i :: nat
    using that by (cases "i = 9") auto
  show ?thesis
  proof (cases "(unat (in_offs b) + 1) mod 10 = unat (out_offs b)")
    case True
    then show ?thesis using assms(2) arith9 [OF r(1)] eq
      by (simp add: cb_count_def cb_add_def)
  next
    case False
    then show ?thesis using assms(2) arith [OF r False] eq
      by (simp add: cb_count_def cb_add_def)
  qed
qed

lemma cb_add_not_full:
  assumes "cb_wf b" and "\<not> full b"
  shows "cb_entries (cb_add b e) = cb_entries b @ [e]"
proof (rule nth_equalityI)
  note cnt = cb_count_add_not_full [OF assms]
  show "length (cb_entries (cb_add b e)) = length (cb_entries b @ [e])" by (simp add: cnt)
  fix k assume "k < length (cb_entries (cb_add b e))"
  then have k: "k < Suc (cb_count b)" by (simp add: cnt)
  have lhs: "cb_entries (cb_add b e) ! k = (entry b)[unat (in_offs b) := e] ! cb_slot b k"
    using k assms(2) by (simp add: nth_cb_entries cnt cb_slot_def) (simp add: cb_add_def)
  show "cb_entries (cb_add b e) ! k = (cb_entries b @ [e]) ! k"
  proof (cases "k < cb_count b")
    case True
    then show ?thesis
      using cb_slot_neq_in [OF assms(1) True assms(2)] by (simp add: lhs nth_append nth_cb_entries)
  next
    case False
    with k have "k = cb_count b" by simp
    then show ?thesis
      using cb_wfD(1,2) [OF assms(1)] cb_slot_count [OF assms(1)] lhs
      by (simp add: nth_append)
  qed
qed

lemma cb_not_full_count: "cb_wf b \<Longrightarrow> \<not> full b \<Longrightarrow> cb_count b < 10"
  by (simp add: cb_count_def)

lemma cb_entries_add:
  assumes "cb_wf b"
  shows "cb_entries (cb_add b e) = last_n 10 (cb_entries b @ [e])"
proof (cases "full b")
  case True
  then have "cb_count b = 10" by (simp add: cb_count_def)
  then have "last_n 10 (cb_entries b @ [e]) = tl (cb_entries b) @ [e]"
    by (simp add: last_n_def drop_Suc drop_append)
  with cb_add_full [OF assms True] show ?thesis by simp
next
  case False
  with assms have "cb_count b < 10" by (rule cb_not_full_count)
  with cb_add_not_full [OF assms False] show ?thesis by (simp add: last_n_all)
qed

section \<open>Finding a byte position\<close>

definition cb_sizes :: "aesd_circular_buffer \<Rightarrow> nat list" where
  "cb_sizes b = map (\<lambda>e. unat (esize e)) (cb_entries b)"

lemma length_cb_sizes [simp]: "length (cb_sizes b) = cb_count b"
  by (simp add: cb_sizes_def)

lemma cb_sizes_nth: "k < cb_count b \<Longrightarrow> cb_sizes b ! k = unat (esize (entry b ! cb_slot b k))"
  by (simp add: cb_sizes_def nth_cb_entries)

lemma sum_take_le:
  fixes ns :: "nat list"
  shows "sum_list (take k ns) \<le> sum_list ns"
proof -
  have "sum_list ns = sum_list (take k ns) + sum_list (drop k ns)"
    by (metis append_take_drop_id sum_list_append)
  then show ?thesis by simp
qed

lemma loop_guard:
  assumes "cb_wf b" and "k \<le> cb_count b"
  shows "(cb_slot b k \<noteq> unat (in_offs b) \<or> full b) \<and> k < 10 \<longleftrightarrow> k < cb_count b"
proof (cases "full b")
  case True
  then show ?thesis by (simp add: cb_count_def)
next
  case False
  note lt = cb_not_full_count [OF assms(1) False]
  show ?thesis
  proof (cases "k = cb_count b")
    case True
    then show ?thesis using False cb_slot_count [OF assms(1)] by simp
  next
    case nk: False
    with assms(2) have "k < cb_count b" by simp
    with lt show ?thesis using cb_slot_neq_in [OF assms(1) _ False] by auto
  qed
qed

lemma find_entry_loop_locate:
  assumes "cb_wf b" and "sum_list (cb_sizes b) < 2 ^ 64"
    and "k \<le> cb_count b" and "unat acc = sum_list (take k (cb_sizes b))" and "unat acc \<le> unat off"
  shows "find_entry_loop b off acc (cb_slot b k) k =
    Some (map_option (\<lambda>(l, r). (cb_slot b (k + l), word_of_nat r))
            (locate (drop k (cb_sizes b)) (unat off - unat acc)))"
  using assms(3-5)
proof (induction "cb_count b - k" arbitrary: k acc)
  case 0
  then have "k = cb_count b" by simp
  then show ?case
    using loop_guard [OF assms(1), of k] by (subst find_entry_loop.simps) auto
next
  case (Suc d)
  then have k: "k < cb_count b" by simp
  define n where "n = cb_sizes b ! k"
  have n: "n = unat (esize (entry b ! cb_slot b k))" by (simp add: n_def cb_sizes_nth k)
  have dk: "drop k (cb_sizes b) = n # drop (Suc k) (cb_sizes b)"
    using k by (simp add: n_def Cons_nth_drop_Suc)
  have tk: "sum_list (take (Suc k) (cb_sizes b)) = unat acc + n"
    using k Suc.prems(2) by (simp add: take_Suc_conv_app_nth n_def)
  have sum: "unat (acc + esize (entry b ! cb_slot b k)) = unat acc + n"
    using sum_take_le [of "Suc k" "cb_sizes b"] assms(2) tk n
    by (subst unat_add_no_wrap) auto
  have step: "find_entry_loop b off acc (cb_slot b k) k =
      (if acc + esize (entry b ! cb_slot b k) > off then Some (Some (cb_slot b k, off - acc))
       else find_entry_loop b off (acc + esize (entry b ! cb_slot b k)) (cb_slot b (Suc k)) (Suc k))"
    using loop_guard [OF assms(1), of k] k cb_wfD(1) [OF assms(1)]
    by (subst find_entry_loop.simps) (simp add: cb_slot_Suc [simplified])
  show ?case
  proof (cases "unat off < unat acc + n")
    case True
    then have "off < acc + esize (entry b ! cb_slot b k)" by (simp add: word_less_nat_alt sum)
    moreover have "word_of_nat (unat off - unat acc) = off - acc"
      using Suc.prems(3) by (metis unat_sub_no_wrap word_of_unat)
    moreover have "unat off - unat acc < n" using True Suc.prems(3) by linarith
    ultimately show ?thesis by (simp add: step dk)
  next
    case False
    then have ge: "\<not> off < acc + esize (entry b ! cb_slot b k)"
      by (simp add: word_less_nat_alt sum)
    have "find_entry_loop b off (acc + esize (entry b ! cb_slot b k)) (cb_slot b (Suc k)) (Suc k) =
      Some (map_option (\<lambda>(l, r). (cb_slot b (Suc k + l), word_of_nat r))
        (locate (drop (Suc k) (cb_sizes b))
          (unat off - unat (acc + esize (entry b ! cb_slot b k)))))"
      using Suc.hyps(2) k False tk sum by (intro Suc.hyps(1)) auto
    moreover have "\<not> unat off - unat acc < n" using False Suc.prems(3) by linarith
    ultimately show ?thesis using ge
      by (simp add: step dk sum option.map_comp comp_def case_prod_beta')
  qed
qed

lemma find_entry_locate:
  assumes "cb_wf b" and "sum_list (cb_sizes b) < 2 ^ 64"
  shows "aesd_circular_buffer_find_entry_offset_for_fpos b off =
    Some (map_option (\<lambda>(l, r). (cb_slot b l, word_of_nat r)) (locate (cb_sizes b) (unat off)))"
proof -
  have "cb_slot b 0 = unat (out_offs b)" using assms(1) by (auto simp: cb_slot_def)
  then show ?thesis
    using find_entry_loop_locate [OF assms, of 0 0 off]
    by (simp add: aesd_circular_buffer_find_entry_offset_for_fpos_def)
qed

section \<open>The interface\<close>

text \<open>The add operation as the driver calls it, with the addresses of existing objects.\<close>

abbreviation cb_add_entry :: "aesd_circular_buffer \<Rightarrow> aesd_buffer_entry \<Rightarrow> aesd_circular_buffer option" where
  "cb_add_entry b e \<equiv> Option.bind (aesd_circular_buffer_add_entry (Some b) (Some e)) id"

interpretation cb: searchable_log 10 cb_wf cb_entries aesd_circular_buffer_init cb_add_entry
  "\<lambda>e. unat (esize e)" aesd_circular_buffer_find_entry_offset_for_fpos "\<lambda>b i. entry b ! i" cb_slot
proof unfold_locales
  fix b e b' k off
  assume wf: "cb_wf b"
  show "\<exists>b'. cb_add_entry b e = Some b'" using wf by (simp add: add_entry_wf)
  show "cb_wf b'" if "cb_add_entry b e = Some b'"
    using that wf by (auto simp: add_entry_wf intro: cb_add_wf)
  show "cb_entries b' = last_n 10 (cb_entries b @ [e])" if "cb_add_entry b e = Some b'"
    using that wf by (auto simp: add_entry_wf cb_entries_add)
  show "aesd_circular_buffer_find_entry_offset_for_fpos b off =
      Some (map_option (\<lambda>(k, r). (cb_slot b k, word_of_nat r))
        (locate (map (\<lambda>e. unat (esize e)) (cb_entries b)) (unat off)))"
    if "sum_list (map (\<lambda>e. unat (esize e)) (cb_entries b)) < 2 ^ 64"
    using find_entry_locate [OF wf] that by (simp add: cb_sizes_def)
  show "entry b ! cb_slot b k = cb_entries b ! k" if "k < length (cb_entries b)"
    using that by (simp add: nth_cb_entries)
qed (rule cb_init_wf cb_init_entries)+

end
