(* ===== verification/Kernel_Env.thy ===== *)
theory Kernel_Env
  imports Aesd_Prelude
begin

text \<open>
  The kernel around the driver. The services that are not part of the repository (memory
  allocation, user-space copies, the mutex, \<open>fixed_size_llseek\<close>, the ioctl number macros and
  the registration of character devices) are the fields of a record \<open>kernel\<close>, an argument of
  every driver operation. What the driver relies on is stated by the predicates \<open>kmalloc_ok\<close>,
  \<open>krealloc_ok\<close>, \dots, collected in \<open>kernel_ok\<close>. Access to allocated memory is part of the C
  language and is modelled by \<open>mem_read\<close> and \<open>mem_write\<close>, which are undefined outside a block.
\<close>

section \<open>Memory\<close>

text \<open>Allocated blocks by base address, and the memory of the calling process.\<close>

type_synonym heap = "nat \<rightharpoonup> char list"
type_synonym umem = "nat \<Rightarrow> char"

definition mem_read :: "heap \<Rightarrow> ptr \<Rightarrow> nat \<Rightarrow> nat \<Rightarrow> char list option" where
  "mem_read h p off n =
     (if n = 0 then Some [] else
      case p of
        Ptr a \<Rightarrow> (case h a of
                    Some blk \<Rightarrow> if off + n \<le> length blk then Some (take n (drop off blk)) else None
                  | None \<Rightarrow> None)
      | _ \<Rightarrow> None)"

definition mem_write :: "heap \<Rightarrow> ptr \<Rightarrow> nat \<Rightarrow> char list \<Rightarrow> heap option" where
  "mem_write h p off bs =
     (if bs = [] then Some h else
      case p of
        Ptr a \<Rightarrow> (case h a of
                    Some blk \<Rightarrow> if off + length bs \<le> length blk
                      then Some (h(a \<mapsto> take off blk @ bs @ drop (off + length bs) blk)) else None
                  | None \<Rightarrow> None)
      | _ \<Rightarrow> None)"

text \<open>Overwriting user memory from an address on.\<close>

definition umem_write :: "umem \<Rightarrow> nat \<Rightarrow> char list \<Rightarrow> umem" where
  "umem_write m a bs = (\<lambda>x. if a \<le> x \<and> x < a + length bs then bs ! (x - a) else m x)"

definition umem_read :: "umem \<Rightarrow> nat \<Rightarrow> nat \<Rightarrow> char list" where
  "umem_read m a n = map m [a..<a + n]"

lemma length_umem_read [simp]: "length (umem_read m a n) = n"
  by (simp add: umem_read_def)

lemma umem_read_write: "umem_read (umem_write m a bs) a (length bs) = bs"
  by (rule nth_equalityI) (auto simp: umem_read_def umem_write_def)

lemma umem_write_Nil [simp]: "umem_write m a [] = m"
  by (rule ext) (auto simp: umem_write_def)

lemma mem_read_0 [simp]: "mem_read h p off 0 = Some []"
  by (simp add: mem_read_def)

lemma mem_write_Nil [simp]: "mem_write h p off [] = Some h"
  by (simp add: mem_write_def)

lemma mem_read_block:
  "h a = Some blk \<Longrightarrow> off + n \<le> length blk \<Longrightarrow>
   mem_read h (Ptr a) off n = Some (take n (drop off blk))"
  by (simp add: mem_read_def)

lemma mem_write_block:
  "h a = Some blk \<Longrightarrow> off + length bs \<le> length blk \<Longrightarrow>
   mem_write h (Ptr a) off bs = Some (h(a \<mapsto> take off blk @ bs @ drop (off + length bs) blk))"
  by (auto simp: mem_write_def)

section \<open>Kernel services\<close>

record aesd_seekto =
  write_cmd :: u32
  write_cmd_offset :: u32

text \<open>
  The allocator returns the new heap and the pointer, \<open>kfree\<close> is undefined (\<open>None\<close>) where the
  pointer may not be released, the copy functions return the number of bytes not copied, and
  \<open>seekto_of_bytes\<close> is the layout of \<open>struct aesd_seekto\<close> in memory and \<open>ptr_bytes\<close> that of a
  pointer variable.
\<close>

record kernel =
  kmalloc :: "heap \<Rightarrow> size_t \<Rightarrow> heap \<times> ptr"
  krealloc :: "heap \<Rightarrow> ptr \<Rightarrow> size_t \<Rightarrow> heap \<times> ptr"
  kfree :: "heap \<Rightarrow> ptr \<Rightarrow> heap option"
  copy_from_user :: "umem \<Rightarrow> nat \<Rightarrow> size_t \<Rightarrow> char list \<times> size_t"
  copy_to_user :: "umem \<Rightarrow> nat \<Rightarrow> char list \<Rightarrow> umem \<times> size_t"
  mutex_lock_interruptible :: "bool \<Rightarrow> bool \<times> int"
  mutex_unlock :: "bool \<Rightarrow> bool"
  fixed_size_llseek :: "loff_t \<Rightarrow> loff_t \<Rightarrow> u32 \<Rightarrow> loff_t \<Rightarrow> loff_t \<times> loff_t"
  IOC_TYPE :: "u32 \<Rightarrow> u32"
  IOC_NR :: "u32 \<Rightarrow> u32"
  IOWR :: "u32 \<Rightarrow> u32 \<Rightarrow> nat \<Rightarrow> u32"
  seekto_of_bytes :: "char list \<Rightarrow> aesd_seekto"
  alloc_chrdev_region :: "u32 \<Rightarrow> u32 \<times> int"
  MAJOR :: "u32 \<Rightarrow> u32"
  MKDEV :: "u32 \<Rightarrow> u32 \<Rightarrow> u32"
  cdev_add :: "u32 \<Rightarrow> int"
  ptr_bytes :: "ptr \<Rightarrow> char list"

text \<open>No allocation exceeds \<open>KMALLOC_LIMIT\<close> bytes (the kernel's own limit is far below it).\<close>

definition KMALLOC_LIMIT :: nat where
  "KMALLOC_LIMIT = 2 ^ 32"

definition fresh_block :: "heap \<Rightarrow> size_t \<Rightarrow> heap \<Rightarrow> ptr \<Rightarrow> bool" where
  "fresh_block h n h' p \<longleftrightarrow> (\<exists>a blk. p = Ptr a \<and> h a = None \<and> n \<noteq> 0 \<and> length blk = unat n \<and>
     unat n \<le> KMALLOC_LIMIT \<and> h' = h(a \<mapsto> blk))"

text \<open>
  \<open>kmalloc\<close>: a null pointer and an unchanged heap, the distinguished pointer for no bytes, or
  a fresh block of the requested size with arbitrary contents.
\<close>

definition kmalloc_ok :: "kernel \<Rightarrow> bool" where
  "kmalloc_ok K \<longleftrightarrow> (\<forall>h n h' p. kmalloc K h n = (h', p) \<longrightarrow>
     (p = NULL \<and> h' = h) \<or> (p = ZERO_SIZE_PTR \<and> n = 0 \<and> h' = h) \<or> fresh_block h n h' p)"

text \<open>
  \<open>krealloc\<close> of a non-zero size: on a null pointer it is an allocation; on a block it fails and
  leaves the block alone, or moves it (possibly in place) and keeps the contents up to the
  lesser of the two sizes.
\<close>

definition krealloc_ok :: "kernel \<Rightarrow> bool" where
  "krealloc_ok K \<longleftrightarrow>
     (\<forall>h n h' p. krealloc K h NULL n = (h', p) \<longrightarrow> n \<noteq> 0 \<longrightarrow>
        (p = NULL \<and> h' = h) \<or> fresh_block h n h' p) \<and>
     (\<forall>h a n h' p blk. krealloc K h (Ptr a) n = (h', p) \<longrightarrow> n \<noteq> 0 \<longrightarrow> h a = Some blk \<longrightarrow>
        (p = NULL \<and> h' = h) \<or>
        (\<exists>a' blk'. p = Ptr a' \<and> (a' = a \<or> h a' = None) \<and> length blk' = unat n \<and>
           unat n \<le> KMALLOC_LIMIT \<and>
           take (length blk) blk' = take (unat n) blk \<and> h' = (h(a := None))(a' \<mapsto> blk')))"

definition kfree_ok :: "kernel \<Rightarrow> bool" where
  "kfree_ok K \<longleftrightarrow> (\<forall>h. kfree K h NULL = Some h \<and> kfree K h ZERO_SIZE_PTR = Some h \<and>
     (\<forall>a. h a \<noteq> None \<longrightarrow> kfree K h (Ptr a) = Some (h(a := None))))"

definition copy_ok :: "kernel \<Rightarrow> bool" where
  "copy_ok K \<longleftrightarrow>
     (\<forall>m a n bs left. copy_from_user K m a n = (bs, left) \<longrightarrow>
        length bs = unat n \<and> (left = 0 \<longrightarrow> bs = umem_read m a (unat n))) \<and>
     (\<forall>m a bs m' left. copy_to_user K m a bs = (m', left) \<longrightarrow> left = 0 \<longrightarrow> m' = umem_write m a bs)"

definition mutex_ok :: "kernel \<Rightarrow> bool" where
  "mutex_ok K \<longleftrightarrow> (\<forall>l l' r. mutex_lock_interruptible K l = (l', r) \<longrightarrow>
     (if r = 0 then l' else l' = l)) \<and> \<not> mutex_unlock K True"

text \<open>
  \<open>fixed_size_llseek\<close>: a negative result leaves the position alone; otherwise the result is the
  new position, which lies within the given size unless the position did not change.
\<close>

definition llseek_ok :: "kernel \<Rightarrow> bool" where
  "llseek_ok K \<longleftrightarrow> (\<forall>pos off wh n pos' r. fixed_size_llseek K pos off wh n = (pos', r) \<longrightarrow>
     (if sint r < 0 then pos' = pos else pos' = r \<and> (sint r \<le> sint n \<or> pos' = pos)))"

definition ioc_ok :: "kernel \<Rightarrow> bool" where
  "ioc_ok K \<longleftrightarrow> (\<forall>t n k. t < 256 \<longrightarrow> n < 256 \<longrightarrow> k < 2 ^ 13 \<longrightarrow>
     IOC_TYPE K (IOWR K t n k) = t \<and> IOC_NR K (IOWR K t n k) = n)"

definition kernel_ok :: "kernel \<Rightarrow> bool" where
  "kernel_ok K \<longleftrightarrow> kmalloc_ok K \<and> krealloc_ok K \<and> kfree_ok K \<and> copy_ok K \<and> mutex_ok K \<and>
     llseek_ok K \<and> ioc_ok K"

text \<open>
  A kernel with resources to spare: it grants every allocation of at most \<open>R\<close> bytes while at most eleven blocks are allocated (ten
  commands and an unfinished one, or ten commands and the copy of the data to be written), enlarges every block
  up to \<open>R\<close> bytes, completes every copy and is not interrupted while it waits for the lock.
\<close>

definition grants :: "nat \<Rightarrow> kernel \<Rightarrow> bool" where
  "grants R K \<longleftrightarrow>
     (\<forall>h n. finite (dom h) \<and> card (dom h) \<le> 11 \<and> unat n \<le> R \<longrightarrow> snd (kmalloc K h n) \<noteq> NULL) \<and>
     (\<forall>h a n. h a \<noteq> None \<and> unat n \<le> R \<longrightarrow> snd (krealloc K h (Ptr a) n) \<noteq> NULL) \<and>
     (\<forall>m a n. snd (copy_from_user K m a n) = 0) \<and> (\<forall>m a bs. snd (copy_to_user K m a bs) = 0) \<and>
     (\<forall>l. snd (mutex_lock_interruptible K l) = 0)"

section \<open>Consequences\<close>

lemma kernel_okD:
  assumes "kernel_ok K"
  shows "kmalloc_ok K" "krealloc_ok K" "kfree_ok K" "copy_ok K" "mutex_ok K" "llseek_ok K" "ioc_ok K"
  using assms by (simp_all add: kernel_ok_def)

lemma kmalloc_cases:
  assumes "kmalloc_ok K" and "kmalloc K h n = (h', p)"
  obtains (null) "p = NULL" "h' = h"
  | (zero) "p = ZERO_SIZE_PTR" "n = 0" "h' = h"
  | (block) a blk where "p = Ptr a" "h a = None" "n \<noteq> 0" "length blk = unat n"
      "unat n \<le> KMALLOC_LIMIT" "h' = h(a \<mapsto> blk)"
  using assms unfolding kmalloc_ok_def fresh_block_def by blast

lemma krealloc_NULL_cases:
  assumes "krealloc_ok K" and "krealloc K h NULL n = (h', p)" and "n \<noteq> 0"
  obtains (null) "p = NULL" "h' = h"
  | (block) a blk where "p = Ptr a" "h a = None" "length blk = unat n"
      "unat n \<le> KMALLOC_LIMIT" "h' = h(a \<mapsto> blk)"
  using assms unfolding krealloc_ok_def fresh_block_def by blast

lemma krealloc_Ptr_cases:
  assumes "krealloc_ok K" and "krealloc K h (Ptr a) n = (h', p)" and "n \<noteq> 0" and "h a = Some blk"
  obtains (null) "p = NULL" "h' = h"
  | (block) a' blk' where "p = Ptr a'" "a' = a \<or> h a' = None" "length blk' = unat n"
      "unat n \<le> KMALLOC_LIMIT" "take (length blk) blk' = take (unat n) blk"
      "h' = (h(a := None))(a' \<mapsto> blk')"
  using assms unfolding krealloc_ok_def by blast

lemma kfree_simps:
  assumes "kfree_ok K"
  shows "kfree K h NULL = Some h" "kfree K h ZERO_SIZE_PTR = Some h"
    "h a = Some blk \<Longrightarrow> kfree K h (Ptr a) = Some (h(a := None))"
  using assms by (auto simp: kfree_ok_def)

lemma copy_from_userD:
  assumes "copy_ok K" and "copy_from_user K m a n = (bs, left)"
  shows "length bs = unat n" "left = 0 \<Longrightarrow> bs = umem_read m a (unat n)"
  using assms by (auto simp: copy_ok_def)

lemma copy_to_userD:
  assumes "copy_ok K" and "copy_to_user K m a bs = (m', 0)"
  shows "m' = umem_write m a bs"
  using assms by (auto simp: copy_ok_def)

lemma mutex_lockD:
  assumes "mutex_ok K" and "mutex_lock_interruptible K l = (l', r)"
  shows "r = 0 \<Longrightarrow> l'" "r \<noteq> 0 \<Longrightarrow> l' = l"
  using assms by (auto simp: mutex_ok_def split: if_splits)

lemma mutex_unlockD: "mutex_ok K \<Longrightarrow> mutex_unlock K True = False"
  by (simp add: mutex_ok_def)

end
