(* ===== verification/Aesd_Device.thy ===== *)
theory Aesd_Device
  imports Circular_Buffer Kernel_Env
begin

text \<open>
  The state of the character driver (\<open>aesd-char-driver/aesdchar.h\<close> and the globals of
  \<open>main.c\<close>), the operations \<open>aesd_open\<close> and \<open>aesd_release\<close>, the invariant that ties the
  device structure to the allocated memory, and its abstraction: the committed commands,
  oldest first, and the bytes of an unfinished command.
\<close>

section \<open>State\<close>

datatype file_ops = No_ops | Aesd_fops

record cdev_t =
  cdev_ops :: file_ops
  cdev_dev :: "u32 option"

record aesd_dev =
  lock :: bool
  buffer :: aesd_circular_buffer
  cdev :: cdev_t
  write_buffer :: ptr
  write_buffer_size :: size_t
  buff_size :: size_t

text \<open>
  \<open>filp->private_data\<close> is null until \<open>aesd_open\<close> stores the address of the device that
  contains the inode's \<open>cdev\<close>, of which there is one.
\<close>

datatype dev_ptr = Dev_null | Aesd_device_ptr

record file_t =
  private_data :: dev_ptr
  f_pos :: loff_t

text \<open>
  \<open>overread\<close> records whether a message of \<open>PDEBUG\<close> has read behind the object it prints.
\<close>

record kstate =
  heap :: heap
  umem :: umem
  aesd_device :: aesd_dev
  overread :: bool
  aesd_major :: u32
  aesd_minor :: u32
  regions :: "u32 set"

definition aesd_open :: "file_t \<Rightarrow> file_t \<times> ssize_t" where
  "aesd_open filp = (filp\<lparr>private_data := Aesd_device_ptr\<rparr>, 0)"

definition aesd_release :: "file_t \<Rightarrow> file_t \<times> ssize_t" where
  "aesd_release filp = (filp, 0)"

abbreviation set_lock :: "kstate \<Rightarrow> bool \<Rightarrow> kstate" where
  "set_lock s l \<equiv> s\<lparr>aesd_device := (aesd_device s)\<lparr>lock := l\<rparr>\<rparr>"

section \<open>Blocks and what they hold\<close>

definition valid_blk :: "heap \<Rightarrow> ptr \<Rightarrow> nat \<Rightarrow> bool" where
  "valid_blk h p n \<longleftrightarrow>
     (\<exists>a blk. p = Ptr a \<and> h a = Some blk \<and> n \<le> length blk \<and> length blk \<le> KMALLOC_LIMIT)"

fun bytes_at :: "heap \<Rightarrow> ptr \<Rightarrow> nat \<Rightarrow> char list" where
  "bytes_at h (Ptr a) n = (case h a of Some blk \<Rightarrow> take n blk | None \<Rightarrow> [])"
| "bytes_at h _ n = []"

definition entry_bytes :: "heap \<Rightarrow> aesd_buffer_entry \<Rightarrow> char list" where
  "entry_bytes h e = bytes_at h (buffptr e) (unat (esize e))"

lemma valid_blkE:
  assumes "valid_blk h p n"
  obtains a blk where "p = Ptr a" "h a = Some blk" "n \<le> length blk" "length blk \<le> KMALLOC_LIMIT"
  using assms by (auto simp: valid_blk_def)

lemma length_bytes_at: "valid_blk h p n \<Longrightarrow> length (bytes_at h p n) = n"
  by (auto simp: valid_blk_def)

lemma valid_blk_le_limit: "valid_blk h p n \<Longrightarrow> n \<le> KMALLOC_LIMIT"
  by (auto simp: valid_blk_def)

lemma mem_read_valid:
  "valid_blk h p n \<Longrightarrow> off + k \<le> n \<Longrightarrow> mem_read h p off k = Some (take k (drop off (bytes_at h p n)))"
  by (auto simp: valid_blk_def mem_read_def drop_take min_def)

section \<open>The invariant\<close>

text \<open>
  Every stored entry owns a block at least as long as its size, no two entries share a block,
  and the slots outside the stored range are clear.
\<close>

definition entries_ok :: "heap \<Rightarrow> aesd_circular_buffer \<Rightarrow> bool" where
  "entries_ok h b \<longleftrightarrow> cb_wf b \<and>
     (\<forall>e \<in> set (cb_entries b). 0 < esize e \<and> valid_blk h (buffptr e) (unat (esize e))) \<and>
     distinct (map buffptr (cb_entries b)) \<and>
     (\<forall>i < 10. i \<notin> cb_slot b ` {..<cb_count b} \<longrightarrow> entry b ! i = null_entry)"

text \<open>
  While \<open>write_buffer_size\<close> is not zero, \<open>write_buffer\<close> owns a block of at least that many
  bytes, distinct from those of the entries. \<open>dev_safe\<close> also admits a null \<open>write_buffer\<close>,
  which a failed \<open>krealloc\<close> leaves behind; \<open>dev_inv\<close> excludes it.
\<close>

definition pending_safe :: "heap \<Rightarrow> aesd_dev \<Rightarrow> bool" where
  "pending_safe h d \<longleftrightarrow> (write_buffer_size d \<noteq> 0 \<longrightarrow>
     unat (write_buffer_size d) \<le> KMALLOC_LIMIT \<and>
     (write_buffer d = NULL \<or>
      valid_blk h (write_buffer d) (unat (write_buffer_size d)) \<and>
      write_buffer d \<notin> buffptr ` set (cb_entries (buffer d))))"

definition dev_safe :: "heap \<Rightarrow> aesd_dev \<Rightarrow> bool" where
  "dev_safe h d \<longleftrightarrow> entries_ok h (buffer d) \<and> pending_safe h d"

definition dev_inv :: "heap \<Rightarrow> aesd_dev \<Rightarrow> bool" where
  "dev_inv h d \<longleftrightarrow> dev_safe h d \<and> (write_buffer_size d \<noteq> 0 \<longrightarrow> write_buffer d \<noteq> NULL)"

text \<open>The blocks the device owns.\<close>

definition owned :: "aesd_dev \<Rightarrow> nat set" where
  "owned d = {a. Ptr a \<in> buffptr ` set (cb_entries (buffer d)) \<or>
                 write_buffer_size d \<noteq> 0 \<and> write_buffer d = Ptr a}"

text \<open>The device lost no block: every allocated block is owned.\<close>

definition no_leak :: "heap \<Rightarrow> aesd_dev \<Rightarrow> bool" where
  "no_leak h d \<longleftrightarrow> dom h = owned d"

section \<open>The abstraction\<close>

definition dev_log :: "heap \<Rightarrow> aesd_dev \<Rightarrow> char list list" where
  "dev_log h d = map (entry_bytes h) (cb_entries (buffer d))"

definition dev_pending :: "heap \<Rightarrow> aesd_dev \<Rightarrow> char list" where
  "dev_pending h d =
     (if write_buffer_size d = 0 then []
      else bytes_at h (write_buffer d) (unat (write_buffer_size d)))"

section \<open>Frame properties\<close>

text \<open>Invariant and abstraction depend on the owned blocks only.\<close>

lemma owned_entryI: "e \<in> set (cb_entries (buffer d)) \<Longrightarrow> buffptr e = Ptr a \<Longrightarrow> a \<in> owned d"
  by (metis (mono_tags, lifting) image_eqI mem_Collect_eq owned_def)

lemma owned_pendingI: "write_buffer_size d \<noteq> 0 \<Longrightarrow> write_buffer d = Ptr a \<Longrightarrow> a \<in> owned d"
  by (simp add: owned_def)

lemma valid_blk_cong: "(\<And>a. p = Ptr a \<Longrightarrow> h' a = h a) \<Longrightarrow> valid_blk h' p n = valid_blk h p n"
  by (cases p) (simp_all add: valid_blk_def)

lemma bytes_at_cong: "(\<And>a. p = Ptr a \<Longrightarrow> h' a = h a) \<Longrightarrow> bytes_at h' p n = bytes_at h p n"
  by (cases p) auto

lemma entries_ok_cong:
  assumes "\<And>a. Ptr a \<in> buffptr ` set (cb_entries b) \<Longrightarrow> h' a = h a"
  shows "entries_ok h' b = entries_ok h b"
proof -
  have "valid_blk h' (buffptr e) n = valid_blk h (buffptr e) n" if "e \<in> set (cb_entries b)" for e n
    using that assms by (intro valid_blk_cong) (metis image_eqI)
  then show ?thesis unfolding entries_ok_def by auto
qed

lemma dev_safe_cong:
  assumes "\<And>a. a \<in> owned d \<Longrightarrow> h' a = h a"
  shows "dev_safe h' d = dev_safe h d"
proof -
  have "entries_ok h' (buffer d) = entries_ok h (buffer d)"
    using assms by (intro entries_ok_cong) (simp add: owned_def)
  moreover have "write_buffer_size d \<noteq> 0 \<Longrightarrow>
      valid_blk h' (write_buffer d) n = valid_blk h (write_buffer d) n" for n
    using assms owned_pendingI by (intro valid_blk_cong) blast
  ultimately show ?thesis unfolding dev_safe_def pending_safe_def by auto
qed

lemma dev_inv_cong: "(\<And>a. a \<in> owned d \<Longrightarrow> h' a = h a) \<Longrightarrow> dev_inv h' d = dev_inv h d"
  unfolding dev_inv_def using dev_safe_cong [of d h' h] by simp

lemma dev_log_cong:
  assumes "\<And>a. a \<in> owned d \<Longrightarrow> h' a = h a"
  shows "dev_log h' d = dev_log h d"
proof -
  have "entry_bytes h' e = entry_bytes h e" if "e \<in> set (cb_entries (buffer d))" for e
    unfolding entry_bytes_def using that assms owned_entryI
    by (intro bytes_at_cong) blast
  then show ?thesis by (simp add: dev_log_def)
qed

lemma dev_pending_cong:
  assumes "\<And>a. a \<in> owned d \<Longrightarrow> h' a = h a"
  shows "dev_pending h' d = dev_pending h d"
proof (cases "write_buffer_size d = 0")
  case False
  with assms owned_pendingI have "\<And>a. write_buffer d = Ptr a \<Longrightarrow> h' a = h a" by blast
  then have "bytes_at h' (write_buffer d) n = bytes_at h (write_buffer d) n" for n
    by (rule bytes_at_cong)
  then show ?thesis by (simp add: dev_pending_def)
qed (simp add: dev_pending_def)

lemmas dev_congs = dev_safe_cong dev_inv_cong dev_log_cong dev_pending_cong

text \<open>Fields outside \<open>buffer\<close>, \<open>write_buffer\<close> and \<open>write_buffer_size\<close> play no part.\<close>

lemma dev_lock_simps [simp]:
  "dev_safe h (d\<lparr>lock := l\<rparr>) = dev_safe h d" "dev_inv h (d\<lparr>lock := l\<rparr>) = dev_inv h d"
  "dev_log h (d\<lparr>lock := l\<rparr>) = dev_log h d" "dev_pending h (d\<lparr>lock := l\<rparr>) = dev_pending h d"
  "owned (d\<lparr>lock := l\<rparr>) = owned d" "no_leak h (d\<lparr>lock := l\<rparr>) = no_leak h d"
  by (simp_all add: dev_safe_def dev_inv_def pending_safe_def dev_log_def dev_pending_def
      owned_def no_leak_def)

lemma owned_alloc:
  assumes "dev_safe h d" and "a \<in> owned d"
  shows "\<exists>blk. h a = Some blk"
proof (cases "Ptr a \<in> buffptr ` set (cb_entries (buffer d))")
  case True
  with assms(1) show ?thesis
    by (auto simp: dev_safe_def entries_ok_def) (metis ptr.inject valid_blkE)
next
  case False
  with assms(2) have "write_buffer_size d \<noteq> 0" "write_buffer d = Ptr a"
    by (auto simp: owned_def)
  with assms(1) show ?thesis
    by (auto simp: dev_safe_def pending_safe_def elim!: valid_blkE)
qed

lemma entry_size_less:
  assumes "entries_ok h b" and "e \<in> set (cb_entries b)"
  shows "unat (esize e) \<le> KMALLOC_LIMIT"
  using assms by (auto simp: entries_ok_def intro: valid_blk_le_limit)

text \<open>The total size of the stored entries stays far below the range of \<open>size_t\<close>.\<close>

lemma cb_total_small:
  assumes "entries_ok h b"
  shows "sum_list (map (\<lambda>e. unat (esize e)) (cb_entries b)) \<le> 10 * KMALLOC_LIMIT"
proof -
  have "sum_list (map (\<lambda>e. unat (esize e)) (cb_entries b)) \<le> sum_list (map (\<lambda>e. KMALLOC_LIMIT) (cb_entries b))"
    using entry_size_less [OF assms] by (intro sum_list_mono) auto
  also have "\<dots> = cb_count b * KMALLOC_LIMIT" by (simp add: sum_list_triv)
  also have "\<dots> \<le> 10 * KMALLOC_LIMIT" using cb_count_le [of b] by (intro mult_le_mono1)
  finally show ?thesis .
qed

lemma cb_total_less:
  "entries_ok h b \<Longrightarrow> sum_list (map (\<lambda>e. unat (esize e)) (cb_entries b)) < 2 ^ 63"
  using cb_total_small [of h b] by (simp add: KMALLOC_LIMIT_def)

lemma length_entry_bytes:
  "entries_ok h b \<Longrightarrow> e \<in> set (cb_entries b) \<Longrightarrow> length (entry_bytes h e) = unat (esize e)"
  by (auto simp: entries_ok_def entry_bytes_def length_bytes_at)

lemma length_dev_pending: "dev_inv h d \<Longrightarrow> length (dev_pending h d) = unat (write_buffer_size d)"
  by (auto simp: dev_inv_def dev_safe_def pending_safe_def dev_pending_def length_bytes_at)

lemma dev_log_total: "dev_safe h d \<Longrightarrow> length (concat (dev_log h d)) < 2 ^ 63"
proof -
  assume "dev_safe h d"
  then have ok: "entries_ok h (buffer d)" by (simp add: dev_safe_def)
  have "length (concat (dev_log h d)) = sum_list (map (\<lambda>e. unat (esize e)) (cb_entries (buffer d)))"
    using length_entry_bytes [OF ok] by (simp add: dev_log_def length_concat comp_def cong: map_cong)
  then show ?thesis using cb_total_less [OF ok] by simp
qed

end
