(* ===== verification/Aesd_Write.thy ===== *)
theory Aesd_Write
  imports Aesd_Device
begin

text \<open>
  The write operation of the driver (\<open>aesd_write\<close> of \<open>main.c\<close>): copy the user data, search the
  first newline, grow the device's write buffer, append, and commit a finished command to the
  circular buffer. The phases under the lock are separate definitions in the order of the
  code. Of the debug output (\<open>PDEBUG\<close>) the messages with a \<open>%s\<close> read memory; \<open>pdebug\<close> records
  whether such a message reads behind the object it prints.
\<close>

section \<open>The messages\<close>

text \<open>
  A conversion \<open>%s\<close> reads the bytes of an object up to the first zero byte, and on behind the object
  if there is none.
\<close>

fun c_string :: "char list \<Rightarrow> char list option" where
  "c_string [] = None"
| "c_string (c # cs) = (if c = CHR 0x00 then Some [] else map_option (Cons c) (c_string cs))"

definition pdebug :: "char list \<Rightarrow> kstate \<Rightarrow> kstate" where
  "pdebug bytes s = s\<lparr>overread := overread s \<or> c_string bytes = None\<rparr>"

text \<open>The bytes of the block a pointer points to.\<close>

fun block_bytes :: "heap \<Rightarrow> ptr \<Rightarrow> char list" where
  "block_bytes h (Ptr a) = (case h a of Some blk \<Rightarrow> blk | None \<Rightarrow> [])"
| "block_bytes h _ = []"

lemma c_string_None: "c_string bytes = None \<longleftrightarrow> CHR 0x00 \<notin> set bytes"
  by (induction bytes) auto

lemma pdebug_simps [simp]:
  "heap (pdebug bytes s) = heap s" "aesd_device (pdebug bytes s) = aesd_device s"
  "umem (pdebug bytes s) = umem s"
  by (simp_all add: pdebug_def)

section \<open>The operation\<close>

text \<open>The search loop for the newline: final \<open>write_index\<close> and \<open>newline_found\<close>.\<close>

function newline_loop :: "heap \<Rightarrow> ptr \<Rightarrow> nat \<Rightarrow> nat \<Rightarrow> (nat \<times> bool) option" where
  "newline_loop h write_data count write_index =
     (if write_index < count then
        case mem_read h write_data write_index 1 of
          Some [c] \<Rightarrow> if c = newline then Some (write_index, True)
                     else newline_loop h write_data count (write_index + 1)
        | _ \<Rightarrow> None
      else Some (write_index, False))"
  by pat_completeness auto
termination
  by (relation "measure (\<lambda>(_, _, count, i). count - i)") auto

declare newline_loop.simps [simp del]

text \<open>
  Allocating or enlarging \<open>char_dev->write_buffer\<close>. The result pointer is stored in the
  device before it is tested; \<open>False\<close> is the out-of-memory branch.
\<close>

definition write_grow :: "kernel \<Rightarrow> kstate \<Rightarrow> size_t \<Rightarrow> size_t \<Rightarrow> kstate \<times> bool" where
  "write_grow K s count append_index =
     (let d = aesd_device s;
          (h, p) = (if write_buffer_size d = 0 then kmalloc K (heap s) count
                    else krealloc K (heap s) (write_buffer d) (append_index + write_buffer_size d))
      in (s\<lparr>heap := h, aesd_device := d\<lparr>write_buffer := p\<rparr>\<rparr>, p \<noteq> NULL))"

text \<open>A finished command: release the entry it displaces, add it, start a new command.\<close>

definition write_commit :: "kernel \<Rightarrow> kstate \<Rightarrow> kstate option" where
  "write_commit K s =
     (let d = aesd_device s; b = buffer d;
          add_entry = \<lparr>buffptr = write_buffer d, esize = write_buffer_size d\<rparr>;
          s0 = pdebug (block_bytes (heap s) (write_buffer d)) s
      in do {
        (h1, b1) \<leftarrow>
          (if full b then
             if unat (in_offs b) < length (entry b) then
               let oldest_entry = entry b ! unat (in_offs b) in
               do {
                 h1 \<leftarrow> (if buffptr oldest_entry \<noteq> NULL then kfree K (heap s) (buffptr oldest_entry)
                        else Some (heap s));
                 Some (h1, b\<lparr>entry := (entry b)[unat (in_offs b) := \<lparr>buffptr = NULL, esize = 0\<rparr>]\<rparr>)
               }
             else None
           else Some (heap s, b));
        b2 \<leftarrow> cb_add_entry b1 add_entry;
        Some (s0\<lparr>heap := h1,
                aesd_device := d\<lparr>buffer := b2, buff_size := buff_size d + esize add_entry,
                                 write_buffer_size := 0\<rparr>\<rparr>)
      })"

definition write_append :: "kstate \<Rightarrow> ptr \<Rightarrow> size_t \<Rightarrow> kstate option" where
  "write_append s write_data append_index =
     (let d = aesd_device s in do {
        bs \<leftarrow> mem_read (heap s) write_data 0 (unat append_index);
        h \<leftarrow> mem_write (heap s) (write_buffer d) (unat (write_buffer_size d)) bs;
        Some (s\<lparr>heap := h,
                aesd_device := d\<lparr>write_buffer_size := write_buffer_size d + append_index\<rparr>\<rparr>)
      })"

definition write_unlock :: "kernel \<Rightarrow> kstate \<Rightarrow> ptr \<Rightarrow> kstate option" where
  "write_unlock K s write_data = do {
     h \<leftarrow> kfree K (heap s) write_data;
     Some (set_lock (s\<lparr>heap := h\<rparr>) (mutex_unlock K (lock (aesd_device s))))
   }"

definition write_locked ::
  "kernel \<Rightarrow> kstate \<Rightarrow> ptr \<Rightarrow> size_t \<Rightarrow> loff_t \<Rightarrow> (kstate \<times> loff_t \<times> ssize_t) option" where
  "write_locked K s write_data count pos = do {
     (write_index, newline_found) \<leftarrow> newline_loop (heap s) write_data (unat count) 0;
     let (append_index, s0) =
       (if newline_found then (word_of_nat write_index + 1, pdebug (ptr_bytes K write_data) s)
        else (count, pdebug (ptr_bytes K write_data) s));
     let (s1, grown) = write_grow K s0 count append_index;
     if \<not> grown then do {
       s2 \<leftarrow> write_unlock K s1 write_data;
       Some (s2, pos, - ENOMEM)
     } else do {
       s2 \<leftarrow> write_append s1 write_data append_index;
       s3 \<leftarrow> (if newline_found then write_commit K s2 else Some s2);
       s4 \<leftarrow> write_unlock K s3 write_data;
       Some (s4, pos + append_index, append_index)
     }
   }"

text \<open>
  \<open>aesd_write\<close>: null arguments, allocation of the temporary buffer, the copy from user space
  and the lock. The result carries the new state, the new file position and the return value.
\<close>

definition aesd_write ::
  "kernel \<Rightarrow> kstate \<Rightarrow> file_t option \<Rightarrow> nat option \<Rightarrow> size_t \<Rightarrow> loff_t \<Rightarrow>
   (kstate \<times> loff_t \<times> ssize_t) option" where
  "aesd_write K s filp buf count pos =
     (case (filp, buf) of
        (Some f, Some ubuf) \<Rightarrow>
          let (h1, write_data) = kmalloc K (heap s) count in
          if write_data = NULL then Some (s\<lparr>heap := h1\<rparr>, pos, - ENOMEM)
          else
            let (bytes, left) = copy_from_user K (umem s) ubuf count in
            do {
              h2 \<leftarrow> mem_write h1 write_data 0 bytes;
              if left \<noteq> 0 then do {
                h3 \<leftarrow> kfree K h2 write_data;
                Some (s\<lparr>heap := h3\<rparr>, pos, - EFAULT)
              } else
                case private_data f of
                  Dev_null \<Rightarrow> None
                | Aesd_device_ptr \<Rightarrow>
                    let (l, r) = mutex_lock_interruptible K (lock (aesd_device s)) in
                    if r \<noteq> 0 then Some (set_lock (s\<lparr>heap := h2\<rparr>) l, pos, - ERESTARTSYS)
                    else write_locked K (set_lock (s\<lparr>heap := h2\<rparr>) l) write_data count pos
            }
      | _ \<Rightarrow> Some (s, pos, - EINVAL))"

section \<open>The specification\<close>

text \<open>What one call consumes of its data: everything up to and including the first newline.\<close>

definition consumed :: "char list \<Rightarrow> char list" where
  "consumed data = takeWhile (\<lambda>c. c \<noteq> newline) data @ (if newline \<in> set data then [newline] else [])"

definition spec_write :: "char list list \<times> char list \<Rightarrow> char list \<Rightarrow> char list list \<times> char list" where
  "spec_write st data = (case st of (log, pending) \<Rightarrow>
     if newline \<in> set data then (last_n 10 (log @ [pending @ consumed data]), [])
     else (log, pending @ consumed data))"

lemma consumed_Nil [simp]: "consumed [] = []"
  by (simp add: consumed_def)

lemma consumed_Cons [simp]:
  "consumed (c # cs) = (if c = newline then [newline] else c # consumed cs)"
  by (simp add: consumed_def)

lemma consumed_prefix: "\<exists>rest. data = consumed data @ rest"
  by (induction data) auto

lemma length_consumed:
  "length (consumed data) =
     (if newline \<in> set data then Suc (length (takeWhile (\<lambda>c. c \<noteq> newline) data)) else length data)"
  by (induction data) auto

lemma consumed_all: "newline \<notin> set data \<Longrightarrow> consumed data = data"
  by (induction data) auto

lemma consumed_take: "consumed data = take (length (consumed data)) data"
  using consumed_prefix [of data] by (metis append_eq_conv_conj)

lemma length_consumed_le: "length (consumed data) \<le> length data"
  using consumed_prefix [of data] by (metis le_add1 length_append)

lemma newline_in_consumed: "newline \<in> set (consumed data) \<longleftrightarrow> newline \<in> set data"
  by (induction data) auto

section \<open>The newline search\<close>

lemma newline_loop_spec:
  assumes "i \<le> length data" and "\<And>k. k < length data \<Longrightarrow> mem_read h p k 1 = Some [data ! k]"
  shows "newline_loop h p (length data) i =
    Some (i + length (takeWhile (\<lambda>c. c \<noteq> newline) (drop i data)), newline \<in> set (drop i data))"
  using assms(1)
proof (induction "length data - i" arbitrary: i)
  case 0
  then show ?case by (subst newline_loop.simps) simp
next
  case (Suc n)
  then have i: "i < length data" by simp
  then have d: "drop i data = data ! i # drop (Suc i) data" by (simp add: Cons_nth_drop_Suc)
  have "newline_loop h p (length data) (Suc i) =
    Some (Suc i + length (takeWhile (\<lambda>c. c \<noteq> newline) (drop (Suc i) data)),
      newline \<in> set (drop (Suc i) data))"
    using Suc.hyps(2) i by (intro Suc.hyps(1)) auto
  with i d assms(2) [OF i] show ?case by (subst newline_loop.simps) simp
qed

text \<open>The temporary buffer: a block that holds exactly the user data.\<close>

definition tmp_buf :: "heap \<Rightarrow> ptr \<Rightarrow> char list \<Rightarrow> bool" where
  "tmp_buf h p data \<longleftrightarrow>
     p = ZERO_SIZE_PTR \<and> data = [] \<or> (\<exists>a. p = Ptr a \<and> h a = Some data)"

definition tmp_addr :: "ptr \<Rightarrow> nat set" where
  "tmp_addr p = {a. p = Ptr a}"

lemma tmp_addr_simps [simp]: "tmp_addr (Ptr a) = {a}" "tmp_addr ZERO_SIZE_PTR = {}"
  by (auto simp: tmp_addr_def)

lemma tmp_buf_read: "tmp_buf h p data \<Longrightarrow> n \<le> length data \<Longrightarrow> mem_read h p 0 n = Some (take n data)"
  by (auto simp: tmp_buf_def mem_read_def)

lemma tmp_buf_cong: "(\<And>a. a \<in> tmp_addr p \<Longrightarrow> h' a = h a) \<Longrightarrow> tmp_buf h' p data = tmp_buf h p data"
  by (auto simp: tmp_buf_def tmp_addr_def)

lemma newline_loop_tmp:
  assumes "tmp_buf h p data"
  shows "newline_loop h p (length data) 0 =
    Some (length (takeWhile (\<lambda>c. c \<noteq> newline) data), newline \<in> set data)"
proof -
  have "mem_read h p k 1 = Some [data ! k]" if "k < length data" for k
    using assms that by (auto simp: tmp_buf_def mem_read_def take_Suc_conv_app_nth hd_drop_conv_nth take_Suc)
  then show ?thesis using newline_loop_spec [of 0 data h p] by simp
qed

section \<open>Committing a command\<close>

lemma cb_slot_surj: "i < 10 \<Longrightarrow> i \<in> cb_slot b ` {..<10}"
proof -
  have "inj_on (cb_slot b) {..<10}"
    using cb_slot_inj [of _ _ b] by (intro inj_onI) auto
  then have "cb_slot b ` {..<10} = {..<10}"
    by (intro endo_inj_surj) auto
  then show "i < 10 \<Longrightarrow> ?thesis" by simp
qed

lemma cb_add_unused:
  assumes wf: "cb_wf b" and clear: "\<forall>i < 10. i \<notin> cb_slot b ` {..<cb_count b} \<longrightarrow> entry b ! i = null_entry"
  shows "\<forall>i < 10. i \<notin> cb_slot (cb_add b e) ` {..<cb_count (cb_add b e)} \<longrightarrow>
           entry (cb_add b e) ! i = null_entry"
proof (cases "full b")
  case True
  then have "cb_count (cb_add b e) = 10" by (simp add: cb_count_def cb_add_def)
  then show ?thesis using cb_slot_surj by simp
next
  case False
  have slots: "cb_slot (cb_add b e) k = cb_slot b k" for k
    using False by (simp add: cb_slot_def cb_add_def)
  show ?thesis
  proof (intro allI impI)
    fix i :: nat
    assume i: "i < 10" and n: "i \<notin> cb_slot (cb_add b e) ` {..<cb_count (cb_add b e)}"
    then have "i \<notin> cb_slot b ` {..<Suc (cb_count b)}"
      by (simp add: slots cb_count_add_not_full [OF wf False])
    then have "i \<notin> cb_slot b ` {..<cb_count b}" and "i \<noteq> unat (in_offs b)"
      using cb_slot_count [OF wf] by (auto simp: lessThan_Suc)
    with clear i show "entry (cb_add b e) ! i = null_entry" by (simp add: cb_add_def)
  qed
qed

lemma entries_ok_add:
  assumes ok: "entries_ok h b" and e: "valid_blk h (buffptr e) (unat (esize e))" "0 < esize e"
    and new: "buffptr e \<notin> buffptr ` set (cb_entries b)"
    and frame: "\<And>a. Ptr a \<in> buffptr ` set (cb_entries (cb_add b e)) \<Longrightarrow> h' a = h a"
  shows "entries_ok h' (cb_add b e)"
proof -
  from ok have wf: "cb_wf b" by (simp add: entries_ok_def)
  have es: "cb_entries (cb_add b e) = last_n 10 (cb_entries b @ [e])"
    using wf by (rule cb_entries_add)
  have sub: "set (cb_entries (cb_add b e)) \<subseteq> insert e (set (cb_entries b))"
    using set_last_n [of 10 "cb_entries b @ [e]"] by (simp add: es)
  have "distinct (map buffptr (cb_entries b @ [e]))"
    using ok new by (simp add: entries_ok_def)
  then have dist: "distinct (map buffptr (cb_entries (cb_add b e)))"
    by (simp only: es map_last_n) (simp only: last_n_def distinct_drop)
  have "entries_ok h (cb_add b e)"
    unfolding entries_ok_def
  proof (intro conjI)
    show "cb_wf (cb_add b e)" using wf by (rule cb_add_wf)
    show "\<forall>x\<in>set (cb_entries (cb_add b e)). 0 < esize x \<and> valid_blk h (buffptr x) (unat (esize x))"
      using sub ok e by (auto simp: entries_ok_def)
    show "distinct (map buffptr (cb_entries (cb_add b e)))" by (rule dist)
    show "\<forall>i<10. i \<notin> cb_slot (cb_add b e) ` {..<cb_count (cb_add b e)} \<longrightarrow>
        entry (cb_add b e) ! i = null_entry"
      using ok by (intro cb_add_unused [OF wf]) (simp add: entries_ok_def)
  qed
  then show ?thesis using frame entries_ok_cong by blast
qed

text \<open>The heap after releasing a pointer, and after a commit displaced the oldest entry.\<close>

fun free_block :: "heap \<Rightarrow> ptr \<Rightarrow> heap" where
  "free_block h (Ptr a) = h(a := None)"
| "free_block h _ = h"

definition commit_heap :: "heap \<Rightarrow> aesd_circular_buffer \<Rightarrow> heap" where
  "commit_heap h b = (if full b then free_block h (buffptr (hd (cb_entries b))) else h)"

lemma kfree_valid: "kfree_ok K \<Longrightarrow> valid_blk h p n \<Longrightarrow> kfree K h p = Some (free_block h p)"
  by (auto simp: valid_blk_def kfree_simps)

lemma kfree_tmp: "kfree_ok K \<Longrightarrow> tmp_buf h p data \<Longrightarrow> kfree K h p = Some (free_block h p)"
  by (auto simp: tmp_buf_def kfree_simps)

lemma free_block_other: "a \<notin> tmp_addr p \<Longrightarrow> free_block h p a = h a"
  by (cases p) (auto simp: tmp_addr_def)

lemma dom_free_block: "dom (free_block h p) = dom h - tmp_addr p"
  by (cases p) (auto simp: tmp_addr_def)

text \<open>In a full buffer the oldest entry is in slot \<open>in_offs\<close>.\<close>

lemma full_oldest:
  assumes "cb_wf b" and "full b"
  shows "cb_entries b = entry b ! unat (in_offs b) # tl (cb_entries b)"
proof -
  have "cb_count b = 10" "out_offs b = in_offs b" using assms by (auto simp: cb_count_def cb_wf_def)
  moreover have "cb_slot b 0 = unat (out_offs b)" using assms by (auto simp: cb_slot_def)
  ultimately have "cb_entries b ! 0 = entry b ! unat (in_offs b)" by (simp add: nth_cb_entries)
  moreover have "cb_entries b \<noteq> []"
    using \<open>cb_count b = 10\<close> length_cb_entries [of b] by (metis length_0_conv zero_neq_numeral)
  ultimately show ?thesis by (metis hd_Cons_tl hd_conv_nth)
qed

definition pend_entry :: "aesd_dev \<Rightarrow> aesd_buffer_entry" where
  "pend_entry d = \<lparr>buffptr = write_buffer d, esize = write_buffer_size d\<rparr>"

definition committed :: "aesd_dev \<Rightarrow> aesd_dev" where
  "committed d = d\<lparr>buffer := cb_add (buffer d) (pend_entry d),
     buff_size := buff_size d + write_buffer_size d, write_buffer_size := 0\<rparr>"

lemma write_commit_eq:
  assumes "kfree_ok K" and "entries_ok (heap s) (buffer (aesd_device s))"
  defines "d \<equiv> aesd_device s"
  shows "write_commit K s =
    Some (s\<lparr>heap := commit_heap (heap s) (buffer d), aesd_device := committed d,
            overread := overread s \<or> c_string (block_bytes (heap s) (write_buffer d)) = None\<rparr>)"
proof (cases "full (buffer d)")
  case True
  let ?b = "buffer d" and ?h = "heap s"
  have wf: "cb_wf ?b" using assms(2) by (simp add: entries_ok_def d_def)
  let ?x = "entry ?b ! unat (in_offs ?b)"
  note es = full_oldest [OF wf True]
  have "?x \<in> set (cb_entries ?b)" by (subst es) simp
  then have v: "valid_blk ?h (buffptr ?x) (unat (esize ?x))"
    using assms(2) by (simp add: entries_ok_def d_def)
  then have nn: "buffptr ?x \<noteq> NULL" by (auto simp: valid_blk_def)
  have hd: "hd (cb_entries ?b) = ?x" by (subst es) simp
  have wf': "cb_wf (?b\<lparr>entry := (entry ?b)[unat (in_offs ?b) := \<lparr>buffptr = NULL, esize = 0\<rparr>]\<rparr>)"
    using wf by (simp add: cb_wf_def)
  have add: "cb_add (?b\<lparr>entry := (entry ?b)[unat (in_offs ?b) := \<lparr>buffptr = NULL, esize = 0\<rparr>]\<rparr>) e = cb_add ?b e" for e
    by (simp add: cb_add_def cb_next_in_def)
  show ?thesis
    using True nn wf cb_wfD(1,2) [OF wf] kfree_valid [OF assms(1) v]
    by (simp add: write_commit_def Let_def add_entry_wf [OF wf'] add commit_heap_def hd
        committed_def pend_entry_def pdebug_def flip: d_def)
next
  case False
  have wf: "cb_wf (buffer d)" using assms(2) by (simp add: entries_ok_def d_def)
  with False show ?thesis
    by (simp add: write_commit_def Let_def add_entry_wf commit_heap_def committed_def pend_entry_def
        pdebug_def flip: d_def)
qed

text \<open>Blocks of the entries that remain after a commit are not the one that is released.\<close>

lemma commit_heap_frame:
  assumes ok: "entries_ok h b" and new: "buffptr e \<notin> buffptr ` set (cb_entries b)"
    and a: "Ptr a \<in> buffptr ` set (cb_entries (cb_add b e))"
  shows "commit_heap h b a = h a"
proof (cases "full b")
  case True
  from ok have wf: "cb_wf b" by (simp add: entries_ok_def)
  obtain x xs where es: "cb_entries b = x # xs" using full_oldest [OF wf True] by metis
  have "cb_entries (cb_add b e) = xs @ [e]" using cb_add_full [OF wf True] es by simp
  moreover have "distinct (map buffptr (x # xs))" using ok es by (simp add: entries_ok_def)
  ultimately have "Ptr a \<noteq> buffptr x" using a new es by fastforce
  with True es show ?thesis by (cases "buffptr x") (auto simp: commit_heap_def)
next
  case False
  then show ?thesis by (simp add: commit_heap_def)
qed

lemma commit_log:
  assumes ok: "entries_ok h b" and new: "buffptr e \<notin> buffptr ` set (cb_entries b)"
  shows "map (entry_bytes (commit_heap h b)) (cb_entries (cb_add b e)) =
    last_n 10 (map (entry_bytes h) (cb_entries b) @ [entry_bytes h e])"
proof -
  from ok have wf: "cb_wf b" by (simp add: entries_ok_def)
  have "entry_bytes (commit_heap h b) x = entry_bytes h x" if "x \<in> set (cb_entries (cb_add b e))" for x
    unfolding entry_bytes_def using that commit_heap_frame [OF ok new]
    by (intro bytes_at_cong) (metis image_eqI)
  then have "map (entry_bytes (commit_heap h b)) (cb_entries (cb_add b e)) =
      map (entry_bytes h) (cb_entries (cb_add b e))" by simp
  then show ?thesis by (simp add: cb_entries_add [OF wf] map_last_n)
qed

definition entry_addrs :: "aesd_circular_buffer \<Rightarrow> nat set" where
  "entry_addrs b = {a. Ptr a \<in> buffptr ` set (cb_entries b)}"

definition pend_addr :: "aesd_dev \<Rightarrow> nat set" where
  "pend_addr d = (if write_buffer_size d = 0 then {} else tmp_addr (write_buffer d))"

lemma owned_split: "owned d = entry_addrs (buffer d) \<union> pend_addr d"
  by (auto simp: owned_def entry_addrs_def pend_addr_def tmp_addr_def)

lemma entry_addrs_alloc:
  assumes "entries_ok h b" and "a \<in> entry_addrs b"
  shows "h a \<noteq> None"
proof -
  from assms(2) obtain e where e: "e \<in> set (cb_entries b)" "buffptr e = Ptr a"
    unfolding entry_addrs_def by (metis (mono_tags, lifting) imageE mem_Collect_eq)
  with assms(1) have "valid_blk h (Ptr a) (unat (esize e))" unfolding entries_ok_def by metis
  then show ?thesis by (auto simp: valid_blk_def)
qed

text \<open>The device after a commit.\<close>

lemma pending_entry:
  assumes "dev_safe h d" and "write_buffer_size d \<noteq> 0" and "write_buffer d \<noteq> NULL"
  shows "entries_ok h (buffer d)" and "cb_wf (buffer d)"
    and "valid_blk h (buffptr (pend_entry d)) (unat (esize (pend_entry d)))"
    and "0 < esize (pend_entry d)"
    and "buffptr (pend_entry d) \<notin> buffptr ` set (cb_entries (buffer d))"
    and "entry_bytes h (pend_entry d) = dev_pending h d"
  using assms
  by (auto simp: dev_safe_def pending_safe_def entries_ok_def pend_entry_def word_neq_0_conv
      entry_bytes_def dev_pending_def)

lemma commit_dev:
  assumes "dev_safe h d" and "write_buffer_size d \<noteq> 0" and "write_buffer d \<noteq> NULL"
  shows "dev_inv (commit_heap h (buffer d)) (committed d)"
    and "dev_pending (commit_heap h (buffer d)) (committed d) = []"
    and "dev_log (commit_heap h (buffer d)) (committed d) = last_n 10 (dev_log h d @ [dev_pending h d])"
proof -
  note P = pending_entry [OF assms]
  have "entries_ok (commit_heap h (buffer d)) (cb_add (buffer d) (pend_entry d))"
    using commit_heap_frame [OF P(1,5)] by (rule entries_ok_add [OF P(1,3,4,5)])
  then show "dev_inv (commit_heap h (buffer d)) (committed d)"
    by (simp add: dev_inv_def dev_safe_def pending_safe_def committed_def)
  show "dev_pending (commit_heap h (buffer d)) (committed d) = []"
    by (simp add: dev_pending_def committed_def)
  show "dev_log (commit_heap h (buffer d)) (committed d) = last_n 10 (dev_log h d @ [dev_pending h d])"
    using commit_log [OF P(1,5)] P(6) by (simp add: dev_log_def committed_def)
qed

lemma owned_committed: "owned (committed d) = entry_addrs (cb_add (buffer d) (pend_entry d))"
  by (simp add: owned_split committed_def pend_addr_def)

lemma entry_addrs_entries: "cb_entries b = es \<Longrightarrow> entry_addrs b = {a. Ptr a \<in> buffptr ` set es}"
  by (simp add: entry_addrs_def)

lemma commit_owned:
  assumes "dev_safe h d" and "write_buffer_size d \<noteq> 0" and "write_buffer d \<noteq> NULL"
  shows "owned (committed d) \<subseteq> owned d"
    and "dom (commit_heap h (buffer d)) = dom h - (owned d - owned (committed d))"
    and "\<And>a. a \<notin> owned d \<Longrightarrow> commit_heap h (buffer d) a = h a"
proof -
  let ?b = "buffer d" and ?e = "pend_entry d"
  note P = pending_entry [OF assms]
  have od: "owned d = entry_addrs ?b \<union> {a. Ptr a = buffptr ?e}"
    using assms(2) by (auto simp: owned_split pend_addr_def pend_entry_def tmp_addr_def)
  have "owned (committed d) \<subseteq> owned d \<and>
    dom (commit_heap h ?b) = dom h - (owned d - owned (committed d)) \<and>
    (\<forall>a. a \<notin> owned d \<longrightarrow> commit_heap h ?b a = h a)"
  proof (cases "full ?b")
    case True
    obtain y ys where es: "cb_entries ?b = y # ys" using full_oldest [OF P(2) True] by metis
    have es': "cb_entries (cb_add ?b ?e) = ys @ [?e]" using cb_add_full [OF P(2) True] es by simp
    have y: "buffptr y \<notin> buffptr ` set ys" using P(1) es by (simp add: entries_ok_def)
    have o: "owned d = {a. Ptr a \<in> buffptr ` set ys} \<union> {a. Ptr a = buffptr ?e} \<union> tmp_addr (buffptr y)"
      by (auto simp: od entry_addrs_entries [OF es] tmp_addr_def)
    have o': "owned (committed d) = {a. Ptr a \<in> buffptr ` set ys} \<union> {a. Ptr a = buffptr ?e}"
      by (auto simp: owned_committed entry_addrs_entries [OF es'])
    have "tmp_addr (buffptr y) \<inter> owned (committed d) = {}"
      using y P(5) es unfolding o' tmp_addr_def by force
    then have "owned d - owned (committed d) = tmp_addr (buffptr y)" using o o' by blast
    then show ?thesis
      using True es o o' by (auto simp: commit_heap_def dom_free_block free_block_other)
  next
    case False
    have "owned (committed d) = owned d"
      by (auto simp: od owned_committed entry_addrs_def cb_add_not_full [OF P(2) False])
    then show ?thesis using False by (simp add: commit_heap_def)
  qed
  then show "owned (committed d) \<subseteq> owned d"
    and "dom (commit_heap h ?b) = dom h - (owned d - owned (committed d))"
    and "\<And>a. a \<notin> owned d \<Longrightarrow> commit_heap h ?b a = h a"
    by blast+
qed

section \<open>Growing the write buffer and appending\<close>

text \<open>
  A state under the lock: the device is safe and the temporary buffer, which the device does
  not own, holds the data of the call.
\<close>

definition locked_with :: "heap \<Rightarrow> aesd_dev \<Rightarrow> ptr \<Rightarrow> char list \<Rightarrow> bool" where
  "locked_with h d p data \<longleftrightarrow> dev_safe h d \<and> tmp_buf h p data \<and> tmp_addr p \<inter> owned d = {} \<and>
     length data \<le> KMALLOC_LIMIT"

text \<open>The block a successful allocation leaves in \<open>write_buffer\<close>: room for \<open>n\<close> more bytes.\<close>

definition grown_to :: "heap \<Rightarrow> aesd_dev \<Rightarrow> ptr \<Rightarrow> nat \<Rightarrow> heap \<Rightarrow> nat \<Rightarrow> char list \<Rightarrow> bool" where
  "grown_to h d p n h1 a blk \<longleftrightarrow>
     h1 a = Some blk \<and> unat (write_buffer_size d) + n \<le> length blk \<and> length blk \<le> KMALLOC_LIMIT \<and>
     unat (write_buffer_size d) + n \<noteq> 0 \<and>
     a \<notin> entry_addrs (buffer d) \<and> a \<notin> tmp_addr p \<and>
     (\<forall>x. x \<noteq> a \<longrightarrow> x \<notin> pend_addr d \<longrightarrow> h1 x = h x) \<and>
     dom h1 = insert a (dom h - pend_addr d) \<and>
     (write_buffer d \<noteq> NULL \<longrightarrow> take (unat (write_buffer_size d)) blk = dev_pending h d)"

lemma tmp_alloc: "tmp_buf h p data \<Longrightarrow> a \<in> tmp_addr p \<Longrightarrow> h a \<noteq> None"
  by (auto simp: tmp_buf_def tmp_addr_def)

lemma fresh_grown:
  assumes "locked_with h d p data" and "h a = None" and "pend_addr d = {}"
    and "length blk \<le> KMALLOC_LIMIT" and "unat (write_buffer_size d) + n \<le> length blk"
    and "write_buffer d \<noteq> NULL \<longrightarrow> write_buffer_size d = 0" and "unat (write_buffer_size d) + n \<noteq> 0"
  shows "grown_to h d p n (h(a \<mapsto> blk)) a blk"
proof -
  have "a \<notin> entry_addrs (buffer d)"
    using assms(1,2) entry_addrs_alloc [of h "buffer d" a] by (auto simp: locked_with_def dev_safe_def)
  moreover have "a \<notin> tmp_addr p"
    using assms(1,2) tmp_alloc [of h p data a] by (auto simp: locked_with_def)
  ultimately show ?thesis
    using assms(2-7) by (auto simp: grown_to_def dev_pending_def)
qed

lemma realloc_sum:
  assumes "dev_safe h d" and "write_buffer_size d \<noteq> 0" and "n \<le> KMALLOC_LIMIT"
  shows "unat (word_of_nat n + write_buffer_size d) = n + unat (write_buffer_size d)"
    and "word_of_nat n + write_buffer_size d \<noteq> 0"
proof -
  have w: "unat (write_buffer_size d) \<le> KMALLOC_LIMIT"
    using assms(1,2) by (simp add: dev_safe_def pending_safe_def)
  have n: "unat (word_of_nat n :: size_t) = n"
    using assms(3) by (intro unat_word_of_nat) (simp add: KMALLOC_LIMIT_def)
  show sum: "unat (word_of_nat n + write_buffer_size d) = n + unat (write_buffer_size d)"
    using w assms(3) n by (subst unat_add_no_wrap) (simp_all add: KMALLOC_LIMIT_def)
  have "unat (write_buffer_size d) \<noteq> 0" using assms(2) by (simp add: unat_eq_0)
  with sum show "word_of_nat n + write_buffer_size d \<noteq> 0" by (metis add_is_0 unat_0)
qed

lemma realloc_grown:
  assumes "locked_with h d p data" and "write_buffer_size d \<noteq> 0" and "write_buffer d = Ptr a0"
    and "h a0 = Some blk0" and "unat (write_buffer_size d) \<le> length blk0"
    and "a = a0 \<or> h a = None" and "length blk = n + unat (write_buffer_size d)"
    and "length blk \<le> KMALLOC_LIMIT" and "take (length blk0) blk = take (length blk) blk0"
  shows "grown_to h d p n ((h(a0 := None))(a \<mapsto> blk)) a blk"
proof -
  have pa: "pend_addr d = {a0}" using assms(2,3) by (auto simp: pend_addr_def)
  have "a \<notin> entry_addrs (buffer d)"
  proof (cases "a = a0")
    case True
    with assms(1-3) show ?thesis
      by (auto simp: locked_with_def dev_safe_def pending_safe_def entry_addrs_def)
  next
    case False
    with assms(1,6) show ?thesis
      using entry_addrs_alloc [of h "buffer d" a] by (auto simp: locked_with_def dev_safe_def)
  qed
  moreover have "a \<notin> tmp_addr p"
    using assms(1,6) tmp_alloc [of h p data a] pa by (auto simp: locked_with_def owned_split)
  moreover have "take (unat (write_buffer_size d)) blk = dev_pending h d"
  proof -
    let ?w = "unat (write_buffer_size d)"
    have "take ?w blk = take ?w (take (length blk0) blk)" using assms(5) by (simp add: min_def)
    also have "\<dots> = take ?w blk0" using assms(7,9) by simp
    finally show ?thesis using assms(2-4) by (simp add: dev_pending_def)
  qed
  moreover have "unat (write_buffer_size d) \<noteq> 0" using assms(2) by (simp add: unat_eq_0)
  ultimately show ?thesis using assms(4,7,8) pa by (auto simp: grown_to_def)
qed

text \<open>The kernel refuses the memory for \<open>n\<close> more bytes of the unfinished command.\<close>

definition grow_refused :: "kernel \<Rightarrow> heap \<Rightarrow> aesd_dev \<Rightarrow> size_t \<Rightarrow> nat \<Rightarrow> bool" where
  "grow_refused K h d count n \<longleftrightarrow>
     (if write_buffer_size d = 0 then snd (kmalloc K h count) = NULL
      else snd (krealloc K h (write_buffer d) (word_of_nat n + write_buffer_size d)) = NULL)"

lemma grow_refused_lock [simp]: "grow_refused K h (d\<lparr>lock := l\<rparr>) count n = grow_refused K h d count n"
  by (simp add: grow_refused_def)

lemma write_grow_refused:
  "write_grow K s count (word_of_nat n) = (s1, False) \<Longrightarrow> grow_refused K (heap s) (aesd_device s) count n"
  by (auto simp: write_grow_def grow_refused_def Let_def case_prod_beta split: if_splits)

text \<open>The three outcomes of \<open>write_grow\<close>.\<close>

definition grow_outcome :: "kstate \<Rightarrow> ptr \<Rightarrow> char list \<Rightarrow> nat \<Rightarrow> kstate \<times> bool \<Rightarrow> bool" where
  "grow_outcome s p data n out \<longleftrightarrow>
     out = (s\<lparr>aesd_device := (aesd_device s)\<lparr>write_buffer := NULL\<rparr>\<rparr>, False) \<or>
     data = [] \<and> write_buffer_size (aesd_device s) = 0 \<and>
       out = (s\<lparr>aesd_device := (aesd_device s)\<lparr>write_buffer := ZERO_SIZE_PTR\<rparr>\<rparr>, True) \<or>
     (\<exists>h1 a blk. out = (s\<lparr>heap := h1, aesd_device := (aesd_device s)\<lparr>write_buffer := Ptr a\<rparr>\<rparr>, True) \<and>
        grown_to (heap s) (aesd_device s) p n h1 a blk)"

lemma write_grow_first:
  assumes K: "kernel_ok K" and L: "locked_with (heap s) (aesd_device s) p data"
    and count: "unat count = length data" and n: "n \<le> length data" "data \<noteq> [] \<Longrightarrow> n \<noteq> 0"
    and w0: "write_buffer_size (aesd_device s) = 0"
  shows "grow_outcome s p data n (write_grow K s count (word_of_nat n))"
proof -
  let ?d = "aesd_device s" and ?h = "heap s"
  have pa: "pend_addr ?d = {}" using w0 by (simp add: pend_addr_def)
  obtain h' q where km: "kmalloc K ?h count = (h', q)" by force
  from kernel_okD(1) [OF K] km show ?thesis
  proof (cases rule: kmalloc_cases)
    case null
    then show ?thesis using km w0 by (simp add: grow_outcome_def write_grow_def)
  next
    case zero
    then show ?thesis using km w0 count by (simp add: grow_outcome_def write_grow_def)
  next
    case (block a blk)
    then have "data \<noteq> []" using count by (auto simp: unat_eq_0)
    with block have "grown_to ?h ?d p n h' a blk"
      using fresh_grown [OF L block(2) pa, of blk n] w0 n count by simp
    then show ?thesis using km w0 block(1) by (auto simp: grow_outcome_def write_grow_def)
  qed
qed

lemma write_grow_more:
  assumes K: "kernel_ok K" and L: "locked_with (heap s) (aesd_device s) p data"
    and n: "n \<le> length data" and w: "write_buffer_size (aesd_device s) \<noteq> 0"
  shows "grow_outcome s p data n (write_grow K s count (word_of_nat n))"
proof -
  let ?d = "aesd_device s" and ?h = "heap s"
  note KR = kernel_okD(2) [OF K]
  have safe: "dev_safe ?h ?d" and small: "n \<le> KMALLOC_LIMIT"
    using L n by (auto simp: locked_with_def)
  note sum = realloc_sum [OF safe w small]
  obtain h' q where kr: "krealloc K ?h (write_buffer ?d) (word_of_nat n + write_buffer_size ?d) = (h', q)"
    by force
  have wg: "write_grow K s count (word_of_nat n) =
      (s\<lparr>heap := h', aesd_device := ?d\<lparr>write_buffer := q\<rparr>\<rparr>, q \<noteq> NULL)"
    using kr w by (simp add: write_grow_def)
  show ?thesis
  proof (cases "write_buffer ?d = NULL")
    case True
    then have pa: "pend_addr ?d = {}" by (simp add: pend_addr_def tmp_addr_def)
    from KR kr [unfolded True] sum(2) show ?thesis
    proof (cases rule: krealloc_NULL_cases)
      case (block a blk)
      then have "grown_to ?h ?d p n h' a blk"
        using fresh_grown [OF L block(2) pa, of blk n] True sum(1) w by (simp add: unat_eq_0)
      then show ?thesis using wg block(1) by (auto simp: grow_outcome_def)
    qed (use wg in \<open>simp add: grow_outcome_def\<close>)
  next
    case False
    with safe w obtain a0 blk0 where b0: "write_buffer ?d = Ptr a0" "?h a0 = Some blk0"
        "unat (write_buffer_size ?d) \<le> length blk0"
      by (auto simp: dev_safe_def pending_safe_def elim: valid_blkE)
    from KR kr [unfolded b0(1)] sum(2) b0(2) show ?thesis
    proof (cases rule: krealloc_Ptr_cases)
      case (block a blk)
      then have "grown_to ?h ?d p n h' a blk"
        using realloc_grown [OF L w b0, of a blk n] sum(1) by simp
      then show ?thesis using wg block(1) by (auto simp: grow_outcome_def)
    qed (use wg in \<open>simp add: grow_outcome_def\<close>)
  qed
qed

lemmas write_grow_outcome = write_grow_first write_grow_more

text \<open>The device with \<open>n\<close> bytes appended in the block at \<open>a\<close>.\<close>

definition appended :: "aesd_dev \<Rightarrow> nat \<Rightarrow> nat \<Rightarrow> aesd_dev" where
  "appended d a n = d\<lparr>write_buffer := Ptr a,
     write_buffer_size := write_buffer_size d + word_of_nat n\<rparr>"

lemma grown_sizes:
  assumes "grown_to h d p n h1 a blk"
  shows "unat (write_buffer_size d + word_of_nat n) = unat (write_buffer_size d) + n"
    and "write_buffer_size d + word_of_nat n \<noteq> 0"
proof -
  have b: "unat (write_buffer_size d) + n \<le> KMALLOC_LIMIT" "unat (write_buffer_size d) + n \<noteq> 0"
    using assms by (auto simp: grown_to_def)
  then have n: "unat (word_of_nat n :: size_t) = n"
    by (intro unat_word_of_nat) (simp add: KMALLOC_LIMIT_def)
  show sum: "unat (write_buffer_size d + word_of_nat n) = unat (write_buffer_size d) + n"
    using b n by (subst unat_add_no_wrap) (simp_all add: KMALLOC_LIMIT_def)
  with b(2) show "write_buffer_size d + word_of_nat n \<noteq> 0" by (metis unat_0)
qed

lemma write_append_grown:
  assumes L: "locked_with (heap s) (aesd_device s) p data" and n: "n \<le> length data"
    and G: "grown_to (heap s) (aesd_device s) p n h1 a blk"
  defines "w \<equiv> unat (write_buffer_size (aesd_device s))"
  shows "write_append (s\<lparr>heap := h1, aesd_device := (aesd_device s)\<lparr>write_buffer := Ptr a\<rparr>\<rparr>) p (word_of_nat n) =
    Some (s\<lparr>heap := h1(a \<mapsto> take w blk @ take n data @ drop (w + n) blk),
            aesd_device := appended (aesd_device s) a n\<rparr>)"
proof -
  let ?d = "aesd_device s"
  have nl: "n \<le> KMALLOC_LIMIT" using L n by (simp add: locked_with_def)
  then have un: "unat (word_of_nat n :: size_t) = n"
    by (intro unat_word_of_nat) (simp add: KMALLOC_LIMIT_def)
  have "h1 x = heap s x" if "x \<in> tmp_addr p" for x
    using that G L by (auto simp: grown_to_def locked_with_def owned_split)
  then have "tmp_buf h1 p data" using L tmp_buf_cong [of p h1 "heap s" data] by (simp add: locked_with_def)
  then have "mem_read h1 p 0 n = Some (take n data)" using n by (rule tmp_buf_read)
  moreover have "mem_write h1 (Ptr a) w (take n data) =
      Some (h1(a \<mapsto> take w blk @ take n data @ drop (w + n) blk))"
    using G n by (subst mem_write_block [of h1 a blk]) (auto simp: grown_to_def w_def min_def)
  ultimately show ?thesis by (simp add: write_append_def un appended_def w_def)
qed

lemma appended_dev:
  assumes L: "locked_with h d p data" and n: "n \<le> length data" and G: "grown_to h d p n h1 a blk"
  defines "w \<equiv> unat (write_buffer_size d)"
  defines "h2 \<equiv> h1(a \<mapsto> take w blk @ take n data @ drop (w + n) blk)"
  shows "locked_with h2 (appended d a n) p data"
    and "dev_log h2 (appended d a n) = dev_log h d"
    and "dev_pending h2 (appended d a n) = take w blk @ take n data"
    and "owned (appended d a n) = insert a (entry_addrs (buffer d))"
    and "\<And>x. x \<noteq> a \<Longrightarrow> x \<notin> pend_addr d \<Longrightarrow> h2 x = h x"
    and "dom h2 = insert a (dom h - pend_addr d)"
proof -
  note S = grown_sizes [OF G]
  show frame: "\<And>x. x \<noteq> a \<Longrightarrow> x \<notin> pend_addr d \<Longrightarrow> h2 x = h x"
    using G by (auto simp: grown_to_def h2_def)
  show "dom h2 = insert a (dom h - pend_addr d)" using G by (auto simp: grown_to_def h2_def)
  have ok: "entries_ok h (buffer d)" and pn: "pend_addr d \<inter> entry_addrs (buffer d) = {}"
    using L by (auto simp: locked_with_def dev_safe_def pending_safe_def pend_addr_def tmp_addr_def entry_addrs_def)
  have ef: "h2 x = h x" if "x \<in> entry_addrs (buffer d)" for x
    using that G pn by (intro frame) (auto simp: grown_to_def)
  have len: "w + n \<le> length blk" "length blk \<le> KMALLOC_LIMIT" "a \<notin> entry_addrs (buffer d)" "a \<notin> tmp_addr p"
    using G by (auto simp: grown_to_def w_def)
  show own: "owned (appended d a n) = insert a (entry_addrs (buffer d))"
    using S(2) by (auto simp: owned_split appended_def pend_addr_def)
  have ok2: "entries_ok h2 (buffer d)"
    using ok ef entries_ok_cong [of "buffer d" h2 h] by (simp add: entry_addrs_def)
  have "valid_blk h2 (Ptr a) (w + n)" using len n by (auto simp: valid_blk_def h2_def)
  then have safe: "dev_safe h2 (appended d a n)"
    using ok2 S len by (auto simp: dev_safe_def pending_safe_def appended_def w_def entry_addrs_def)
  have "tmp_buf h2 p data"
    using L len(4) by (subst tmp_buf_cong [of p h2 h]) (auto simp: locked_with_def owned_split intro!: frame)
  moreover have "tmp_addr p \<inter> insert a (entry_addrs (buffer d)) = {}"
    using L len(4) by (auto simp: locked_with_def owned_split)
  ultimately show "locked_with h2 (appended d a n) p data"
    using safe L by (simp add: locked_with_def own)
  have "entry_bytes h2 e = entry_bytes h e" if "e \<in> set (cb_entries (buffer d))" for e
    unfolding entry_bytes_def using that ef
    by (intro bytes_at_cong) (metis (mono_tags, lifting) entry_addrs_def image_eqI mem_Collect_eq)
  then show "dev_log h2 (appended d a n) = dev_log h d" by (simp add: dev_log_def appended_def)
  show "dev_pending h2 (appended d a n) = take w blk @ take n data"
    using S n len by (simp add: dev_pending_def appended_def h2_def w_def min_def)
qed

section \<open>The effect of a write\<close>

text \<open>
  The effect of a successful call on heap and device. The bytes accumulated before the call are
  \<open>pre\<close>; they are the pending bytes of the device if its invariant holds.
\<close>

definition write_effect :: "heap \<Rightarrow> aesd_dev \<Rightarrow> ptr \<Rightarrow> char list \<Rightarrow> heap \<Rightarrow> aesd_dev \<Rightarrow> bool" where
  "write_effect h d p data h' d' \<longleftrightarrow>
     dev_inv h' d' \<and>
     (\<exists>pre. length pre = unat (write_buffer_size d) \<and> (dev_inv h d \<longrightarrow> pre = dev_pending h d) \<and>
        (dev_log h' d', dev_pending h' d') = spec_write (dev_log h d, pre) data) \<and>
     (dom h = owned d \<union> tmp_addr p \<longrightarrow> dom h' = owned d') \<and>
     buff_size d' = (if newline \<in> set data
       then buff_size d + (write_buffer_size d + word_of_nat (length (consumed data))) else buff_size d) \<and>
     (\<not> full (buffer d') \<longrightarrow> \<not> full (buffer d) \<and> out_offs (buffer d') = out_offs (buffer d))"

lemma write_effectI:
  assumes "dev_inv h' d'" and "length pre = unat (write_buffer_size d)"
    and "dev_inv h d \<Longrightarrow> pre = dev_pending h d"
    and "(dev_log h' d', dev_pending h' d') = spec_write (dev_log h d, pre) data"
    and "dom h = owned d \<union> tmp_addr p \<Longrightarrow> dom h' = owned d'"
    and "buff_size d' = (if newline \<in> set data
       then buff_size d + (write_buffer_size d + word_of_nat (length (consumed data))) else buff_size d)"
    and "\<not> full (buffer d') \<Longrightarrow> \<not> full (buffer d) \<and> out_offs (buffer d') = out_offs (buffer d)"
  shows "write_effect h d p data h' d'"
  using assms unfolding write_effect_def by blast

text \<open>Releasing the temporary buffer does not touch the device.\<close>

lemma free_tmp_dev:
  assumes "tmp_addr p \<inter> owned d = {}"
  shows "dev_safe (free_block h p) d = dev_safe h d" "dev_inv (free_block h p) d = dev_inv h d"
    "dev_log (free_block h p) d = dev_log h d" "dev_pending (free_block h p) d = dev_pending h d"
  using assms by (auto intro!: dev_congs free_block_other)

lemma write_unlock_eq:
  assumes "kernel_ok K" and "tmp_buf (heap s) p data" and "lock (aesd_device s)"
  shows "write_unlock K s p = Some (set_lock (s\<lparr>heap := free_block (heap s) p\<rparr>) False)"
  using assms kernel_okD(3,5) [OF assms(1)]
  by (simp add: write_unlock_def kfree_tmp mutex_unlockD)

lemma grown_pend: "locked_with h d p data \<Longrightarrow> pend_addr d \<inter> entry_addrs (buffer d) = {}"
  by (auto simp: locked_with_def dev_safe_def pending_safe_def pend_addr_def tmp_addr_def entry_addrs_def)

lemma effect_append:
  assumes L: "locked_with h d p data" and nl: "newline \<notin> set data"
    and G: "grown_to h d p (length (consumed data)) h1 a blk"
  defines "n \<equiv> length (consumed data)" and "w \<equiv> unat (write_buffer_size d)"
  defines "h2 \<equiv> h1(a \<mapsto> take w blk @ take n data @ drop (w + n) blk)"
  shows "write_effect h d p data (free_block h2 p) (appended d a n)"
proof -
  note A = appended_dev [OF L length_consumed_le G, folded n_def w_def, folded h2_def]
  have t: "tmp_addr p \<inter> owned (appended d a n) = {}" using A(1) by (simp add: locked_with_def)
  show ?thesis
  proof (rule write_effectI [where pre = "take w blk"])
    show "length (take w blk) = unat (write_buffer_size d)" using G by (simp add: grown_to_def w_def)
    show "take w blk = dev_pending h d" if "dev_inv h d"
      using that G by (auto simp: grown_to_def w_def dev_inv_def dev_pending_def)
    show "(dev_log (free_block h2 p) (appended d a n), dev_pending (free_block h2 p) (appended d a n)) =
        spec_write (dev_log h d, take w blk) data"
      using A(2,3) nl unfolding free_tmp_dev [OF t] by (simp add: spec_write_def consumed_all n_def)
    have "dev_inv h2 (appended d a n)"
      using A(1) by (simp add: dev_inv_def locked_with_def appended_def)
    then show "dev_inv (free_block h2 p) (appended d a n)" by (simp add: free_tmp_dev [OF t])
    show "dom (free_block h2 p) = owned (appended d a n)" if "dom h = owned d \<union> tmp_addr p"
      using that A(4,6) G grown_pend [OF L] L
      by (auto simp: dom_free_block owned_split locked_with_def grown_to_def)
  qed (simp_all add: nl appended_def)
qed

lemma effect_commit:
  assumes L: "locked_with h d p data" and nl: "newline \<in> set data"
    and G: "grown_to h d p (length (consumed data)) h1 a blk"
  defines "n \<equiv> length (consumed data)" and "w \<equiv> unat (write_buffer_size d)"
  defines "h2 \<equiv> h1(a \<mapsto> take w blk @ take n data @ drop (w + n) blk)"
  shows "write_effect h d p data (free_block (commit_heap h2 (buffer d)) p) (committed (appended d a n))"
proof -
  let ?d2 = "appended d a n"
  let ?h3 = "commit_heap h2 (buffer d)"
  note A = appended_dev [OF L length_consumed_le G, folded n_def w_def, folded h2_def]
  have b: "buffer ?d2 = buffer d" by (simp add: appended_def)
  have safe: "dev_safe h2 ?d2" using A(1) by (simp add: locked_with_def)
  have w2: "write_buffer_size ?d2 \<noteq> 0" using grown_sizes(2) [OF G] by (simp add: appended_def n_def)
  have p2: "write_buffer ?d2 \<noteq> NULL" by (simp add: appended_def)
  note C = commit_dev [OF safe w2 p2, unfolded b] and O = commit_owned [OF safe w2 p2, unfolded b]
  have t: "tmp_addr p \<inter> owned (committed ?d2) = {}"
    using O(1) A(1) by (auto simp: locked_with_def)
  show ?thesis
  proof (rule write_effectI [where pre = "take w blk"])
    show "length (take w blk) = unat (write_buffer_size d)" using G by (simp add: grown_to_def w_def)
    show "take w blk = dev_pending h d" if "dev_inv h d"
      using that G by (auto simp: grown_to_def w_def dev_inv_def dev_pending_def)
    show "dev_inv (free_block ?h3 p) (committed ?d2)" using C(1) by (simp add: free_tmp_dev [OF t])
    have "take n data = consumed data" using consumed_take [of data] by (simp add: n_def)
    then show "(dev_log (free_block ?h3 p) (committed ?d2), dev_pending (free_block ?h3 p) (committed ?d2)) =
        spec_write (dev_log h d, take w blk) data"
      using A(2,3) C(2,3) nl unfolding free_tmp_dev [OF t] by (simp add: spec_write_def)
    show "dom (free_block ?h3 p) = owned (committed ?d2)" if "dom h = owned d \<union> tmp_addr p"
    proof -
      have "dom h2 = owned ?d2 \<union> tmp_addr p"
        using that A(4,6) G grown_pend [OF L] L
        by (auto simp: owned_split locked_with_def grown_to_def)
      then show ?thesis using O(1,2) t A(1) by (auto simp: dom_free_block locked_with_def)
    qed
  qed (simp_all add: nl appended_def committed_def n_def cb_add_def)
qed

lemma effect_zero:
  assumes "locked_with h d p []" and "write_buffer_size d = 0"
  shows "write_effect h d p [] (free_block h p) (d\<lparr>write_buffer := ZERO_SIZE_PTR\<rparr>)"
proof (rule write_effectI [where pre = "[]"])
  let ?d = "d\<lparr>write_buffer := ZERO_SIZE_PTR\<rparr>"
  have o: "owned ?d = owned d" using assms(2) by (simp add: owned_def)
  have t: "tmp_addr p \<inter> owned ?d = {}" using assms(1) by (simp add: locked_with_def o)
  show "dev_inv (free_block h p) ?d"
    unfolding free_tmp_dev [OF t] using assms
    by (simp add: locked_with_def dev_inv_def dev_safe_def pending_safe_def)
  show "(dev_log (free_block h p) ?d, dev_pending (free_block h p) ?d) = spec_write (dev_log h d, []) []"
    unfolding free_tmp_dev [OF t] using assms(2)
    by (simp add: spec_write_def dev_log_def dev_pending_def)
  show "dom (free_block h p) = owned ?d" if "dom h = owned d \<union> tmp_addr p"
    using that t by (auto simp: dom_free_block o)
qed (use assms(2) in \<open>simp_all add: dev_pending_def\<close>)

lemma append_index_eq:
  assumes "unat count = length data"
  shows "(if newline \<in> set data then word_of_nat (length (takeWhile (\<lambda>c. c \<noteq> newline) data)) + 1 else count)
    = word_of_nat (length (consumed data))"
  using assms word_of_unat [of count] by (auto simp: length_consumed add.commute)

text \<open>
  What the message about a new command does to \<open>overread\<close>: nothing without a new command, and nothing
  if there is a zero byte in it.
\<close>

definition message_effect :: "heap \<Rightarrow> aesd_dev \<Rightarrow> char list \<Rightarrow> bool \<Rightarrow> bool \<Rightarrow> bool" where
  "message_effect h d data over over' \<longleftrightarrow>
     (over \<longrightarrow> over') \<and>
     (over' \<longrightarrow> over \<or> newline \<in> set data \<and> CHR 0x00 \<notin> set (dev_pending h d @ consumed data))"

lemma message_effect_refl [simp]: "message_effect h d data over over"
  by (simp add: message_effect_def)

lemma grown_message:
  assumes "grown_to h d p n h1 a blk" and "n = length (consumed data)" and "newline \<in> set data"
  defines "w \<equiv> unat (write_buffer_size d)"
  shows "message_effect h d data over
    (over \<or> CHR 0x00 \<notin> set (take w blk @ take n data @ drop (w + n) blk))"
proof -
  have "set (dev_pending h d) \<subseteq> set (take w blk)"
    using assms(1) by (cases "write_buffer d = NULL") (auto simp: grown_to_def w_def dev_pending_def)
  moreover have "take n data = consumed data" using consumed_take [of data] assms(2) by simp
  ultimately show ?thesis using assms(3) by (auto simp: message_effect_def)
qed

lemma finish_grown:
  assumes K: "kernel_ok K" and L: "locked_with (heap s) (aesd_device s) p data"
    and lk: "lock (aesd_device s)"
    and G: "grown_to (heap s) (aesd_device s) p (length (consumed data)) h1 a blk"
  defines "s1 \<equiv> s\<lparr>heap := h1, aesd_device := (aesd_device s)\<lparr>write_buffer := Ptr a\<rparr>\<rparr>"
    and "n \<equiv> length (consumed data)"
  shows "\<exists>h' d' over'. do { s2 \<leftarrow> write_append s1 p (word_of_nat n);
                  s3 \<leftarrow> (if newline \<in> set data then write_commit K s2 else Some s2);
                  s4 \<leftarrow> write_unlock K s3 p; Some (s4, x, y) } =
      Some (s\<lparr>heap := h', aesd_device := d'\<lparr>lock := False\<rparr>, overread := over'\<rparr>, x, y) \<and>
    write_effect (heap s) (aesd_device s) p data h' d' \<and>
    message_effect (heap s) (aesd_device s) data (overread s) over'"
proof -
  let ?d = "aesd_device s" and ?w = "unat (write_buffer_size (aesd_device s))"
  define h2 where "h2 = h1(a \<mapsto> take ?w blk @ take n data @ drop (?w + n) blk)"
  define s2 where "s2 = s\<lparr>heap := h2, aesd_device := appended ?d a n\<rparr>"
  have app: "write_append s1 p (word_of_nat n) = Some s2"
    using write_append_grown [OF L length_consumed_le G] by (simp add: s1_def s2_def h2_def n_def)
  have L2: "locked_with h2 (appended ?d a n) p data"
    using appended_dev(1) [OF L length_consumed_le G] by (simp add: h2_def n_def)
  have lk2: "lock (appended ?d a n)" "lock (committed (appended ?d a n))"
    using lk by (simp_all add: appended_def committed_def)
  have b: "buffer (appended ?d a n) = buffer ?d" by (simp add: appended_def)
  show ?thesis
  proof (cases "newline \<in> set data")
    case True
    let ?h3 = "commit_heap h2 (buffer ?d)"
    have ok2: "entries_ok h2 (buffer ?d)" using L2 by (simp add: locked_with_def dev_safe_def b)
    define over' where "over' \<longleftrightarrow> overread s \<or> CHR 0x00 \<notin> set (take ?w blk @ take n data @ drop (?w + n) blk)"
    have com: "write_commit K s2 =
        Some (s\<lparr>heap := ?h3, aesd_device := committed (appended ?d a n), overread := over'\<rparr>)"
      using write_commit_eq [OF kernel_okD(3) [OF K], of s2] ok2
      by (simp add: s2_def b over'_def c_string_None appended_def h2_def)
    have msg: "message_effect (heap s) ?d data (overread s) over'"
      unfolding over'_def using grown_message [OF G refl True] by (simp add: n_def)
    have "?h3 x = h2 x" if "x \<in> tmp_addr p" for x
      using that L2 commit_owned(3) [of h2 "appended ?d a n" x] grown_sizes(2) [OF G]
      by (auto simp: locked_with_def b n_def) (auto simp: appended_def)
    then have "tmp_buf ?h3 p data"
      using L2 tmp_buf_cong [of p ?h3 h2 data] by (simp add: locked_with_def)
    then have "do { s2 \<leftarrow> write_append s1 p (word_of_nat n);
                  s3 \<leftarrow> (if newline \<in> set data then write_commit K s2 else Some s2);
                  s4 \<leftarrow> write_unlock K s3 p; Some (s4, x, y) } =
        Some (s\<lparr>heap := free_block ?h3 p, aesd_device := (committed (appended ?d a n))\<lparr>lock := False\<rparr>,
                overread := over'\<rparr>, x, y)"
      using True app com lk2
        write_unlock_eq [OF K, of "s\<lparr>heap := ?h3, aesd_device := committed (appended ?d a n), overread := over'\<rparr>" p data]
      by simp
    with msg show ?thesis using effect_commit [OF L True G, folded n_def, folded h2_def] by blast
  next
    case False
    with app L2 lk2 have "do { s2 \<leftarrow> write_append s1 p (word_of_nat n);
                  s3 \<leftarrow> (if newline \<in> set data then write_commit K s2 else Some s2);
                  s4 \<leftarrow> write_unlock K s3 p; Some (s4, x, y) } =
        Some (s\<lparr>heap := free_block h2 p, aesd_device := (appended ?d a n)\<lparr>lock := False\<rparr>,
                overread := overread s\<rparr>, x, y)"
      using write_unlock_eq [OF K, of s2 p data] by (simp add: s2_def locked_with_def)
    then show ?thesis using effect_append [OF L False G, folded n_def, folded h2_def] message_effect_refl by blast
  qed
qed

lemma write_locked_cases:
  assumes K: "kernel_ok K" and L: "locked_with (heap s) (aesd_device s) p data"
    and count: "unat count = length data" and lk: "lock (aesd_device s)"
  defines "n \<equiv> length (consumed data)"
    and "over \<equiv> overread s \<or> CHR 0x00 \<notin> set (ptr_bytes K p)"
  obtains
    (nomem) "write_locked K s p count pos =
        Some (s\<lparr>heap := free_block (heap s) p,
                aesd_device := (aesd_device s)\<lparr>write_buffer := NULL, lock := False\<rparr>,
                overread := over\<rparr>, pos, - ENOMEM)"
      "grow_refused K (heap s) (aesd_device s) count n"
  | (success) h' d' over' where "write_locked K s p count pos =
        Some (s\<lparr>heap := h', aesd_device := d'\<lparr>lock := False\<rparr>, overread := over'\<rparr>,
              pos + word_of_nat n, word_of_nat n)"
      "write_effect (heap s) (aesd_device s) p data h' d'"
      "message_effect (heap s) (aesd_device s) data over over'"
proof -
  let ?d = "aesd_device s" and ?h = "heap s"
  define s0 where "s0 = pdebug (ptr_bytes K p) s"
  have s0: "s0 = s\<lparr>overread := over\<rparr>" "heap s0 = ?h" "aesd_device s0 = ?d" "overread s0 = over"
    by (simp_all add: s0_def pdebug_def over_def c_string_None)
  have tmp: "tmp_buf ?h p data" using L by (simp add: locked_with_def)
  note loop = newline_loop_tmp [OF tmp, folded count]
  have n: "n \<le> length data" "data \<noteq> [] \<Longrightarrow> n \<noteq> 0"
    using length_consumed_le [of data] by (auto simp: n_def length_consumed split: if_splits)
  obtain s1 grown where g: "write_grow K s0 count (word_of_nat n) = (s1, grown)" by force
  have step: "write_locked K s p count pos =
     (if \<not> grown then do { s2 \<leftarrow> write_unlock K s1 p; Some (s2, pos, - ENOMEM) }
      else do { s2 \<leftarrow> write_append s1 p (word_of_nat n);
                s3 \<leftarrow> (if newline \<in> set data then write_commit K s2 else Some s2);
                s4 \<leftarrow> write_unlock K s3 p; Some (s4, pos + word_of_nat n, word_of_nat n) })"
    using loop append_index_eq [OF count] g
    by (cases "newline \<in> set data") (simp_all add: write_locked_def n_def Let_def s0_def)
  have L0: "locked_with (heap s0) (aesd_device s0) p data" and lk0: "lock (aesd_device s0)"
    using L lk by (simp_all add: s0)
  have "grow_outcome s0 p data n (s1, grown)"
    using write_grow_outcome [OF K L0] count n g by (cases "write_buffer_size ?d = 0") (metis s0(3))+
  then consider (fail) "s1 = s0\<lparr>aesd_device := ?d\<lparr>write_buffer := NULL\<rparr>\<rparr>" "\<not> grown"
    | (zero) "data = []" "write_buffer_size ?d = 0" "s1 = s0\<lparr>aesd_device := ?d\<lparr>write_buffer := ZERO_SIZE_PTR\<rparr>\<rparr>" grown
    | (grown) h1 a blk where "s1 = s0\<lparr>heap := h1, aesd_device := ?d\<lparr>write_buffer := Ptr a\<rparr>\<rparr>" grown
        "grown_to ?h ?d p n h1 a blk"
    unfolding grow_outcome_def s0(2,3) by auto
  then show thesis
  proof cases
    case fail
    then show thesis
      using write_unlock_eq [OF K, of s1 p data] tmp lk step write_grow_refused [of K s0 count n s1] g s0
      by (intro nomem) simp_all
  next
    case zero
    then have "write_append s1 p (word_of_nat n) = Some s1" by (simp add: write_append_def n_def)
    moreover have "write_effect ?h ?d p data (free_block ?h p) (?d\<lparr>write_buffer := ZERO_SIZE_PTR\<rparr>)"
      using effect_zero L zero by simp
    ultimately show thesis
      using zero write_unlock_eq [OF K, of s1 p data] tmp lk step s0
      by (intro success [where over' = over]) simp_all
  next
    case (grown h1 a blk)
    have "grown_to (heap s0) (aesd_device s0) p (length (consumed data)) h1 a blk"
      using grown(3) by (simp add: s0 n_def)
    from finish_grown [OF K L0 lk0 this, folded n_def,
        where x = "pos + word_of_nat n" and y = "word_of_nat n", unfolded s0(2-4)]
    obtain h' d' over' where "write_locked K s p count pos =
        Some (s0\<lparr>heap := h', aesd_device := d'\<lparr>lock := False\<rparr>, overread := over'\<rparr>, pos + word_of_nat n, word_of_nat n)"
      and "write_effect ?h ?d p data h' d'" and "message_effect ?h ?d data over over'"
      using step grown(1,2) by auto
    then show thesis by (intro success) (simp_all add: s0(1))
  qed
qed

text \<open>
  The temporary buffer after the copy from user space: a fresh block holding the user data, or
  no block if there is no data.
\<close>

lemma tmp_ready:
  assumes K: "kernel_ok K" and safe: "dev_safe h d"
    and km: "kmalloc K h count = (h1, p)" and p: "p \<noteq> NULL" and len: "length bytes = unat count"
  obtains h2 where "mem_write h1 p 0 bytes = Some h2" "locked_with h2 d p bytes"
    "free_block h2 p = h" "dom h2 = dom h \<union> tmp_addr p" "\<And>a. a \<in> owned d \<Longrightarrow> h2 a = h a"
  using kernel_okD(1) [OF K] km
proof (cases rule: kmalloc_cases)
  case null
  with p show thesis by simp
next
  case zero
  then have "bytes = []" using len by simp
  with zero safe show thesis
    by (intro that [of h]) (auto simp: locked_with_def tmp_buf_def)
next
  case (block a blk)
  let ?h2 = "h(a \<mapsto> bytes)"
  have "unat count \<noteq> 0" using block(3) by (simp add: unat_eq_0)
  then have "mem_write h1 p 0 bytes = Some ?h2"
    using block len by (subst mem_write_block [of h1 a blk, folded block(1)]) auto
  moreover have own: "a \<notin> owned d" using owned_alloc [OF safe] block(2) by fastforce
  then have "dev_safe ?h2 d" using safe by (subst dev_safe_cong [of d ?h2 h]) auto
  then have "locked_with ?h2 d p bytes"
    using own block(1,5) len by (auto simp: locked_with_def tmp_buf_def)
  ultimately show thesis
    using own block(1,2) by (intro that [of ?h2]) (auto simp: fun_upd_idem)
qed

lemma effect_transfer:
  assumes "write_effect h2 d p data h' d'" and "dom h2 = dom h \<union> tmp_addr p"
    and same: "\<And>a. a \<in> owned d \<Longrightarrow> h2 a = h a"
  shows "dev_inv h' d'" and "dev_inv h d \<Longrightarrow>
      (dev_log h' d', dev_pending h' d') = spec_write (dev_log h d, dev_pending h d) data"
    and "no_leak h d \<Longrightarrow> no_leak h' d'"
  using assms(1,2) dev_inv_cong [of d h2 h] dev_log_cong [of d h2 h] dev_pending_cong [of d h2 h] same
  by (auto simp: write_effect_def no_leak_def)

lemma write_effect_lock [simp]:
  "write_effect h (d\<lparr>lock := l\<rparr>) p data h' d' = write_effect h d p data h' d'"
  by (simp add: write_effect_def)

lemma locked_with_lock [simp]: "locked_with h (d\<lparr>lock := l\<rparr>) p data = locked_with h d p data"
  by (simp add: locked_with_def)

text \<open>The call once the temporary buffer \<open>p\<close> holds the \<open>bytes\<close> that were copied.\<close>

lemma aesd_write_copied:
  assumes K: "kernel_ok K" and f: "private_data f = Aesd_device_ptr"
    and "kmalloc K (heap s) count = (h1, p)" and "p \<noteq> NULL"
    and "copy_from_user K (umem s) ubuf count = (bytes, left)"
    and "mem_write h1 p 0 bytes = Some h2" and L: "locked_with h2 (aesd_device s) p bytes"
    and "mutex_lock_interruptible K (lock (aesd_device s)) = (l, r)"
  shows "aesd_write K s (Some f) (Some ubuf) count pos =
    (if left \<noteq> 0 then Some (s\<lparr>heap := free_block h2 p\<rparr>, pos, - EFAULT)
     else if r \<noteq> 0 then Some (s\<lparr>heap := h2\<rparr>, pos, - ERESTARTSYS)
     else write_locked K (set_lock (s\<lparr>heap := h2\<rparr>) True) p count pos)"
proof -
  have "kfree K h2 p = Some (free_block h2 p)"
    using kernel_okD(3) [OF K] L by (auto simp: locked_with_def intro: kfree_tmp)
  then show ?thesis
    using assms(3-6,8) f mutex_lockD [OF kernel_okD(5) [OF K] assms(8)] by (simp add: aesd_write_def)
qed

lemma aesd_write_cases:
  fixes count :: size_t and ubuf :: nat and pos :: loff_t
  assumes K: "kernel_ok K" and safe: "dev_safe (heap s) (aesd_device s)"
    and f: "private_data f = Aesd_device_ptr" and lk: "\<not> lock (aesd_device s)"
  defines "data \<equiv> umem_read (umem s) ubuf (unat count)"
  obtains
    (nomem_tmp) "aesd_write K s (Some f) (Some ubuf) count pos = Some (s, pos, - ENOMEM)"
      "snd (kmalloc K (heap s) count) = NULL"
  | (fault) "aesd_write K s (Some f) (Some ubuf) count pos = Some (s, pos, - EFAULT)"
      "snd (copy_from_user K (umem s) ubuf count) \<noteq> 0"
  | (intr) p h2 where "aesd_write K s (Some f) (Some ubuf) count pos =
        Some (s\<lparr>heap := h2\<rparr>, pos, - ERESTARTSYS)"
      "dom h2 = dom (heap s) \<union> tmp_addr p" "\<And>a. a \<in> owned (aesd_device s) \<Longrightarrow> h2 a = heap s a"
      "tmp_addr p \<inter> owned (aesd_device s) = {}" "tmp_buf h2 p data"
      "snd (mutex_lock_interruptible K False) \<noteq> 0" "p = snd (kmalloc K (heap s) count)"
  | (nomem_grow) h1 p h2 where "aesd_write K s (Some f) (Some ubuf) count pos =
        Some (s\<lparr>aesd_device := (aesd_device s)\<lparr>write_buffer := NULL\<rparr>,
                overread := overread s \<or> CHR 0x00 \<notin> set (ptr_bytes K p)\<rparr>, pos, - ENOMEM)"
      "kmalloc K (heap s) count = (h1, p)" "mem_write h1 p 0 data = Some h2"
      "dom h2 = dom (heap s) \<union> tmp_addr p" "\<And>a. a \<in> owned (aesd_device s) \<Longrightarrow> h2 a = heap s a"
      "grow_refused K h2 (aesd_device s) count (length (consumed data))"
  | (success) p h2 h' d' over' where "aesd_write K s (Some f) (Some ubuf) count pos =
        Some (s\<lparr>heap := h', aesd_device := d'\<lparr>lock := False\<rparr>, overread := over'\<rparr>,
              pos + word_of_nat (length (consumed data)), word_of_nat (length (consumed data)))"
      "write_effect h2 (aesd_device s) p data h' d'"
      "dom h2 = dom (heap s) \<union> tmp_addr p" "\<And>a. a \<in> owned (aesd_device s) \<Longrightarrow> h2 a = heap s a"
      "length data \<le> KMALLOC_LIMIT" "p = snd (kmalloc K (heap s) count)"
      "message_effect (heap s) (aesd_device s) data (overread s \<or> CHR 0x00 \<notin> set (ptr_bytes K p)) over'"
proof -
  let ?d = "aesd_device s"
  obtain h1 p where km: "kmalloc K (heap s) count = (h1, p)" by force
  obtain bytes left where cp: "copy_from_user K (umem s) ubuf count = (bytes, left)" by force
  note C = copy_from_userD [OF kernel_okD(4) [OF K] cp]
  obtain l r where mx: "mutex_lock_interruptible K (lock ?d) = (l, r)" by force
  show thesis
  proof (cases "p = NULL")
    case True
    then have "h1 = heap s" using kernel_okD(1) [OF K] km by (auto elim: kmalloc_cases)
    then show thesis using True km by (intro nomem_tmp) (simp_all add: aesd_write_def)
  next
    case False
    from tmp_ready [OF K safe km False C(1)] obtain h2 where
      h2: "mem_write h1 p 0 bytes = Some h2" "locked_with h2 ?d p bytes" "free_block h2 p = heap s"
        "dom h2 = dom (heap s) \<union> tmp_addr p" "\<And>a. a \<in> owned ?d \<Longrightarrow> h2 a = heap s a" by metis
    note eq = aesd_write_copied [OF K f km False cp h2(1,2) mx, of pos]
    consider "left \<noteq> 0" | "left = 0" "r \<noteq> 0" | "left = 0" "r = 0" by blast
    then show thesis
    proof cases
      case 1
      with eq h2(3) cp show thesis by (intro fault) simp_all
    next
      case 2
      with eq h2 C(2) mx lk km show thesis by (intro intr [of h2 p]) (auto simp: data_def locked_with_def)
    next
      case 3
      let ?s = "set_lock (s\<lparr>heap := h2\<rparr>) True"
      have L: "locked_with (heap ?s) (aesd_device ?s) p data"
        and cnt: "unat count = length data" and lk': "lock (aesd_device ?s)"
        using h2(2) C(1,2) 3 by (simp_all add: data_def)
      from K L cnt lk' show thesis
      proof (cases rule: write_locked_cases [where pos = pos])
        case nomem
        then show thesis using eq 3 lk h2 km C(2) by (intro nomem_grow [of p h1 h2]) (simp_all add: data_def)
      next
        case locked: (success h' d' over')
        have "dev_pending h2 ?d = dev_pending (heap s) ?d" using h2(5) by (rule dev_pending_cong)
        then have "message_effect (heap s) ?d data (overread s \<or> CHR 0x00 \<notin> set (ptr_bytes K p)) over'"
          using locked(3) by (simp add: message_effect_def)
        then show thesis using eq 3 h2(4,5) L locked km
          by (intro success [where h' = h' and d' = d' and ?h2.0 = h2 and p = p and over' = over']) (simp_all add: locked_with_def)
      qed
    qed
  qed
qed

end
