(* ===== verification/Aesd_Read_Seek.thy ===== *)
theory Aesd_Read_Seek
  imports Aesd_Write
begin

text \<open>
  The operations of the driver that leave the stored commands alone (\<open>main.c\<close>): \<open>aesd_read\<close>,
  \<open>aesd_llseek\<close>, \<open>aesd_adjust_file_offset\<close> and \<open>aesd_ioctl\<close>.
\<close>

section \<open>Reading\<close>

definition read_entry ::
  "kernel \<Rightarrow> kstate \<Rightarrow> nat \<Rightarrow> size_t \<Rightarrow> loff_t \<Rightarrow> nat \<times> size_t \<Rightarrow>
   (kstate \<times> loff_t \<times> ssize_t) option" where
  "read_entry K s ubuf count pos found =
     (let (i, byte_offset) = found; b = buffer (aesd_device s) in
      if i < length (entry b) then
        let new_entry = entry b ! i;
            bytes_remaining = esize new_entry - byte_offset;
            bytes_to_copy = min bytes_remaining count
        in do {
          bytes \<leftarrow> mem_read (heap s) (buffptr new_entry) (unat byte_offset) (unat bytes_to_copy);
          let (m, left) = copy_to_user K (umem s) ubuf bytes;
          if left \<noteq> 0 then Some (s\<lparr>umem := m\<rparr>, pos, - EFAULT)
          else Some (s\<lparr>umem := m\<rparr>, pos + bytes_to_copy, bytes_to_copy)
        }
      else None)"

definition aesd_read ::
  "kernel \<Rightarrow> kstate \<Rightarrow> file_t option \<Rightarrow> nat option \<Rightarrow> size_t \<Rightarrow> loff_t \<Rightarrow>
   (kstate \<times> loff_t \<times> ssize_t) option" where
  "aesd_read K s filp buf count pos =
     (case (filp, buf) of
        (Some f, Some ubuf) \<Rightarrow>
          (case private_data f of
             Dev_null \<Rightarrow> None
           | Aesd_device_ptr \<Rightarrow>
               let (l, r) = mutex_lock_interruptible K (lock (aesd_device s)) in
               if r \<noteq> 0 then Some (set_lock s l, pos, - ERESTARTSYS)
               else do {
                 found \<leftarrow> aesd_circular_buffer_find_entry_offset_for_fpos (buffer (aesd_device s)) pos;
                 (s1, pos1, retval) \<leftarrow>
                   (case found of
                      None \<Rightarrow> Some (set_lock s l, pos, 0)
                    | Some e \<Rightarrow> read_entry K (set_lock s l) ubuf count pos e);
                 Some (set_lock s1 (mutex_unlock K (lock (aesd_device s1))), pos1, retval)
               })
      | _ \<Rightarrow> Some (s, pos, - EINVAL))"

text \<open>
  The number of bytes a read at position \<open>p\<close> returns: the rest of the command the position
  falls into, at most \<open>count\<close>; nothing behind the last command.
\<close>

definition read_len :: "char list list \<Rightarrow> nat \<Rightarrow> nat \<Rightarrow> nat" where
  "read_len log p count =
     (case locate (map length log) p of
        None \<Rightarrow> 0
      | Some (k, r) \<Rightarrow> min (length (log ! k) - r) count)"

lemma read_len_zero: "read_len log p count = 0 \<longleftrightarrow> length (concat log) \<le> p \<or> count = 0"
proof (cases "locate (map length log) p")
  case None
  then show ?thesis
    using locate_None_iff [of "map length log" p] by (simp add: read_len_def length_concat)
next
  case (Some kr)
  then obtain k r where "locate (map length log) p = Some (k, r)" by (cases kr) auto
  with locate_concat [of log p k r] show ?thesis by (auto simp: read_len_def)
qed

lemma read_len_le: "read_len log p count \<le> length (concat log) - p" "read_len log p count \<le> count"
proof -
  show "read_len log p count \<le> length (concat log) - p"
  proof (cases "locate (map length log) p")
    case (Some kr)
    then obtain k r where kr: "locate (map length log) p = Some (k, r)" by (cases kr) auto
    from locate_SomeD [OF kr] have k: "k < length log" and r: "r < length (log ! k)"
      and p: "p = sum_list (map length (take k log)) + r" by (auto simp: take_map)
    have "sum_list (map length (take k log)) + (length (log ! k) - 1) < length (concat log)"
      using nth_concat_locate(2) [OF k, of "length (log ! k) - 1"] r by auto
    with kr p r show ?thesis by (simp add: read_len_def)
  qed (simp add: read_len_def)
  show "read_len log p count \<le> count" by (auto simp: read_len_def split: option.splits)
qed

text \<open>The bytes of the entry are the bytes of the concatenation at the position.\<close>

lemma locate_slice:
  assumes "locate (map length xss) p = Some (k, r)" and "r + n \<le> length (xss ! k)"
  shows "take n (drop r (xss ! k)) = take n (drop p (concat xss))"
proof -
  from locate_SomeD [OF assms(1)] have k: "k < length xss" and r: "r < length (xss ! k)"
    and p: "p = sum_list (map length (take k xss)) + r" by (auto simp: take_map)
  have "concat xss = concat (take k xss) @ xss ! k @ concat (drop (Suc k) xss)"
    using k by (metis concat.simps(2) concat_append id_take_nth_drop)
  moreover have "length (concat (take k xss)) = sum_list (map length (take k xss))"
    by (simp add: length_concat)
  ultimately show ?thesis using p r assms(2) by (simp add: drop_append take_append)
qed

section \<open>Seeking\<close>

definition aesd_llseek ::
  "kernel \<Rightarrow> kstate \<Rightarrow> file_t \<Rightarrow> loff_t \<Rightarrow> u32 \<Rightarrow> (kstate \<times> file_t \<times> loff_t) option" where
  "aesd_llseek K s f offset whence =
     (let (l, r) = mutex_lock_interruptible K (lock (aesd_device s)) in
      if r \<noteq> 0 then Some (set_lock s l, f, - ERESTARTSYS)
      else
        case private_data f of
          Dev_null \<Rightarrow> None
        | Aesd_device_ptr \<Rightarrow>
            let (pos, retval) = fixed_size_llseek K (f_pos f) offset whence (buff_size (aesd_device s))
            in Some (set_lock s (mutex_unlock K l), f\<lparr>f_pos := pos\<rparr>, retval))"

text \<open>The loop over the entries before the chosen one, in array order.\<close>

function adjust_loop :: "aesd_circular_buffer \<Rightarrow> nat \<Rightarrow> nat \<Rightarrow> loff_t \<Rightarrow> loff_t option" where
  "adjust_loop b wcmd i updated_fpos_offset =
     (if i < wcmd then
        if i < length (entry b)
        then adjust_loop b wcmd (i + 1) (updated_fpos_offset + esize (entry b ! i))
        else None
      else Some updated_fpos_offset)"
  by pat_completeness auto
termination
  by (relation "measure (\<lambda>(_, n, i, _). n - i)") auto

declare adjust_loop.simps [simp del]

definition aesd_adjust_file_offset ::
  "kernel \<Rightarrow> kstate \<Rightarrow> file_t \<Rightarrow> u32 \<Rightarrow> u32 \<Rightarrow> (kstate \<times> file_t \<times> ssize_t) option" where
  "aesd_adjust_file_offset K s f wcmd wcmd_offset =
     (let (l, r) = mutex_lock_interruptible K (lock (aesd_device s)) in
      if r \<noteq> 0 then Some (set_lock s l, f, - ERESTARTSYS)
      else if unat wcmd \<ge> AESDCHAR_MAX_WRITE_OPERATIONS_SUPPORTED
      then Some (set_lock s (mutex_unlock K l), f, - EINVAL)
      else
        case private_data f of
          Dev_null \<Rightarrow> None
        | Aesd_device_ptr \<Rightarrow>
            let b = buffer (aesd_device s) in
            if unat wcmd < length (entry b) then
              if ucast wcmd_offset \<ge> esize (entry b ! unat wcmd)
              then Some (set_lock s (mutex_unlock K l), f, - EINVAL)
              else do {
                updated \<leftarrow> adjust_loop b (unat wcmd) 0 0;
                Some (set_lock s (mutex_unlock K l), f\<lparr>f_pos := updated + ucast wcmd_offset\<rparr>, 0)
              }
            else None)"

section \<open>The ioctl entry\<close>

definition AESD_IOC_MAGIC :: u32 where
  [simp]: "AESD_IOC_MAGIC = 0x16"

definition AESDCHAR_IOC_MAXNR :: u32 where
  [simp]: "AESDCHAR_IOC_MAXNR = 1"

definition AESDCHAR_IOCSEEKTO :: "kernel \<Rightarrow> u32" where
  "AESDCHAR_IOCSEEKTO K = IOWR K AESD_IOC_MAGIC 1 8"

definition aesd_ioctl ::
  "kernel \<Rightarrow> kstate \<Rightarrow> file_t \<Rightarrow> u32 \<Rightarrow> nat \<Rightarrow> (kstate \<times> file_t \<times> ssize_t) option" where
  "aesd_ioctl K s f cmd arg =
     (if IOC_TYPE K cmd \<noteq> AESD_IOC_MAGIC \<or> IOC_NR K cmd > AESDCHAR_IOC_MAXNR
      then Some (s, f, - ENOTTY)
      else if cmd = AESDCHAR_IOCSEEKTO K then
        let (bytes, left) = copy_from_user K (umem s) arg 8 in
        if left \<noteq> 0 then Some (s, f, - EFAULT)
        else let seekto = seekto_of_bytes K bytes in
             aesd_adjust_file_offset K s f
               (write_cmd seekto) (write_cmd_offset seekto)
      else Some (s, f, - ENOTTY))"

section \<open>What a read returns\<close>

lemma log_nth:
  assumes "entries_ok h b" and "k < cb_count b"
  shows "map (entry_bytes h) (cb_entries b) ! k = entry_bytes h (entry b ! cb_slot b k)"
    and "length (entry_bytes h (entry b ! cb_slot b k)) = unat (esize (entry b ! cb_slot b k))"
    and "valid_blk h (buffptr (entry b ! cb_slot b k)) (unat (esize (entry b ! cb_slot b k)))"
proof -
  have e: "entry b ! cb_slot b k = cb_entries b ! k" using assms(2) by (simp add: nth_cb_entries)
  have "cb_entries b ! k \<in> set (cb_entries b)" using assms(2) by simp
  then show "map (entry_bytes h) (cb_entries b) ! k = entry_bytes h (entry b ! cb_slot b k)"
    "length (entry_bytes h (entry b ! cb_slot b k)) = unat (esize (entry b ! cb_slot b k))"
    "valid_blk h (buffptr (entry b ! cb_slot b k)) (unat (esize (entry b ! cb_slot b k)))"
    using assms length_entry_bytes by (auto simp: e entries_ok_def)
qed

lemma unat_min: "unat (min (x :: size_t) y) = min (unat x) (unat y)"
  by (simp add: min_def word_le_nat_alt)

lemma read_entry_eq:
  fixes count :: size_t
  assumes ok: "entries_ok (heap s) (buffer (aesd_device s))"
    and l: "locate (map length (dev_log (heap s) (aesd_device s))) (unat pos) = Some (k, r)"
  defines "log \<equiv> dev_log (heap s) (aesd_device s)"
  defines "n \<equiv> read_len log (unat pos) (unat count)"
  shows "read_entry K s ubuf count pos (cb_slot (buffer (aesd_device s)) k, word_of_nat r) =
    (let (m, left) = copy_to_user K (umem s) ubuf (take n (drop (unat pos) (concat log))) in
     if left \<noteq> 0 then Some (s\<lparr>umem := m\<rparr>, pos, - EFAULT)
     else Some (s\<lparr>umem := m\<rparr>, pos + word_of_nat n, word_of_nat n))"
proof -
  let ?b = "buffer (aesd_device s)" and ?h = "heap s"
  let ?e = "entry ?b ! cb_slot ?b k"
  have L: "log = map (entry_bytes ?h) (cb_entries ?b)" by (simp add: log_def dev_log_def)
  note D = locate_SomeD [OF l, folded log_def]
  have k: "k < cb_count ?b" and kl: "k < length log" using D by (auto simp: L)
  note E = log_nth [OF ok k]
  have lk: "log ! k = entry_bytes ?h ?e" using E(1) by (simp add: L)
  have r: "r < unat (esize ?e)" using D E(2) lk kl by auto
  have ur: "unat (word_of_nat r :: size_t) = r"
    using r unat_64_less [of "esize ?e"] by (intro unat_word_of_nat) simp
  have rem: "unat (esize ?e - word_of_nat r) = unat (esize ?e) - r"
    using r ur by (simp add: unat_sub_no_wrap)
  have nn: "n = min (unat (esize ?e) - r) (unat count)"
    using l E(2) lk by (simp add: n_def read_len_def log_def)
  have un: "unat (min (esize ?e - word_of_nat r) count) = n" by (simp add: unat_min rem nn)
  then have wn: "min (esize ?e - word_of_nat r) count = word_of_nat n" using word_of_unat by metis
  have "mem_read ?h (buffptr ?e) r n = Some (take n (drop r (log ! k)))"
    unfolding lk entry_bytes_def using E(3) r nn by (intro mem_read_valid) auto
  also have "take n (drop r (log ! k)) = take n (drop (unat pos) (concat log))"
    using l r nn E(2) lk by (intro locate_slice) (auto simp: log_def)
  finally have rd: "mem_read ?h (buffptr ?e) r n = Some (take n (drop (unat pos) (concat log)))" .
  have "cb_slot ?b k < length (entry ?b)" using ok cb_wfD(1) [of ?b] by (auto simp: entries_ok_def)
  with rd un wn ur show ?thesis by (simp add: read_entry_def Let_def case_prod_beta)
qed

lemma find_entry_log:
  assumes "entries_ok h b"
  shows "aesd_circular_buffer_find_entry_offset_for_fpos b pos =
    Some (map_option (\<lambda>(k, r). (cb_slot b k, word_of_nat r))
      (locate (map length (map (entry_bytes h) (cb_entries b))) (unat pos)))"
proof -
  have "map length (map (entry_bytes h) (cb_entries b)) = map (\<lambda>e. unat (esize e)) (cb_entries b)"
    using length_entry_bytes [OF assms] by simp
  moreover have "cb_wf b" using assms by (simp add: entries_ok_def)
  ultimately show ?thesis using cb.find_locate [of b pos] cb_total_less [OF assms] by (simp only:) simp
qed

text \<open>
  All outcomes of \<open>aesd_read\<close> on an open file: interrupted while waiting for the lock, a fault
  while copying to user space, or the next bytes of the concatenated commands.
\<close>

lemma aesd_read_cases:
  fixes count :: size_t and ubuf :: nat and pos :: loff_t
  assumes K: "kernel_ok K" and safe: "dev_safe (heap s) (aesd_device s)"
    and f: "private_data f = Aesd_device_ptr" and lk: "\<not> lock (aesd_device s)"
  defines "log \<equiv> dev_log (heap s) (aesd_device s)"
  defines "n \<equiv> read_len log (unat pos) (unat count)"
  obtains (intr) "aesd_read K s (Some f) (Some ubuf) count pos = Some (s, pos, - ERESTARTSYS)"
      "snd (mutex_lock_interruptible K False) \<noteq> 0"
  | (fault) m where "aesd_read K s (Some f) (Some ubuf) count pos = Some (s\<lparr>umem := m\<rparr>, pos, - EFAULT)"
      "snd (copy_to_user K (umem s) ubuf (take n (drop (unat pos) (concat log)))) \<noteq> 0"
  | (success) "aesd_read K s (Some f) (Some ubuf) count pos =
      Some (s\<lparr>umem := umem_write (umem s) ubuf (take n (drop (unat pos) (concat log)))\<rparr>,
            pos + word_of_nat n, word_of_nat n)"
proof -
  let ?d = "aesd_device s"
  have ok: "entries_ok (heap s) (buffer ?d)" using safe by (simp add: dev_safe_def)
  obtain l r where mx: "mutex_lock_interruptible K (lock ?d) = (l, r)" by force
  note M = mutex_lockD [OF kernel_okD(5) [OF K] mx] and U = mutex_unlockD [OF kernel_okD(5) [OF K]]
  show thesis
  proof (cases "r = 0")
    case False
    then show thesis using M(2) mx f lk by (intro intr) (simp_all add: aesd_read_def)
  next
    case r0: True
    let ?s = "set_lock s True"
    note F = find_entry_log [OF ok, folded dev_log_def]
    show thesis
    proof (cases "locate (map length log) (unat pos)")
      case None
      then have n0: "n = 0" by (simp add: n_def read_len_def)
      show thesis
        using None F mx r0 M(1) U f lk n0
        by (intro success) (simp add: aesd_read_def log_def dev_log_def)
    next
      case (Some kr)
      then obtain k r where kr: "locate (map length log) (unat pos) = Some (k, r)" by (cases kr) auto
      obtain m left where cp: "copy_to_user K (umem s) ubuf (take n (drop (unat pos) (concat log))) = (m, left)"
        by force
      have re: "read_entry K ?s ubuf count pos (cb_slot (buffer ?d) k, word_of_nat r) =
          (if left \<noteq> 0 then Some (?s\<lparr>umem := m\<rparr>, pos, - EFAULT)
           else Some (?s\<lparr>umem := m\<rparr>, pos + word_of_nat n, word_of_nat n))"
        using read_entry_eq [of ?s pos k r K ubuf count] ok kr cp by (simp add: log_def n_def)
      have "aesd_read K s (Some f) (Some ubuf) count pos =
          (if left \<noteq> 0 then Some (s\<lparr>umem := m\<rparr>, pos, - EFAULT)
           else Some (s\<lparr>umem := m\<rparr>, pos + word_of_nat n, word_of_nat n))"
        using kr F mx r0 M(1) U f lk re by (simp add: aesd_read_def log_def dev_log_def)
      then show thesis
        using copy_to_userD [OF kernel_okD(4) [OF K]] cp by (cases "left = 0") (auto intro: fault success)
    qed
  qed
qed

section \<open>What the seek command computes\<close>

lemma adjust_loop_sum:
  assumes "n \<le> length (entry b)" and "i \<le> n"
  shows "adjust_loop b n i acc = Some (acc + sum_list (map esize (drop i (take n (entry b)))))"
  using assms(2)
proof (induction "n - i" arbitrary: i acc)
  case 0
  then show ?case by (subst adjust_loop.simps) simp
next
  case (Suc m)
  then have i: "i < n" by simp
  then have "drop i (take n (entry b)) = entry b ! i # drop (Suc i) (take n (entry b))"
    using assms(1) by (metis Cons_nth_drop_Suc length_take min.absorb2 nth_take)
  moreover have "adjust_loop b n (Suc i) (acc + esize (entry b ! i)) =
      Some (acc + esize (entry b ! i) + sum_list (map esize (drop (Suc i) (take n (entry b)))))"
    using Suc.hyps(2) i by (intro Suc.hyps(1)) auto
  ultimately show ?case using i assms(1) by (subst adjust_loop.simps) (simp add: add.assoc)
qed

text \<open>A word sum that does not wrap around.\<close>

lemma unat_sum_list:
  "sum_list (map (\<lambda>e. unat (g e)) xs) < 2 ^ 64 \<Longrightarrow>
   unat (sum_list (map g xs) :: 64 word) = sum_list (map (\<lambda>e. unat (g e)) xs)"
proof (induction xs)
  case (Cons x xs)
  then show ?case by (simp add: unat_add_no_wrap)
qed simp

text \<open>
  As long as no command was displaced (\<open>out_offs = 0\<close>) the array order is the order of the log.
\<close>

lemma unwrapped_slot: "out_offs b = 0 \<Longrightarrow> k < 10 \<Longrightarrow> cb_slot b k = k"
  by (simp add: cb_slot_def)

lemma unwrapped_take:
  assumes "entries_ok h b" and "out_offs b = 0" and "n \<le> cb_count b"
  shows "take n (entry b) = take n (cb_entries b)"
proof (rule nth_equalityI)
  have len: "length (entry b) = 10" using assms(1) by (auto simp: entries_ok_def)
  then show "length (take n (entry b)) = length (take n (cb_entries b))"
    using assms(3) cb_count_le [of b] by simp
  fix i assume "i < length (take n (entry b))"
  then show "take n (entry b) ! i = take n (cb_entries b) ! i"
    using assms(2,3) cb_count_le [of b] by (simp add: nth_cb_entries unwrapped_slot)
qed

lemma unwrapped_clear:
  assumes "entries_ok h b" and "out_offs b = 0" and "cb_count b \<le> i" and "i < 10"
  shows "entry b ! i = null_entry"
proof -
  have "i \<notin> cb_slot b ` {..<cb_count b}"
    using assms(2,3) cb_count_le [of b] by (auto simp: unwrapped_slot)
  with assms(1,4) show ?thesis by (simp add: entries_ok_def)
qed

lemma entry_sum:
  assumes "entries_ok h b" and "n \<le> cb_count b"
  shows "sum_list (map (\<lambda>e. unat (esize e)) (take n (cb_entries b))) =
    sum_list (map length (take n (map (entry_bytes h) (cb_entries b))))"
    and "sum_list (map (\<lambda>e. unat (esize e)) (take n (cb_entries b))) < 2 ^ 63"
proof -
  show "sum_list (map (\<lambda>e. unat (esize e)) (take n (cb_entries b))) =
    sum_list (map length (take n (map (entry_bytes h) (cb_entries b))))"
    using length_entry_bytes [OF assms(1)]
    by (simp add: take_map comp_def) (metis (no_types, lifting) in_set_takeD map_cong)
  have "sum_list (take n (map (\<lambda>e. unat (esize e)) (cb_entries b))) \<le>
      sum_list (map (\<lambda>e. unat (esize e)) (cb_entries b))" by (rule sum_take_le)
  then show "sum_list (map (\<lambda>e. unat (esize e)) (take n (cb_entries b))) < 2 ^ 63"
    using cb_total_less [OF assms(1)] by (simp add: take_map)
qed

text \<open>The outcomes of the seek command on a device that has not wrapped around.\<close>

lemma adjust_unwrapped_cases:
  fixes cmd off :: u32
  assumes K: "kernel_ok K" and safe: "dev_safe (heap s) (aesd_device s)"
    and f: "private_data f = Aesd_device_ptr" and lk: "\<not> lock (aesd_device s)"
    and o: "out_offs (buffer (aesd_device s)) = 0"
  defines "log \<equiv> dev_log (heap s) (aesd_device s)"
  obtains (intr) "aesd_adjust_file_offset K s f cmd off = Some (s, f, - ERESTARTSYS)"
      "snd (mutex_lock_interruptible K False) \<noteq> 0"
  | (inval) "aesd_adjust_file_offset K s f cmd off = Some (s, f, - EINVAL)"
      "\<not> (unat cmd < length log \<and> unat off < length (log ! unat cmd))"
  | (success) p where "aesd_adjust_file_offset K s f cmd off = Some (s, f\<lparr>f_pos := p\<rparr>, 0)"
      "unat cmd < length log" "unat off < length (log ! unat cmd)"
      "unat p = sum_list (map length (take (unat cmd) log)) + unat off"
proof -
  let ?d = "aesd_device s" and ?b = "buffer (aesd_device s)" and ?c = "unat cmd"
  have ok: "entries_ok (heap s) ?b" and wf: "cb_wf ?b" using safe by (auto simp: dev_safe_def entries_ok_def)
  have len: "length (entry ?b) = 10" using wf by auto
  have L: "log = map (entry_bytes (heap s)) (cb_entries ?b)" by (simp add: log_def dev_log_def)
  obtain l r where mx: "mutex_lock_interruptible K (lock ?d) = (l, r)" by force
  note M = mutex_lockD [OF kernel_okD(5) [OF K] mx] and U = mutex_unlockD [OF kernel_okD(5) [OF K]]
  have uoff: "unat (ucast off :: size_t) = unat off" by (rule unat_ucast_32_64)
  consider "r \<noteq> 0" | "r = 0" "10 \<le> ?c" | "r = 0" "?c < 10" "cb_count ?b \<le> ?c" | "r = 0" "?c < cb_count ?b"
    using cb_count_le [of ?b] by linarith
  then show thesis
  proof cases
    case 1
    then show thesis using mx M(2) lk by (intro intr) (simp_all add: aesd_adjust_file_offset_def)
  next
    case 2
    then show thesis using mx M(1) U lk cb_count_le [of ?b]
      by (intro inval) (simp_all add: aesd_adjust_file_offset_def L)
  next
    case 3
    then show thesis using mx M(1) U lk f len unwrapped_clear [OF ok o 3(3,2)]
      by (intro inval) (simp_all add: aesd_adjust_file_offset_def L null_entry_def)
  next
    case 4
    have c: "?c < 10" using 4(2) cb_count_le [of ?b] by simp
    have e: "length (log ! ?c) = unat (esize (entry ?b ! ?c))"
      using log_nth(1,2) [OF ok 4(2)] unwrapped_slot [OF o c] by (simp add: L)
    show thesis
    proof (cases "unat off < length (log ! ?c)")
      case False
      then have "esize (entry ?b ! ?c) \<le> ucast off" using e uoff by (simp add: word_le_nat_alt)
      then show thesis using mx M(1) U lk f len c 4 False
        by (intro inval) (simp_all add: aesd_adjust_file_offset_def)
    next
      case True
      define upd where "upd = (sum_list (map esize (take ?c (entry ?b))) :: loff_t)"
      have uu: "unat upd = sum_list (map length (take ?c log))" "unat upd < 2 ^ 63"
        using entry_sum [OF ok, of ?c] 4(2) unwrapped_take [OF ok o, of ?c]
        by (simp_all add: upd_def unat_sum_list L)
      have "unat (upd + ucast off) = unat upd + unat off"
        using uu(2) uoff unat_32_less [of off] by (subst unat_add_no_wrap) auto
      moreover have "\<not> esize (entry ?b ! ?c) \<le> ucast off" using True e uoff by (simp add: word_le_nat_alt)
      ultimately show thesis using mx M(1) U lk f len c 4 True uu(1) adjust_loop_sum [of ?c ?b 0 0]
        by (intro success [of "upd + ucast off"]) (simp_all add: aesd_adjust_file_offset_def upd_def L)
    qed
  qed
qed

end
