(* ===== verification/Aesd_Module.thy ===== *)
theory Aesd_Module
  imports Aesd_Read_Seek
begin

text \<open>
  Loading and unloading the driver (\<open>main.c\<close>): registration of the device number and of the
  character device, initialisation of the device structure, and the release of the stored
  commands with the loop macro \<open>AESD_CIRCULAR_BUFFER_FOREACH\<close>.
\<close>

section \<open>Initialisation\<close>

definition zero_dev :: aesd_dev where
  "zero_dev = \<lparr>lock = False, buffer = aesd_circular_buffer_init,
     cdev = \<lparr>cdev_ops = No_ops, cdev_dev = None\<rparr>, write_buffer = NULL, write_buffer_size = 0,
     buff_size = 0\<rparr>"

definition aesd_setup_cdev :: "kernel \<Rightarrow> kstate \<Rightarrow> kstate \<times> int" where
  "aesd_setup_cdev K s =
     (let devno = MKDEV K (aesd_major s) (aesd_minor s);
          c = \<lparr>cdev_ops = Aesd_fops, cdev_dev = None\<rparr>;
          err = cdev_add K devno;
          c' = (if err = 0 then c\<lparr>cdev_dev := Some devno\<rparr> else c)
      in (s\<lparr>aesd_device := (aesd_device s)\<lparr>cdev := c'\<rparr>\<rparr>, err))"

text \<open>
  The statement \<open>aesd_device.write_buffer ==NULL;\<close> of the source is a comparison without
  effect; the field is null because of the preceding \<open>memset\<close>.
\<close>

definition aesd_init_module :: "kernel \<Rightarrow> kstate \<Rightarrow> kstate \<times> int" where
  "aesd_init_module K s =
     (let (dev, result) = alloc_chrdev_region K (aesd_minor s);
          s1 = s\<lparr>aesd_major := MAJOR K dev\<rparr>
      in if result < 0 then (s1, result)
         else
           let d = zero_dev\<lparr>buffer := aesd_circular_buffer_init, lock := False, write_buffer_size := 0\<rparr>;
               (s2, result2) = aesd_setup_cdev K (s1\<lparr>regions := insert dev (regions s1), aesd_device := d\<rparr>)
           in (if result2 \<noteq> 0 then s2\<lparr>regions := regions s2 - {dev}\<rparr> else s2, result2))"

section \<open>Removal\<close>

text \<open>The loop of \<open>aesd_cleanup_module\<close> from slot \<open>index\<close> on: it releases the block of every slot.\<close>

definition foreach_kfree :: "kernel \<Rightarrow> aesd_circular_buffer \<Rightarrow> heap \<Rightarrow> nat \<Rightarrow> heap option" where
  "foreach_kfree K b h index = AESD_CIRCULAR_BUFFER_FOREACH (\<lambda>entryptr h. kfree K h (buffptr entryptr)) b h index"

lemma foreach_kfree_step:
  "foreach_kfree K b h index =
     (if index < AESDCHAR_MAX_WRITE_OPERATIONS_SUPPORTED then
        if index < length (entry b) then
          do { h' \<leftarrow> kfree K h (buffptr (entry b ! index)); foreach_kfree K b h' (index + 1) }
        else None
      else Some h)"
  unfolding foreach_kfree_def by (subst AESD_CIRCULAR_BUFFER_FOREACH.simps) simp

definition aesd_cleanup_module :: "kernel \<Rightarrow> kstate \<Rightarrow> kstate option" where
  "aesd_cleanup_module K s =
     (let devno = MKDEV K (aesd_major s) (aesd_minor s);
          d = aesd_device s;
          d1 = d\<lparr>cdev := (cdev d)\<lparr>cdev_dev := None\<rparr>\<rparr>
      in do {
        h \<leftarrow> foreach_kfree K (buffer d) (heap s) 0;
        Some (s\<lparr>heap := h, aesd_device := d1\<lparr>lock := False\<rparr>, regions := regions s - {devno}\<rparr>)
      })"

section \<open>Properties\<close>

lemma zero_dev_facts:
  fixes c :: cdev_t
  defines "d \<equiv> zero_dev\<lparr>cdev := c\<rparr>"
  shows "dev_inv h d" "dev_log h d = []" "dev_pending h d = []" "owned d = {}" "\<not> lock d"
    "buff_size d = 0" "out_offs (buffer d) = 0"
proof -
  have b: "buffer d = aesd_circular_buffer_init" "write_buffer_size d = 0" "\<not> lock d" "buff_size d = 0"
    by (simp_all add: d_def zero_dev_def)
  have clear: "entry aesd_circular_buffer_init ! i = null_entry" if "i < 10" for i
    using that by (simp add: aesd_circular_buffer_init_def)
  show "dev_inv h d" using clear
    by (simp add: b dev_inv_def dev_safe_def entries_ok_def pending_safe_def cb_init_wf cb_init_entries)
  show "dev_log h d = []" "dev_pending h d = []" "owned d = {}"
    by (simp_all add: b dev_log_def dev_pending_def owned_def cb_init_entries)
  show "out_offs (buffer d) = 0" by (simp add: b aesd_circular_buffer_init_def)
qed (simp_all add: d_def zero_dev_def)

lemma init_device:
  assumes "aesd_init_module K s = (s', r)" and "0 \<le> snd (alloc_chrdev_region K (aesd_minor s))"
  shows "\<exists>c. aesd_device s' = zero_dev\<lparr>cdev := c\<rparr>" and "heap s' = heap s"
proof -
  obtain dev res where a: "alloc_chrdev_region K (aesd_minor s) = (dev, res)" by force
  have z: "zero_dev\<lparr>buffer := aesd_circular_buffer_init, lock := False, write_buffer_size := 0\<rparr> = zero_dev"
    by (simp add: zero_dev_def)
  show "\<exists>c. aesd_device s' = zero_dev\<lparr>cdev := c\<rparr>" and "heap s' = heap s"
    using assms a
    by (auto simp: aesd_init_module_def aesd_setup_cdev_def Let_def z split: if_splits)
qed

text \<open>What the loop releases: the blocks of the slots from \<open>i\<close> on.\<close>

definition slot_addrs :: "aesd_circular_buffer \<Rightarrow> nat \<Rightarrow> nat set" where
  "slot_addrs b i = {a. \<exists>j. i \<le> j \<and> j < 10 \<and> buffptr (entry b ! j) = Ptr a}"

lemma slot_addrs_Suc:
  "i < 10 \<Longrightarrow> slot_addrs b i = tmp_addr (buffptr (entry b ! i)) \<union> slot_addrs b (Suc i)"
proof -
  assume "i < 10"
  have "i \<le> j \<longleftrightarrow> j = i \<or> Suc i \<le> j" for j by auto
  with \<open>i < 10\<close> show ?thesis unfolding slot_addrs_def tmp_addr_def by auto
qed

lemma foreach_kfree_spec:
  assumes K: "kfree_ok K" and len: "length (entry b) = 10"
    and inj: "\<And>j k a. j < 10 \<Longrightarrow> k < 10 \<Longrightarrow> buffptr (entry b ! j) = Ptr a \<Longrightarrow>
       buffptr (entry b ! k) = Ptr a \<Longrightarrow> j = k"
    and alloc: "slot_addrs b i \<subseteq> dom h" and le: "i \<le> 10"
    and nz: "\<And>j. j < 10 \<Longrightarrow> buffptr (entry b ! j) \<noteq> ZERO_SIZE_PTR"
  shows "\<exists>h'. foreach_kfree K b h i = Some h' \<and> dom h' = dom h - slot_addrs b i"
  using alloc le
proof (induction "10 - i" arbitrary: i h)
  case 0
  then show ?case by (subst foreach_kfree_step) (auto simp: slot_addrs_def)
next
  case (Suc n)
  then have i: "i < 10" by simp
  let ?p = "buffptr (entry b ! i)"
  note S = slot_addrs_Suc [OF i, of b]
  have free: "kfree K h ?p = Some (free_block h ?p)"
  proof (cases ?p)
    case (Ptr a)
    then have "a \<in> dom h" using Suc.prems(1) S by auto
    then show ?thesis using Ptr by (auto simp: kfree_simps [OF K])
  qed (simp_all add: kfree_simps [OF K])
  have "tmp_addr ?p \<inter> slot_addrs b (Suc i) = {}"
    using inj [OF i] by (auto simp: tmp_addr_def slot_addrs_def)
  then have "slot_addrs b (Suc i) \<subseteq> dom (free_block h ?p)"
    using Suc.prems(1) S by (auto simp: dom_free_block)
  then obtain h' where "foreach_kfree K b (free_block h ?p) (Suc i) = Some h'"
    "dom h' = dom (free_block h ?p) - slot_addrs b (Suc i)"
    using Suc.hyps i by (metis Suc_leI diff_Suc_Suc diff_Suc_1 Suc_diff_Suc)
  then show ?case using free i len S by (subst foreach_kfree_step) (auto simp: dom_free_block)
qed

lemma slot_cases:
  assumes "entries_ok h b" and "j < 10"
  obtains (clear) "entry b ! j = null_entry" | (stored) k where "k < cb_count b" "j = cb_slot b k"
  using assms by (auto simp: entries_ok_def)

lemma slot_addrs_entries:
  assumes "entries_ok h b"
  shows "slot_addrs b 0 = entry_addrs b"
proof
  show "slot_addrs b 0 \<subseteq> entry_addrs b"
  proof
    fix a assume "a \<in> slot_addrs b 0"
    then obtain j where j: "j < 10" "buffptr (entry b ! j) = Ptr a" by (auto simp: slot_addrs_def)
    from assms j(1) show "a \<in> entry_addrs b"
    proof (cases rule: slot_cases)
      case clear
      with j show ?thesis by (simp add: null_entry_def)
    next
      case (stored k)
      then have "buffptr (cb_entries b ! k) = Ptr a" using j by (simp add: nth_cb_entries)
      moreover have "cb_entries b ! k \<in> set (cb_entries b)" using stored(1) by simp
      ultimately show ?thesis unfolding entry_addrs_def by (metis (mono_tags) image_eqI mem_Collect_eq)
    qed
  qed
  show "entry_addrs b \<subseteq> slot_addrs b 0"
    by (auto simp: entry_addrs_def slot_addrs_def cb_entries_def) (metis cb_slot_less)
qed

lemma slot_ptr_inj:
  assumes ok: "entries_ok h b" and jk: "j < 10" "k < 10"
    and p: "buffptr (entry b ! j) = Ptr a" "buffptr (entry b ! k) = Ptr a"
  shows "j = k"
proof -
  obtain j' where j': "j' < cb_count b" "j = cb_slot b j'"
    using ok jk(1) p(1) by (cases rule: slot_cases) (auto simp: null_entry_def)
  obtain k' where k': "k' < cb_count b" "k = cb_slot b k'"
    using ok jk(2) p(2) by (cases rule: slot_cases) (auto simp: null_entry_def)
  have "map buffptr (cb_entries b) ! j' = map buffptr (cb_entries b) ! k'"
    using j' k' p by (simp add: nth_cb_entries)
  moreover have "distinct (map buffptr (cb_entries b))" using ok by (simp add: entries_ok_def)
  ultimately have "j' = k'"
    using j' k' by (metis length_cb_entries length_map nth_eq_iff_index_eq)
  with j' k' show ?thesis by simp
qed

lemma cleanup_dom:
  assumes "kfree_ok K" and ok: "entries_ok (heap s) (buffer (aesd_device s))"
  shows "\<exists>s'. aesd_cleanup_module K s = Some s' \<and>
    dom (heap s') = dom (heap s) - entry_addrs (buffer (aesd_device s))"
proof -
  let ?b = "buffer (aesd_device s)"
  have len: "length (entry ?b) = 10" using ok by (auto simp: entries_ok_def)
  have nz: "buffptr (entry ?b ! j) \<noteq> ZERO_SIZE_PTR" if "j < 10" for j
    using ok that
  proof (cases rule: slot_cases)
    case (stored k)
    with log_nth(3) [OF ok stored(1)] show ?thesis by (auto simp: valid_blk_def)
  qed (simp add: null_entry_def)
  have "slot_addrs ?b 0 \<subseteq> dom (heap s)"
    using entry_addrs_alloc [OF ok] by (auto simp: slot_addrs_entries [OF ok])
  then obtain h' where "foreach_kfree K ?b (heap s) 0 = Some h'" "dom h' = dom (heap s) - slot_addrs ?b 0"
    using foreach_kfree_spec [where h = "heap s", OF assms(1) len] slot_ptr_inj [OF ok] nz
    by (metis zero_le)
  then show ?thesis by (simp add: aesd_cleanup_module_def Let_def slot_addrs_entries [OF ok])
qed

end
