(* ===== verification/Kernel_Sim.thy ===== *)
theory Kernel_Sim
  imports Kernel_Env
begin

text \<open>
  A concrete kernel, used to show that the hypotheses of the driver's theorems can hold
  together: a first-fit allocator over 16 addresses that fills new blocks (of at most 64 bytes) with
  question marks,
  copies that always succeed, and the usual layout of ioctl numbers. Two parameters choose
  whether \<open>krealloc\<close> fails and what \<open>mutex_lock_interruptible\<close> returns.
\<close>

definition sim_kmalloc :: "heap \<Rightarrow> size_t \<Rightarrow> heap \<times> ptr" where
  "sim_kmalloc h n =
     (if n = 0 then (h, ZERO_SIZE_PTR)
      else if 64 < unat n then (h, NULL)
      else case List.find (\<lambda>a. h a = None) [0..<16] of
             None \<Rightarrow> (h, NULL)
           | Some a \<Rightarrow> (h(a \<mapsto> replicate (unat n) CHR ''?''), Ptr a))"

definition sim_krealloc :: "bool \<Rightarrow> heap \<Rightarrow> ptr \<Rightarrow> size_t \<Rightarrow> heap \<times> ptr" where
  "sim_krealloc fails h q n =
     (if fails then (h, NULL) else
      case q of
        NULL \<Rightarrow> sim_kmalloc h n
      | ZERO_SIZE_PTR \<Rightarrow> (h, NULL)
      | Ptr a \<Rightarrow> (case h a of
            None \<Rightarrow> (h, NULL)
          | Some blk \<Rightarrow> if 64 < unat n then (h, NULL)
              else (h(a \<mapsto> take (unat n) (blk @ replicate (unat n) CHR ''?'')), Ptr a)))"

fun sim_kfree :: "heap \<Rightarrow> ptr \<Rightarrow> heap option" where
  "sim_kfree h (Ptr a) = (if h a = None then None else Some (h(a := None)))"
| "sim_kfree h _ = Some h"

definition sim_llseek :: "loff_t \<Rightarrow> loff_t \<Rightarrow> u32 \<Rightarrow> loff_t \<Rightarrow> loff_t \<times> loff_t" where
  "sim_llseek pos off wh n =
     (let t = (if wh = 0 then off else if wh = 1 then pos + off else n + off) in
      if wh \<le> 2 \<and> 0 \<le> sint t \<and> sint t \<le> sint n then (t, t) else (pos, - EINVAL))"

definition sim_u32 :: "char list \<Rightarrow> nat \<Rightarrow> u32" where
  "sim_u32 bs i = word_of_nat (of_char (bs ! i) + 256 * of_char (bs ! (i + 1)) +
     65536 * of_char (bs ! (i + 2)) + 16777216 * of_char (bs ! (i + 3)))"

definition sim_kernel :: "bool \<Rightarrow> int \<Rightarrow> kernel" where
  "sim_kernel fails r =
     \<lparr>kmalloc = sim_kmalloc, krealloc = sim_krealloc fails, kfree = sim_kfree,
      copy_from_user = (\<lambda>m a n. (umem_read m a (unat n), 0)),
      copy_to_user = (\<lambda>m a bs. (umem_write m a bs, 0)),
      mutex_lock_interruptible = (\<lambda>l. (if r = 0 then True else l, r)),
      mutex_unlock = (\<lambda>_. False),
      fixed_size_llseek = sim_llseek,
      IOC_TYPE = (\<lambda>c. (c div 256) mod 256), IOC_NR = (\<lambda>c. c mod 256),
      IOWR = (\<lambda>t n k. 3221225472 + word_of_nat k * 65536 + t * 256 + n),
      seekto_of_bytes = (\<lambda>bs. \<lparr>write_cmd = sim_u32 bs 0, write_cmd_offset = sim_u32 bs 4\<rparr>),
      alloc_chrdev_region = (\<lambda>minor. (251 * 1048576 + minor, 0)),
      MAJOR = (\<lambda>d. d div 1048576), MKDEV = (\<lambda>ma mi. ma * 1048576 + mi), cdev_add = (\<lambda>_. 0),
      ptr_bytes = (\<lambda>_. [CHR 0x40, CHR 0x00, CHR 0x10, CHR 0x06, CHR 0x80, CHR 0x88, CHR 0xFF, CHR 0xFF])\<rparr>"

lemma fresh_blockI:
  "h a = None \<Longrightarrow> n \<noteq> 0 \<Longrightarrow> length blk = unat n \<Longrightarrow> unat n \<le> KMALLOC_LIMIT \<Longrightarrow>
   fresh_block h n (h(a \<mapsto> blk)) (Ptr a)"
  unfolding fresh_block_def by blast

lemma sim_kmalloc_cases:
  assumes "sim_kmalloc h n = (h', p)"
  shows "p = NULL \<and> h' = h \<or> p = ZERO_SIZE_PTR \<and> n = 0 \<and> h' = h \<or> fresh_block h n h' p"
proof (cases "List.find (\<lambda>a. h a = None) [0..<16]")
  case None
  with assms show ?thesis by (auto simp: sim_kmalloc_def split: if_splits)
next
  case (Some a)
  then have "h a = None" by (auto simp: find_Some_iff)
  then have "fresh_block h n (h(a \<mapsto> replicate (unat n) CHR ''?'')) (Ptr a)"
    if "n \<noteq> 0" "unat n \<le> KMALLOC_LIMIT" using that by (intro fresh_blockI) auto
  with assms Some show ?thesis by (auto simp: sim_kmalloc_def KMALLOC_LIMIT_def split: if_splits)
qed

lemma sim_kmalloc_ok: "kmalloc_ok (sim_kernel fails r)"
  using sim_kmalloc_cases by (simp add: kmalloc_ok_def sim_kernel_def)

lemma sim_krealloc_Ptr:
  assumes "sim_krealloc False h (Ptr a) n = (h', p)" and "h a = Some blk" and "\<not> (p = NULL \<and> h' = h)"
  shows "\<exists>a' blk'. p = Ptr a' \<and> (a' = a \<or> h a' = None) \<and> length blk' = unat n \<and>
    unat n \<le> KMALLOC_LIMIT \<and>
    take (length blk) blk' = take (unat n) blk \<and> h' = (h(a := None))(a' \<mapsto> blk')"
proof -
  let ?blk = "take (unat n) (blk @ replicate (unat n) CHR ''?'')"
  have "p = Ptr a" "h' = h(a \<mapsto> ?blk)" "unat n \<le> KMALLOC_LIMIT"
    using assms by (auto simp: sim_krealloc_def KMALLOC_LIMIT_def split: if_splits)
  moreover have "length ?blk = unat n" "take (length blk) ?blk = take (unat n) blk"
    by (auto simp: min_def)
  ultimately show ?thesis by (intro exI [of _ a] exI [of _ ?blk]) simp
qed

lemma sim_krealloc_ok: "krealloc_ok (sim_kernel fails r)"
proof (cases fails)
  case True
  then show ?thesis by (simp add: krealloc_ok_def sim_kernel_def sim_krealloc_def)
next
  case False
  have k: "krealloc (sim_kernel fails r) = sim_krealloc False" by (simp add: sim_kernel_def False)
  show ?thesis unfolding krealloc_ok_def k
  proof (intro conjI allI impI)
    fix h n h' p
    assume "sim_krealloc False h NULL n = (h', p)" and "n \<noteq> (0 :: size_t)"
    then show "p = NULL \<and> h' = h \<or> fresh_block h n h' p"
      using sim_kmalloc_cases [of h n h' p] by (simp add: sim_krealloc_def)
  qed (use sim_krealloc_Ptr in blast)
qed

lemma sim_ioc:
  fixes t n :: u32
  assumes "t < 256" "n < 256" "k < 2 ^ 13"
  defines "c \<equiv> (3221225472 + word_of_nat k * 65536 + t * 256 + n :: u32)"
  shows "(c div 256) mod 256 = t" "c mod 256 = n"
proof -
  have t: "unat t < 256" and n: "unat n < 256" using assms(1,2) by (simp_all add: word_less_nat_alt)
  have k: "unat (word_of_nat k :: u32) = k" using assms(3) by (intro unat_word_of_nat) simp
  have m: "unat (word_of_nat k * 65536 :: u32) = k * 65536" "unat (t * 256) = unat t * 256"
    using assms(3) t k by (simp_all add: unat_word_ariths)
  have c: "unat c = 3221225472 + k * 65536 + unat t * 256 + unat n"
    unfolding c_def using m t n assms(3) by (simp add: unat_word_ariths)
  have "unat ((c div 256) mod 256) = (unat c div 256) mod 256" "unat (c mod 256) = unat c mod 256"
    by (simp_all add: unat_div unat_mod)
  moreover have "(256 * q + m) div 256 = q \<and> (256 * q + m) mod 256 = m" if "m < 256" for q m :: nat
    using that by simp
  from this [OF n, of "256 * (49152 + k) + unat t"] this [OF t, of "49152 + k"]
  have "(unat c div 256) mod 256 = unat t" "unat c mod 256 = unat n"
    by (simp_all add: c algebra_simps)
  ultimately show "(c div 256) mod 256 = t" "c mod 256 = n" by (simp_all add: word_unat_eq_iff)
qed

lemma sim_kernel_ok: "kernel_ok (sim_kernel fails r)"
proof -
  have "kfree_ok (sim_kernel fails r)" "copy_ok (sim_kernel fails r)" "mutex_ok (sim_kernel fails r)"
    by (auto simp: kfree_ok_def copy_ok_def mutex_ok_def sim_kernel_def)
  moreover have "llseek_ok (sim_kernel fails r)"
    by (auto simp: llseek_ok_def sim_kernel_def sim_llseek_def Let_def split: if_splits)
  moreover have "ioc_ok (sim_kernel fails r)"
    using sim_ioc by (simp add: ioc_ok_def sim_kernel_def)
  ultimately show ?thesis using sim_kmalloc_ok sim_krealloc_ok by (simp add: kernel_ok_def)
qed

text \<open>With 16 addresses and blocks of at most 64 bytes the kernel has resources to spare for the driver.\<close>

lemma sim_kernel_grants: "grants 64 (sim_kernel False 0)"
proof -
  have free: False
    if "finite (dom h)" "card (dom h) \<le> 11" "List.find (\<lambda>a. h a = None) [0..<16] = None" for h :: heap
  proof -
    have "{0..<16} \<subseteq> dom h" using that(3) by (auto simp: find_None_iff)
    from card_mono [OF that(1) this] that(2) show False by simp
  qed
  show ?thesis by (auto simp: grants_def sim_kernel_def sim_kmalloc_def sim_krealloc_def dest: free split: option.splits)
qed

end
