(* ===== verification/Aesd_System.thy ===== *)
theory Aesd_System
  imports Aesd_Module Kernel_Sim
begin

text \<open>
  The driver as a transition system: any number of open files on the one device, any order of
  system calls, a kernel that may answer every request differently each time, and a user
  process that changes its memory between calls. Each operation holds the device lock while it
  touches the device, so a run of the driver is a sequence of whole operations.
\<close>

record sys =
  kst :: kstate
  files :: "nat \<rightharpoonup> file_t"

definition fresh_file :: file_t where
  "fresh_file = \<lparr>private_data = Dev_null, f_pos = 0\<rparr>"

inductive dev_step :: "sys \<Rightarrow> sys \<Rightarrow> bool" where
  step_user: "dev_step S (S\<lparr>kst := (kst S)\<lparr>umem := m\<rparr>\<rparr>)"
| step_open: "files S fd = None \<Longrightarrow>
    dev_step S (S\<lparr>files := (files S)(fd \<mapsto> fst (aesd_open fresh_file))\<rparr>)"
| step_release: "files S fd = Some f \<Longrightarrow> aesd_release f = (f', 0) \<Longrightarrow>
    dev_step S (S\<lparr>files := (files S)(fd := None)\<rparr>)"
| step_read: "kernel_ok K \<Longrightarrow> files S fd = Some f \<Longrightarrow>
    aesd_read K (kst S) (Some f) buf count (f_pos f) = Some (s', pos, r) \<Longrightarrow>
    dev_step S (S\<lparr>kst := s', files := (files S)(fd \<mapsto> f\<lparr>f_pos := pos\<rparr>)\<rparr>)"
| step_write: "kernel_ok K \<Longrightarrow> files S fd = Some f \<Longrightarrow>
    aesd_write K (kst S) (Some f) buf count (f_pos f) = Some (s', pos, r) \<Longrightarrow>
    dev_step S (S\<lparr>kst := s', files := (files S)(fd \<mapsto> f\<lparr>f_pos := pos\<rparr>)\<rparr>)"
| step_llseek: "kernel_ok K \<Longrightarrow> files S fd = Some f \<Longrightarrow>
    aesd_llseek K (kst S) f offset whence = Some (s', f', r) \<Longrightarrow>
    dev_step S (S\<lparr>kst := s', files := (files S)(fd \<mapsto> f')\<rparr>)"
| step_ioctl: "kernel_ok K \<Longrightarrow> files S fd = Some f \<Longrightarrow>
    aesd_ioctl K (kst S) f cmd arg = Some (s', f', r) \<Longrightarrow>
    dev_step S (S\<lparr>kst := s', files := (files S)(fd \<mapsto> f')\<rparr>)"

inductive_cases dev_stepE: "dev_step S S'"

text \<open>Reachable from a successful load of the module, with nothing allocated and no file open.\<close>

inductive dev_reachable :: "sys \<Rightarrow> bool" where
  reach_init: "aesd_init_module K s = (s', 0) \<Longrightarrow> 0 \<le> snd (alloc_chrdev_region K (aesd_minor s)) \<Longrightarrow>
    dev_reachable \<lparr>kst = s', files = Map.empty\<rparr>"
| reach_step: "dev_reachable S \<Longrightarrow> dev_step S S' \<Longrightarrow> dev_reachable S'"

definition sys_inv :: "sys \<Rightarrow> bool" where
  "sys_inv S \<longleftrightarrow> dev_safe (heap (kst S)) (aesd_device (kst S)) \<and> \<not> lock (aesd_device (kst S)) \<and>
     (\<forall>fd f. files S fd = Some f \<longrightarrow> private_data f = Aesd_device_ptr)"

section \<open>Each operation keeps the invariant\<close>

lemma aesd_read_null:
  "buf = None \<Longrightarrow> aesd_read K s (Some f) buf count pos = Some (s, pos, - EINVAL)"
  by (simp add: aesd_read_def)

lemma aesd_write_null:
  "buf = None \<Longrightarrow> aesd_write K s (Some f) buf count pos = Some (s, pos, - EINVAL)"
  by (simp add: aesd_write_def)

lemma read_preserves:
  assumes "kernel_ok K" "dev_safe (heap s) (aesd_device s)" "private_data f = Aesd_device_ptr"
    "\<not> lock (aesd_device s)"
  shows "\<exists>s' pos' r. aesd_read K s (Some f) buf count pos = Some (s', pos', r) \<and>
    heap s' = heap s \<and> aesd_device s' = aesd_device s \<and> overread s' = overread s"
proof (cases buf)
  case (Some ub)
  from assms show ?thesis
    by (cases rule: aesd_read_cases [where count = count and ubuf = ub and pos = pos])
      (auto simp: Some)
qed (simp add: aesd_read_null)

lemma safe_write_buffer_NULL:
  "dev_safe h d \<Longrightarrow> dev_safe h (d\<lparr>write_buffer := NULL\<rparr>)"
  by (simp add: dev_safe_def pending_safe_def)

text \<open>
  The messages of a write that can read behind what they print: the one that is given the address of the
  variable \<open>write_data\<close>, if the bytes of that pointer have no zero byte, and the one that prints a
  finished command, if that has none.
\<close>

definition message_overreads :: "kernel \<Rightarrow> kstate \<Rightarrow> nat option \<Rightarrow> size_t \<Rightarrow> bool" where
  "message_overreads K s buf count = (case buf of
     None \<Rightarrow> False
   | Some ubuf \<Rightarrow> let data = umem_read (umem s) ubuf (unat count) in
       CHR 0x00 \<notin> set (ptr_bytes K (snd (kmalloc K (heap s) count))) \<or>
       newline \<in> set data \<and>
       CHR 0x00 \<notin> set (dev_pending (heap s) (aesd_device s) @ consumed data))"

lemma write_preserves:
  assumes "kernel_ok K" "dev_safe (heap s) (aesd_device s)" "private_data f = Aesd_device_ptr"
    "\<not> lock (aesd_device s)"
  shows "\<exists>s' pos' r. aesd_write K s (Some f) buf count pos = Some (s', pos', r) \<and>
    dev_safe (heap s') (aesd_device s') \<and> \<not> lock (aesd_device s') \<and>
    (overread s' \<longrightarrow> overread s \<or> message_overreads K s buf count)"
proof (cases buf)
  case (Some ub)
  from assms show ?thesis
  proof (cases rule: aesd_write_cases [where count = count and ubuf = ub and pos = pos])
    case (intr p h2)
    then have "dev_safe h2 (aesd_device s)"
      using assms(2) dev_safe_cong [of "aesd_device s" h2 "heap s"] by simp
    with intr assms(4) Some show ?thesis by simp
  next
    case (success p h2 h' d' over')
    then show ?thesis using Some
      by (auto simp: write_effect_def dev_inv_def message_overreads_def Let_def message_effect_def)
  next
    case (nomem_grow h1 p h2)
    then show ?thesis using assms Some
      by (auto simp: safe_write_buffer_NULL message_overreads_def Let_def)
  qed (use assms Some in simp_all)
qed (use assms in \<open>simp add: aesd_write_null\<close>)

lemma llseek_preserves:
  assumes "kernel_ok K" "private_data f = Aesd_device_ptr" "\<not> lock (aesd_device s)"
  shows "\<exists>f' r. aesd_llseek K s f offset whence = Some (s, f', r) \<and> private_data f' = Aesd_device_ptr"
proof -
  obtain l r where mx: "mutex_lock_interruptible K (lock (aesd_device s)) = (l, r)" by force
  note M = mutex_lockD [OF kernel_okD(5) [OF assms(1)] mx]
    and U = mutex_unlockD [OF kernel_okD(5) [OF assms(1)]]
  show ?thesis
    using mx M U assms(2,3) by (cases "r = 0") (simp_all add: aesd_llseek_def case_prod_beta)
qed

lemma adjust_preserves:
  assumes "kernel_ok K" "dev_safe (heap s) (aesd_device s)" "private_data f = Aesd_device_ptr"
    "\<not> lock (aesd_device s)"
  shows "\<exists>f' r. aesd_adjust_file_offset K s f cmd off = Some (s, f', r) \<and>
    private_data f' = Aesd_device_ptr"
proof -
  obtain l r where mx: "mutex_lock_interruptible K (lock (aesd_device s)) = (l, r)" by force
  note M = mutex_lockD [OF kernel_okD(5) [OF assms(1)] mx]
    and U = mutex_unlockD [OF kernel_okD(5) [OF assms(1)]]
  have "length (entry (buffer (aesd_device s))) = 10"
    using assms(2) by (auto simp: dev_safe_def entries_ok_def)
  then show ?thesis
    using mx M U assms(3,4) adjust_loop_sum [of "unat cmd" "buffer (aesd_device s)" 0 0]
    by (cases "r = 0") (simp_all add: aesd_adjust_file_offset_def Let_def)
qed

lemma ioctl_preserves:
  assumes "kernel_ok K" "dev_safe (heap s) (aesd_device s)" "private_data f = Aesd_device_ptr"
    "\<not> lock (aesd_device s)"
  shows "\<exists>f' r. aesd_ioctl K s f cmd arg = Some (s, f', r) \<and> private_data f' = Aesd_device_ptr"
  using adjust_preserves [OF assms] assms(3)
  by (simp add: aesd_ioctl_def Let_def case_prod_beta)

lemma sys_inv_step: "dev_step S S' \<Longrightarrow> sys_inv S \<Longrightarrow> sys_inv S'"
proof (induction rule: dev_step.induct)
  case (step_open S fd)
  then show ?case by (auto simp: sys_inv_def aesd_open_def split: if_splits)
next
  case (step_release S fd f f')
  then show ?case by (auto simp: sys_inv_def split: if_splits)
next
  case (step_read K S fd f buf count s' pos r)
  then show ?case using read_preserves [of K "kst S" f buf count "f_pos f"]
    by (auto simp: sys_inv_def split: if_splits)
next
  case (step_write K S fd f buf count s' pos r)
  then show ?case using write_preserves [of K "kst S" f buf count "f_pos f"]
    by (auto simp: sys_inv_def split: if_splits)
next
  case (step_llseek K S fd f offset whence s' f' r)
  then show ?case using llseek_preserves [of K f "kst S" offset whence]
    by (auto simp: sys_inv_def split: if_splits)
next
  case (step_ioctl K S fd f cmd arg s' f' r)
  then show ?case using ioctl_preserves [of K "kst S" f cmd arg]
    by (auto simp: sys_inv_def split: if_splits)
qed (simp add: sys_inv_def)

lemma reachable_inv: "dev_reachable S \<Longrightarrow> sys_inv S"
proof (induction rule: dev_reachable.induct)
  case (reach_init K s s')
  from init_device [OF reach_init] obtain c where "aesd_device s' = zero_dev\<lparr>cdev := c\<rparr>" by blast
  then show ?case using zero_dev_facts(1,5) [where c = c] by (simp add: sys_inv_def dev_inv_def)
next
  case (reach_step S S')
  then show ?case by (blast intro: sys_inv_step)
qed

end
