(* ===== verification/Buffer_Properties.thy ===== *)
theory Buffer_Properties
  imports Circular_Buffer
begin

text \<open>
  The properties of the circular buffer on its own: what any sequence of additions leaves
  behind, how one addition changes the stored entries, where a byte position is found, and what
  happens to null arguments. They rest on the interpretation \<open>cb\<close> of the log interface.
\<close>

section \<open>Adding\<close>

text \<open>
  C7. Adding any sequence of entries to a freshly initialised buffer never leaves the array, and
  the buffer then holds the last ten of them, oldest first.
\<close>

theorem add_entries_last_ten:
  "\<exists>b. add_seq cb_add_entry aesd_circular_buffer_init es = Some b \<and> cb_wf b \<and>
     cb_entries b = last_n 10 es"
  by (rule cb.add_seq_from_init)

text \<open>
  One addition to a well-formed buffer: a buffer that is not full gets the entry at its end,
  a full one loses its oldest entry for it; the buffer is full afterwards if it held nine entries
  or more, and stays well-formed. If either argument is a null pointer nothing changes.
\<close>

lemma add_entry_branches:
  assumes "cb_wf b"
  shows "\<exists>b'. aesd_circular_buffer_add_entry (Some b) (Some e) = Some (Some b') \<and> cb_wf b' \<and>
      cb_entries b' = (if full b then tl (cb_entries b) @ [e] else cb_entries b @ [e]) \<and>
      full b' = (9 \<le> length (cb_entries b)) \<and>
      aesd_circular_buffer_add_entry (Some b) None = Some (Some b) \<and>
      aesd_circular_buffer_add_entry None (Some e) = Some None"
proof -
  have "full (cb_add b e) = (9 \<le> cb_count b)"
  proof (cases "full b")
    case True
    then show ?thesis by (simp add: cb_count_def cb_add_def)
  next
    case False
    note c = cb_count_add_not_full [OF assms False, of e] cb_not_full_count [OF assms False]
    show ?thesis
    proof (cases "full (cb_add b e)")
      case True
      then have "cb_count (cb_add b e) = 10" by (simp add: cb_count_def)
      with True c show ?thesis by simp
    next
      case nf: False
      with cb_not_full_count [OF cb_add_wf [OF assms] nf] c show ?thesis by simp
    qed
  qed
  then show ?thesis
    using add_entry_wf [OF assms] cb_add_wf [OF assms] cb_add_full [OF assms] cb_add_not_full [OF assms]
    by (simp add: aesd_circular_buffer_add_entry_def split: option.splits)
qed

section \<open>Searching\<close>

text \<open>
  C8. The search agrees with byte positions in the concatenation of the stored blocks: it returns
  null exactly for positions behind the last byte, and otherwise a stored entry and an offset
  inside it that hold the byte at the position.
\<close>

theorem find_entry_byte:
  assumes "cb_wf b" and "sum_list (map (\<lambda>e. unat (esize e)) (cb_entries b)) < 2 ^ 64"
    and "\<And>e. e \<in> set (cb_entries b) \<Longrightarrow> length (bytes e) = unat (esize e)"
  shows "\<exists>found. aesd_circular_buffer_find_entry_offset_for_fpos b pos = Some found \<and>
    (case found of
       None \<Rightarrow> length (concat (map bytes (cb_entries b))) \<le> unat pos
     | Some (i, r) \<Rightarrow> i < 10 \<and> entry b ! i \<in> set (cb_entries b) \<and> unat r < unat (esize (entry b ! i)) \<and>
         unat pos < length (concat (map bytes (cb_entries b))) \<and>
         concat (map bytes (cb_entries b)) ! unat pos = bytes (entry b ! i) ! unat r)"
proof -
  have total: "length (concat (map bytes (cb_entries b))) = sum_list (map (\<lambda>e. unat (esize e)) (cb_entries b))"
    using assms(3) by (simp add: length_concat comp_def cong: map_cong)
  obtain found where f: "aesd_circular_buffer_find_entry_offset_for_fpos b pos = Some found"
    using cb.find_locate [OF assms(1,2)] by blast
  show ?thesis
  proof (cases found)
    case None
    then show ?thesis using f cb.find_None_iff [OF assms(1,2), of pos] total by simp
  next
    case (Some ir)
    obtain i r where ir: "ir = (i, r)" by force
    from cb.find_Some [OF assms(1,2) f [unfolded Some ir] assms(3)] obtain k where
      k: "k < cb_count b" "i = cb_slot b k" "entry b ! i = cb_entries b ! k"
        "unat r < unat (esize (cb_entries b ! k))" "unat pos < length (concat (map bytes (cb_entries b)))"
        "concat (map bytes (cb_entries b)) ! unat pos = bytes (entry b ! i) ! unat r" by auto
    have "cb_entries b ! k \<in> set (cb_entries b)" using k(1) by simp
    with k f Some ir show ?thesis by simp
  qed
qed

theorem find_entry_byte_witness:
  "\<exists>i r. aesd_circular_buffer_find_entry_offset_for_fpos
     \<lparr>entry = \<lparr>buffptr = Ptr 7, esize = 3\<rparr> # replicate 9 null_entry, in_offs = 1, out_offs = 0, full = False\<rparr> 1 =
       Some (Some (i, r)) \<and> i < 10 \<and> ''abc'' ! unat r = CHR ''b''"
proof -
  let ?b = "\<lparr>entry = \<lparr>buffptr = Ptr 7, esize = 3\<rparr> # replicate 9 null_entry, in_offs = 1 :: u8, out_offs = 0 :: u8,
      full = False\<rparr>"
  have e: "cb_entries ?b = [\<lparr>buffptr = Ptr 7, esize = 3\<rparr>]"
    by (simp add: cb_entries_def cb_count_def cb_slot_def)
  have "cb_wf ?b" by (simp add: cb_wf_def)
  from find_entry_byte [OF this, where bytes = "\<lambda>_. ''abc''" and pos = 1, unfolded e] show ?thesis
    by (auto split: option.splits)
qed

end
