(* ===== verification/Command_Stream.thy ===== *)
theory Command_Stream
  imports Aesd_Write
begin

text \<open>
  The write specification on byte streams: the commands of a stream are its newline-terminated
  lines, and a sequence of writes, whatever the sizes of the blocks, leaves the last ten
  commands of the bytes it consumed.
\<close>

text \<open>The commands of a byte stream, and the bytes behind its last newline.\<close>

fun split_cmds :: "char list \<Rightarrow> char list list \<times> char list" where
  "split_cmds [] = ([], [])"
| "split_cmds (c # cs) = (case split_cmds cs of (cmds, rest) \<Rightarrow>
     if c = newline then ([newline] # cmds, rest)
     else case cmds of [] \<Rightarrow> ([], c # rest) | x # xs \<Rightarrow> ((c # x) # xs, rest))"

lemma split_cmds_line: "newline \<notin> set xs \<Longrightarrow> split_cmds (xs @ [newline] @ ys) =
    (case split_cmds ys of (cmds, rest) \<Rightarrow> ((xs @ [newline]) # cmds, rest))"
  by (induction xs) (auto split: prod.splits)

lemma split_cmds_rest: "newline \<notin> set xs \<Longrightarrow> split_cmds xs = ([], xs)"
  by (induction xs) auto

text \<open>The split loses nothing, and every command ends in its only newline.\<close>

lemma split_cmds_concat: "split_cmds xs = (cmds, rest) \<Longrightarrow> concat cmds @ rest = xs"
  by (induction xs arbitrary: cmds rest) (auto split: prod.splits list.splits if_splits)

text \<open>What the specification makes of the blocks.\<close>

lemma consumed_split:
  "consumed data = (if newline \<in> set data then takeWhile (\<lambda>c. c \<noteq> newline) data @ [newline] else data)"
  by (induction data) auto

lemma fold_spec_write:
  assumes "length log \<le> 10" and "newline \<notin> set pend"
  shows "fold (\<lambda>data st. spec_write st data) datas (log, pend) =
    (case split_cmds (pend @ concat (map consumed datas)) of
       (cmds, rest) \<Rightarrow> (last_n 10 (log @ cmds), rest))"
  using assms
proof (induction datas arbitrary: log pend)
  case Nil
  then show ?case by (simp add: split_cmds_rest last_n_all)
next
  case (Cons data datas)
  let ?rest = "concat (map consumed datas)"
  show ?case
  proof (cases "newline \<in> set data")
    case True
    let ?c = "pend @ takeWhile (\<lambda>c. c \<noteq> newline) data"
    have "newline \<notin> set ?c" using Cons.prems(2) by (auto dest: set_takeWhileD)
    then have "split_cmds (?c @ [newline] @ ?rest) =
        (case split_cmds ?rest of (cmds, rest) \<Rightarrow> ((?c @ [newline]) # cmds, rest))"
      by (rule split_cmds_line)
    moreover have "spec_write (log, pend) data = (last_n 10 (log @ [?c @ [newline]]), [])"
      using True by (simp add: spec_write_def consumed_split [of data])
    ultimately show ?thesis
      using Cons.IH [of "last_n 10 (log @ [?c @ [newline]])" "[]"] True
      by (simp add: consumed_split [of data] last_n_append_absorb split: prod.splits)
  next
    case False
    then show ?thesis
      using Cons.IH [of log "pend @ data"] Cons.prems by (simp add: spec_write_def consumed_split [of data])
  qed
qed

end
