(* ===== verification/Write_Properties.thy ===== *)
theory Write_Properties
  imports Aesd_System Buffer_Properties Command_Stream
begin

text \<open>
  The properties of the character driver, stated over the operations of \<open>Aesd_Write\<close>,
  \<open>Aesd_Read_Seek\<close>, \<open>Aesd_Module\<close> and the transition system of \<open>Aesd_System\<close>, with their
  witnesses on the concrete kernel of \<open>Kernel_Sim\<close>.
\<close>

section \<open>States for the witnesses\<close>

definition demo_state :: kstate where
  "demo_state = \<lparr>heap = Map.empty, umem = (\<lambda>_. CHR ''x''), aesd_device = zero_dev, overread = False, aesd_major = 0,
     aesd_minor = 0, regions = {}\<rparr>"

definition demo_file :: file_t where
  "demo_file = \<lparr>private_data = Aesd_device_ptr, f_pos = 0\<rparr>"

text \<open>Placing bytes at user address 0.\<close>

definition put :: "char list \<Rightarrow> kstate \<Rightarrow> kstate" where
  "put data s = s\<lparr>umem := umem_write (umem s) 0 data\<rparr>"

lemma put_simps [simp]:
  "heap (put data s) = heap s" "aesd_device (put data s) = aesd_device s"
  "umem_read (umem (put data s)) 0 (length data) = data"
  by (simp_all add: put_def umem_read_write)

lemma zero_dev_cdev: "zero_dev = zero_dev\<lparr>cdev := cdev zero_dev\<rparr>"
  by simp

lemmas zero_dev_simps = zero_dev_facts [where c = "cdev zero_dev", folded zero_dev_cdev]

lemma demo_simps [simp]:
  "heap demo_state = Map.empty" "aesd_device demo_state = zero_dev"
  "private_data demo_file = Aesd_device_ptr" "f_pos demo_file = 0"
  by (simp_all add: demo_state_def demo_file_def)

lemma demo_inv:
  "dev_inv (heap (put data demo_state)) (aesd_device (put data demo_state))"
  "dev_safe (heap (put data demo_state)) (aesd_device (put data demo_state))"
  "\<not> lock (aesd_device (put data demo_state))"
  "no_leak (heap (put data demo_state)) (aesd_device (put data demo_state))"
  using zero_dev_simps by (simp_all add: dev_inv_def no_leak_def)

section \<open>Writing\<close>

definition dev_abs :: "kstate \<Rightarrow> char list list \<times> char list" where
  "dev_abs s = (dev_log (heap s) (aesd_device s), dev_pending (heap s) (aesd_device s))"

lemma limit_sint: "n \<le> KMALLOC_LIMIT \<Longrightarrow> sint (word_of_nat n :: ssize_t) = int n"
  by (rule sint_word_of_nat_64) (simp add: KMALLOC_LIMIT_def)

lemma success_nonneg:
  "length data \<le> KMALLOC_LIMIT \<Longrightarrow> 0 \<le> sint (word_of_nat (length (consumed data)) :: ssize_t)"
  using length_consumed_le [of data] by (subst limit_sint) auto

text \<open>A write that reports success.\<close>

lemma write_ok_step:
  assumes "kernel_ok K" and "dev_inv (heap s) (aesd_device s)"
    and "private_data f = Aesd_device_ptr" and "\<not> lock (aesd_device s)"
    and w: "aesd_write K s (Some f) (Some ubuf) count pos = Some (s', pos', r)" and ok: "0 \<le> sint r"
  defines "data \<equiv> umem_read (umem s) ubuf (unat count)"
  shows "dev_inv (heap s') (aesd_device s')" and "\<not> lock (aesd_device s')"
    and "dev_abs s' = spec_write (dev_abs s) data" and "r = word_of_nat (length (consumed data))"
    and "pos' = pos + r" and "no_leak (heap s) (aesd_device s) \<Longrightarrow> no_leak (heap s') (aesd_device s')"
    and "buff_size (aesd_device s') = (if newline \<in> set data
       then buff_size (aesd_device s) + word_of_nat (length (dev_pending (heap s) (aesd_device s) @ consumed data))
       else buff_size (aesd_device s))"
proof -
  let ?d = "aesd_device s"
  have safe: "dev_safe (heap s) ?d" using assms(2) by (simp add: dev_inv_def)
  have "\<exists>p h2 h' d' over'. s' = s\<lparr>heap := h', aesd_device := d'\<lparr>lock := False\<rparr>, overread := over'\<rparr> \<and>
      r = word_of_nat (length (consumed data)) \<and> pos' = pos + r \<and> write_effect h2 ?d p data h' d' \<and>
      dom h2 = dom (heap s) \<union> tmp_addr p \<and> (\<forall>a. a \<in> owned ?d \<longrightarrow> h2 a = heap s a)"
    using assms(1) safe assms(3,4)
  proof (cases rule: aesd_write_cases [where count = count and ubuf = ubuf and pos = pos])
    case (success p h2 h' d' over')
    then show ?thesis using w unfolding data_def by simp metis
  qed (use w ok in auto)
  then obtain p h2 h' d' over' where e: "s' = s\<lparr>heap := h', aesd_device := d'\<lparr>lock := False\<rparr>, overread := over'\<rparr>"
      "r = word_of_nat (length (consumed data))" "pos' = pos + r" "write_effect h2 ?d p data h' d'"
      "dom h2 = dom (heap s) \<union> tmp_addr p" "\<And>a. a \<in> owned ?d \<Longrightarrow> h2 a = heap s a" by blast
  note T = effect_transfer [OF e(4,5,6)]
  have len: "word_of_nat (length (dev_pending (heap s) ?d)) = write_buffer_size ?d"
    using length_dev_pending [OF assms(2)] by (simp add: word_of_unat)
  show "dev_inv (heap s') (aesd_device s')" "\<not> lock (aesd_device s')"
    "dev_abs s' = spec_write (dev_abs s) data" "r = word_of_nat (length (consumed data))"
    "pos' = pos + r" "no_leak (heap s) ?d \<Longrightarrow> no_leak (heap s') (aesd_device s')"
    using e T assms(2) by (simp_all add: dev_abs_def)
  show "buff_size (aesd_device s') = (if newline \<in> set data
       then buff_size ?d + word_of_nat (length (dev_pending (heap s) ?d @ consumed data)) else buff_size ?d)"
    using e(1,4) len by (simp add: write_effect_def)
qed

text \<open>The kernel refuses a request of a write of \<open>count\<close> bytes at \<open>ubuf\<close>.\<close>

definition write_refused :: "kernel \<Rightarrow> kstate \<Rightarrow> nat \<Rightarrow> size_t \<Rightarrow> bool" where
  "write_refused K s ubuf count \<longleftrightarrow>
     snd (kmalloc K (heap s) count) = NULL \<or> snd (copy_from_user K (umem s) ubuf count) \<noteq> 0 \<or>
     snd (mutex_lock_interruptible K False) \<noteq> 0 \<or>
     (\<exists>h1 p h2. kmalloc K (heap s) count = (h1, p) \<and> mem_write h1 p 0 (umem_read (umem s) ubuf (unat count)) = Some h2 \<and>
        grow_refused K h2 (aesd_device s) count (length (consumed (umem_read (umem s) ubuf (unat count)))))"

text \<open>The device owns at most ten blocks of commands and one of an unfinished command.\<close>

lemma entry_addrs_card: "finite (entry_addrs b)" "card (entry_addrs b) \<le> 10"
proof -
  let ?f = "\<lambda>e. case buffptr e of Ptr a \<Rightarrow> a | _ \<Rightarrow> 0"
  have sub: "entry_addrs b \<subseteq> ?f ` set (cb_entries b)"
  proof
    fix a
    assume "a \<in> entry_addrs b"
    then obtain e where "e \<in> set (cb_entries b)" "buffptr e = Ptr a" by (auto simp: entry_addrs_def)
    then show "a \<in> ?f ` set (cb_entries b)" by (intro image_eqI [of _ _ e]) simp_all
  qed
  then show "finite (entry_addrs b)" by (rule finite_subset) simp
  have "card (entry_addrs b) \<le> card (?f ` set (cb_entries b))" using sub by (rule card_mono [rotated]) simp
  also have "\<dots> \<le> card (set (cb_entries b))" by (rule card_image_le) simp
  also have "\<dots> \<le> 10" using card_length [of "cb_entries b"] cb_count_le [of b] by simp
  finally show "card (entry_addrs b) \<le> 10" .
qed

lemma tmp_addr_card: "finite (tmp_addr p)" "card (tmp_addr p) \<le> 1"
  by (cases p; simp add: tmp_addr_def)+

lemma pend_addr_card: "finite (pend_addr d)" "card (pend_addr d) \<le> 1"
  using tmp_addr_card by (simp_all add: pend_addr_def)

lemma card_Un_add: "card A \<le> m \<Longrightarrow> card B \<le> n \<Longrightarrow> card (A \<union> B) \<le> m + n"
  using card_Un_le [of A B] by linarith

lemma unat_of_nat_add_le: "unat (word_of_nat n + x :: size_t) \<le> n + unat x"
proof -
  have "unat (word_of_nat n + x :: size_t) = (n mod 2 ^ 64 + unat x) mod 2 ^ 64"
    by (simp add: unat_word_ariths(1) unat_of_nat)
  also have "\<dots> \<le> n mod 2 ^ 64 + unat x" by (rule mod_less_eq_dividend)
  also have "\<dots> \<le> n + unat x" by simp
  finally show ?thesis .
qed

text \<open>A kernel with resources to spare never makes a write fail.\<close>

lemma write_granted:
  assumes K: "kernel_ok K" "grants R K" and inv: "dev_inv (heap s) (aesd_device s)" "no_leak (heap s) (aesd_device s)"
    and f: "private_data f = Aesd_device_ptr" and lk: "\<not> lock (aesd_device s)"
    and room: "length (dev_pending (heap s) (aesd_device s)) + unat count \<le> R"
  shows "\<exists>s' pos' r. aesd_write K s (Some f) (Some ubuf) count pos = Some (s', pos', r) \<and> 0 \<le> sint r"
proof -
  let ?d = "aesd_device s" and ?h = "heap s"
  have dom: "dom ?h = entry_addrs (buffer ?d) \<union> pend_addr ?d" using inv(2) by (simp add: no_leak_def owned_split)
  have small: "finite (dom ?h)" "card (dom ?h) \<le> 11"
    using entry_addrs_card pend_addr_card card_Un_add [of "entry_addrs (buffer ?d)" 10 "pend_addr ?d" 1] by (simp_all add: dom)
  have safe: "dev_safe ?h ?d" using inv(1) by (simp add: dev_inv_def)
  from K(1) safe f lk show ?thesis
  proof (cases rule: aesd_write_cases [where count = count and ubuf = ubuf and pos = pos])
    case (nomem_grow h1 p h2)
    let ?n = "length (consumed (umem_read (umem s) ubuf (unat count)))"
    have "\<not> grow_refused K h2 ?d count ?n"
    proof (cases "write_buffer_size ?d = 0")
      case True
      then have "dom h2 = entry_addrs (buffer ?d) \<union> tmp_addr p" using nomem_grow(4) dom by (simp add: pend_addr_def)
      then have "finite (dom h2)" "card (dom h2) \<le> 11"
        using entry_addrs_card tmp_addr_card card_Un_add [of "entry_addrs (buffer ?d)" 10 "tmp_addr p" 1] by simp_all
      then show ?thesis using True K(2) room by (simp add: grow_refused_def grants_def)
    next
      case False
      with inv(1) obtain a where a: "write_buffer ?d = Ptr a" "?h a \<noteq> None"
        by (auto simp: dev_inv_def dev_safe_def pending_safe_def elim: valid_blkE)
      then have "h2 a \<noteq> None" using nomem_grow(5) [of a] False by (simp add: owned_def)
      moreover have "?n \<le> unat count" using length_consumed_le [of "umem_read (umem s) ubuf (unat count)"] by simp
      then have "unat (word_of_nat ?n + write_buffer_size ?d) \<le> R"
        using room length_dev_pending [OF inv(1)] unat_of_nat_add_le [of ?n "write_buffer_size ?d"] by linarith
      ultimately show ?thesis using False a(1) K(2) by (simp add: grow_refused_def grants_def)
    qed
    with nomem_grow(6) show ?thesis by blast
  next
    case (success p h2 h' d' over')
    then show ?thesis using success_nonneg [OF success(5)] by simp
  qed (use K(2) small room in \<open>auto simp: grants_def\<close>)
qed

text \<open>
  C1. A write on an open file always returns. If it returns a non-negative number, that number
  is the length of the data up to and including its first newline, the file position advances
  by it, and the device changes as the specification says: the consumed bytes extend the
  unfinished command, and if they end in a newline the command is committed and only the last
  ten commands are kept. If it returns an error, neither the position nor the committed
  commands change, and the kernel has refused one of the four things a write asks for: memory for the copy, the
  copy from user space, the lock, or, on the heap that then holds the copy, memory for the command.
\<close>

theorem aesd_write_refines:
  assumes "kernel_ok K" and "dev_inv (heap s) (aesd_device s)"
    and "private_data f = Aesd_device_ptr" and "\<not> lock (aesd_device s)"
  shows "\<exists>s' pos' r. aesd_write K s (Some f) (Some ubuf) count pos = Some (s', pos', r) \<and>
    (if 0 \<le> sint r
     then r = word_of_nat (length (consumed (umem_read (umem s) ubuf (unat count)))) \<and>
          pos' = pos + r \<and> dev_inv (heap s') (aesd_device s') \<and>
          dev_abs s' = spec_write (dev_abs s) (umem_read (umem s) ubuf (unat count))
     else pos' = pos \<and> dev_log (heap s') (aesd_device s') = dev_log (heap s) (aesd_device s) \<and>
          write_refused K s ubuf count)"
proof -
  have safe: "dev_safe (heap s) (aesd_device s)" using assms(2) by (simp add: dev_inv_def)
  from assms(1) safe assms(3,4) show ?thesis
  proof (cases rule: aesd_write_cases [where count = count and ubuf = ubuf and pos = pos])
    case (intr p h2)
    have "dev_log h2 (aesd_device s) = dev_log (heap s) (aesd_device s)"
      using intr(3) by (rule dev_log_cong)
    with intr show ?thesis by (simp add: write_refused_def)
  next
    case (nomem_grow h1 p h2)
    then show ?thesis by (auto simp: dev_log_def write_refused_def)
  next
    case (success p h2 h' d' over')
    then show ?thesis
      using write_ok_step [OF assms success(1)] success_nonneg [OF success(5)] by simp
  qed (simp_all add: write_refused_def)
qed

theorem aesd_write_refines_witness:
  "\<exists>s' pos' r. aesd_write (sim_kernel False 0) (put ''ab\<newline>'' demo_state) (Some demo_file) (Some 0) 3 0 = Some (s', pos', r)"
  using aesd_write_refines [OF sim_kernel_ok demo_inv(1) demo_simps(3) demo_inv(3),
      where ubuf = 0 and count = 3 and pos = 0] by blast

section \<open>Streams of writes\<close>

text \<open>Writing a sequence of data blocks through one file, each placed at user address 0.\<close>

fun run_writes :: "kernel \<Rightarrow> kstate \<Rightarrow> file_t \<Rightarrow> loff_t \<Rightarrow> char list list \<Rightarrow>
    (kstate \<times> loff_t \<times> ssize_t list) option" where
  "run_writes K s f pos [] = Some (s, pos, [])"
| "run_writes K s f pos (data # rest) = do {
     (s1, pos1, r) \<leftarrow> aesd_write K (put data s) (Some f) (Some 0) (word_of_nat (length data)) pos;
     (s2, pos2, rs) \<leftarrow> run_writes K s1 f pos1 rest;
     Some (s2, pos2, r # rs)
   }"

lemma length_dev_log: "length (dev_log h d) \<le> 10"
  using cb_count_le by (simp add: dev_log_def)

lemma put_inv [simp]:
  "put [] s = s" "umem (put data s) = umem_write (umem s) 0 data" "dev_abs (put data s) = dev_abs s"
  by (simp_all add: put_def dev_abs_def)

lemma put_read: "length data < 2 ^ 64 \<Longrightarrow>
    umem_read (umem (put data s)) 0 (unat (word_of_nat (length data) :: size_t)) = data"
  by (simp add: unat_word_of_nat umem_read_write)

lemma run_writes_total:
  assumes "kernel_ok K" and "private_data f = Aesd_device_ptr"
  shows "dev_safe (heap s) (aesd_device s) \<Longrightarrow> \<not> lock (aesd_device s) \<Longrightarrow>
    \<exists>s' pos' rs. run_writes K s f pos datas = Some (s', pos', rs)"
proof (induction datas arbitrary: s pos)
  case (Cons data datas)
  from write_preserves [OF assms(1) _ assms(2), of "put data s" "Some 0" "word_of_nat (length data)" pos] Cons.prems
  obtain s1 pos1 r where w: "aesd_write K (put data s) (Some f) (Some 0) (word_of_nat (length data)) pos =
      Some (s1, pos1, r)" and "dev_safe (heap s1) (aesd_device s1)" "\<not> lock (aesd_device s1)" by auto
  with Cons.IH [of s1 pos1] show ?case by auto
qed simp

lemma run_writes_spec:
  assumes "kernel_ok K" and "private_data f = Aesd_device_ptr"
  shows "dev_inv (heap s) (aesd_device s) \<Longrightarrow> \<not> lock (aesd_device s) \<Longrightarrow>
    \<forall>data \<in> set datas. length data < 2 ^ 64 \<Longrightarrow> run_writes K s f pos datas = Some (s', pos', rs) \<Longrightarrow>
    \<forall>r \<in> set rs. 0 \<le> sint r \<Longrightarrow>
    dev_inv (heap s') (aesd_device s') \<and> rs = map (\<lambda>data. word_of_nat (length (consumed data))) datas \<and>
    dev_abs s' = fold (\<lambda>data st. spec_write st data) datas (dev_abs s)"
proof (induction datas arbitrary: s pos s' pos' rs)
  case (Cons data datas)
  from Cons.prems(4) obtain s1 pos1 r rs1 where
    w: "aesd_write K (put data s) (Some f) (Some 0) (word_of_nat (length data)) pos = Some (s1, pos1, r)"
    and rest: "run_writes K s1 f pos1 datas = Some (s', pos', rs1)" "rs = r # rs1"
    by (auto split: bind_splits)
  have "0 \<le> sint r" using Cons.prems(5) rest(2) by simp
  note S = write_ok_step [OF assms(1) _ assms(2) _ w this, simplified put_simps put_inv]
  have "umem_read (umem_write (umem s) 0 data) 0 (unat (word_of_nat (length data) :: size_t)) = data"
    using put_read [of data s] Cons.prems(3) by simp
  with S Cons.prems Cons.IH [OF _ _ _ rest(1)] rest(2) show ?case by simp
qed simp

lemmas demo_start = demo_inv [of "[]", unfolded put_inv]

lemmas sim_eval = sim_kernel_def sim_kmalloc_def sim_krealloc_def upt_rec umem_read_def umem_write_def
  aesd_write_def write_locked_def write_grow_def write_append_def write_commit_def write_unlock_def
  newline_loop.simps pdebug_def mem_read_def mem_write_def aesd_circular_buffer_add_entry_def Let_def
  aesd_circular_buffer_init_def null_entry_def put_def demo_state_def demo_file_def zero_dev_def

text \<open>
  C2. Writing any sequence of blocks to an open device returns, and if every call reports success
  then each call returned the number of bytes it consumed, and the device holds the last ten of the
  stored commands followed by the newline-terminated lines of all consumed bytes, and as unfinished
  command what follows the last newline. How the bytes are spread over the calls does not matter.
\<close>

theorem write_stream:
  assumes "kernel_ok K" and "dev_inv (heap s) (aesd_device s)"
    and "private_data f = Aesd_device_ptr" and "\<not> lock (aesd_device s)"
    and "newline \<notin> set (dev_pending (heap s) (aesd_device s))"
    and "\<forall>data \<in> set datas. length data < 2 ^ 64"
  shows "\<exists>s' pos' rs. run_writes K s f pos datas = Some (s', pos', rs) \<and>
    ((\<forall>r \<in> set rs. 0 \<le> sint r) \<longrightarrow>
      rs = map (\<lambda>data. word_of_nat (length (consumed data))) datas \<and>
      dev_abs s' =
        (case split_cmds (dev_pending (heap s) (aesd_device s) @ concat (map consumed datas)) of
           (cmds, rest) \<Rightarrow> (last_n 10 (dev_log (heap s) (aesd_device s) @ cmds), rest)))"
proof -
  have "dev_safe (heap s) (aesd_device s)" using assms(2) by (simp add: dev_inv_def)
  from run_writes_total [OF assms(1,3) this assms(4)] obtain s' pos' rs
    where r: "run_writes K s f pos datas = Some (s', pos', rs)" by blast
  with run_writes_spec [OF assms(1,3,2,4,6) r] fold_spec_write [OF length_dev_log assms(5)]
  show ?thesis by (simp add: dev_abs_def)
qed

theorem write_stream_witness:
  "\<exists>s'. run_writes (sim_kernel False 0) demo_state demo_file 0 [''ab'', ''c\<newline>d'', ''e''] = Some (s', 5, [2, 2, 1]) \<and>
     dev_abs s' = ([''abc\<newline>''], ''e'')"
proof -
  have run: "map_option (\<lambda>(s, pos, rs). (pos, rs))
      (run_writes (sim_kernel False 0) demo_state demo_file 0 [''ab'', ''c\<newline>d'', ''e'']) = Some (5, [2, 2, 1])"
    by (simp add: sim_eval)
  from write_stream [OF sim_kernel_ok demo_start(1) demo_simps(3) demo_start(3), where pos = 0,
      of "[''ab'', ''c\<newline>d'', ''e'']" False 0] run
  show ?thesis by (auto simp: zero_dev_simps last_n_def)
qed

section \<open>A device with one stored command\<close>


definition demo_written :: kstate where
  "demo_written = fst (the (aesd_write (sim_kernel False 0) (put ''ab\<newline>'' demo_state) (Some demo_file) (Some 0) 3 0))"

lemma demo_written_eq:
  "aesd_write (sim_kernel False 0) (put ''ab\<newline>'' demo_state) (Some demo_file) (Some 0) 3 0 =
     Some (demo_written, 3, 3)"
  "out_offs (buffer (aesd_device demo_written)) = 0"
  by (simp_all add: demo_written_def sim_eval)

lemma demo_written_facts:
  "dev_inv (heap demo_written) (aesd_device demo_written)"
  "dev_safe (heap demo_written) (aesd_device demo_written)"
  "\<not> lock (aesd_device demo_written)"
  "dev_log (heap demo_written) (aesd_device demo_written) = [''ab\<newline>'']"
  "dev_pending (heap demo_written) (aesd_device demo_written) = []"
  "no_leak (heap demo_written) (aesd_device demo_written)"
proof -
  have ok: "0 \<le> sint (3 :: ssize_t)" by simp
  note S = write_ok_step [OF sim_kernel_ok demo_inv(1) demo_simps(3) demo_inv(3) demo_written_eq(1) ok]
  have d: "umem_read (umem (put ''ab\<newline>'' demo_state)) 0 (unat (3 :: size_t)) = ''ab\<newline>''"
    using put_read [of "''ab\<newline>''" demo_state] by simp
  have "dev_abs demo_written = ([''ab\<newline>''], [])"
    using S(3) by (simp only: d) (simp add: spec_write_def dev_abs_def zero_dev_simps last_n_def)
  then show "dev_log (heap demo_written) (aesd_device demo_written) = [''ab\<newline>'']"
    "dev_pending (heap demo_written) (aesd_device demo_written) = []" by (simp_all add: dev_abs_def)
  show "no_leak (heap demo_written) (aesd_device demo_written)" using S(6) demo_inv(4) by blast
  show "dev_inv (heap demo_written) (aesd_device demo_written)" by (rule S(1))
  then show "dev_safe (heap demo_written) (aesd_device demo_written)" by (simp add: dev_inv_def)
  show "\<not> lock (aesd_device demo_written)" by (rule S(2))
qed

end
