(* ===== verification/Driver_Properties.thy ===== *)
theory Driver_Properties
  imports Write_Properties
begin

section \<open>Reading\<close>

text \<open>What a read transfers fits into its result.\<close>

lemma read_len_word:
  assumes "dev_safe h d"
  shows "sint (word_of_nat (read_len (dev_log h d) p n) :: ssize_t) = int (read_len (dev_log h d) p n)"
    "unat (word_of_nat (read_len (dev_log h d) p n) :: ssize_t) = read_len (dev_log h d) p n"
proof -
  have "read_len (dev_log h d) p n \<le> length (concat (dev_log h d))" using read_len_le(1) [of "dev_log h d" p n] by linarith
  then have "read_len (dev_log h d) p n < 2 ^ 63" using dev_log_total [OF assms] by linarith
  then show "sint (word_of_nat (read_len (dev_log h d) p n) :: ssize_t) = int (read_len (dev_log h d) p n)"
    "unat (word_of_nat (read_len (dev_log h d) p n) :: ssize_t) = read_len (dev_log h d) p n"
    by (simp_all add: sint_word_of_nat_64 unat_word_of_nat)
qed

text \<open>
  C6. A read on an open file always returns and leaves the device as it was. If it returns a
  non-negative number \<open>r\<close>, then \<open>r\<close> bytes, taken from the concatenation of the stored
  commands at the file position, are in the user's buffer, no other byte of user memory changed, the position advanced by \<open>r\<close>, and \<open>r\<close> is zero
  only at the end of the data or when no bytes are asked for. If it returns an error the
  position is unchanged, and the kernel has refused the lock or the copy to user space.
\<close>

theorem aesd_read_correct:
  assumes "kernel_ok K" and "dev_safe (heap s) (aesd_device s)"
    and "private_data f = Aesd_device_ptr" and "\<not> lock (aesd_device s)"
  shows "\<exists>s' pos' r. aesd_read K s (Some f) (Some ubuf) count pos = Some (s', pos', r) \<and>
    heap s' = heap s \<and> aesd_device s' = aesd_device s \<and>
    (if 0 \<le> sint r
     then unat r \<le> unat count \<and> pos' = pos + r \<and>
          umem s' = umem_write (umem s) ubuf
            (take (unat r) (drop (unat pos) (concat (dev_log (heap s) (aesd_device s))))) \<and>
          unat r \<le> length (concat (dev_log (heap s) (aesd_device s))) - unat pos \<and>
          (r = 0 \<longleftrightarrow> length (concat (dev_log (heap s) (aesd_device s))) \<le> unat pos \<or> count = 0)
     else pos' = pos \<and> (snd (mutex_lock_interruptible K False) \<noteq> 0 \<or> (\<exists>bytes. snd (copy_to_user K (umem s) ubuf bytes) \<noteq> 0)))"
proof -
  let ?log = "dev_log (heap s) (aesd_device s)"
  let ?n = "read_len ?log (unat pos) (unat count)"
  note n = read_len_word [OF assms(2), of "unat pos" "unat count"]
  have z: "(word_of_nat ?n :: ssize_t) = 0 \<longleftrightarrow> ?n = 0" using n(2) by (metis unat_eq_0)
  have c: "count = 0 \<longleftrightarrow> unat count = 0" by (simp add: unat_eq_0)
  from assms show ?thesis
  proof (cases rule: aesd_read_cases [where count = count and ubuf = ubuf and pos = pos])
    case success
    then show ?thesis
      using n z c read_len_le [of ?log "unat pos" "unat count"] read_len_zero [of ?log "unat pos" "unat count"]
      by simp
  qed auto
qed

theorem aesd_read_correct_witness:
  "\<exists>s'. aesd_read (sim_kernel False 0) demo_written (Some demo_file) (Some 0) 5 1 = Some (s', 3, 2) \<and>
     umem_read (umem s') 0 2 = ''b\<newline>''"
proof -
  let ?r = "aesd_read (sim_kernel False 0) demo_written (Some demo_file) (Some 0) 5 1"
  have r: "map_option (\<lambda>(s, pos, r). (pos, r)) ?r = Some (3, 2)"
    by (simp add: demo_written_def sim_eval aesd_read_def read_entry_def find_entry_loop.simps
        aesd_circular_buffer_find_entry_offset_for_fpos_def)
  have u: "umem_read (umem_write m 0 ''b\<newline>'') 0 2 = ''b\<newline>''" for m
    using umem_read_write [of m 0 "''b\<newline>''"] by (simp add: numeral_2_eq_2)
  from aesd_read_correct [OF sim_kernel_ok demo_written_facts(2) demo_simps(3) demo_written_facts(3),
      where ubuf = 0 and count = 5 and pos = 1, of False 0] r u
  show ?thesis by (auto simp: demo_written_facts(4))
qed

section \<open>Memory safety in every reachable state\<close>

text \<open>
  C3. In every state the driver can reach from loading the module, by any sequence of system calls on
  any number of files and with a kernel that may fail any request, every further read, write, seek or
  ioctl on an open file returns, and so does unloading the module: no access to memory by the statements of an operation
  is outside the blocks the driver owns or outside the slot array. The one exception are the messages a write prints with \<open>%s\<close>:
  a read, a seek, an ioctl and unloading read nothing they do not own, and a write does so at most if
  the bytes of its pointer variable have no zero byte, or if it completes a command that has none.
  The device lock is free between the operations, and at most ten commands are stored.
\<close>

theorem reachable_safe:
  assumes "dev_reachable S" and "kernel_ok K" and "files S fd = Some f"
  shows "(\<exists>s' pos r. aesd_read K (kst S) (Some f) buf count (f_pos f) = Some (s', pos, r) \<and>
      overread s' = overread (kst S)) \<and>
    (\<exists>s' pos r. aesd_write K (kst S) (Some f) buf count (f_pos f) = Some (s', pos, r) \<and>
      (overread s' \<longrightarrow> overread (kst S) \<or> message_overreads K (kst S) buf count)) \<and>
    (\<exists>f' r. aesd_llseek K (kst S) f offset whence = Some (kst S, f', r)) \<and>
    (\<exists>f' r. aesd_ioctl K (kst S) f cmd arg = Some (kst S, f', r)) \<and>
    (\<exists>s'. aesd_cleanup_module K (kst S) = Some s' \<and> overread s' = overread (kst S)) \<and>
    \<not> lock (aesd_device (kst S)) \<and> length (dev_log (heap (kst S)) (aesd_device (kst S))) \<le> 10"
proof (intro conjI)
  have inv: "dev_safe (heap (kst S)) (aesd_device (kst S))" "\<not> lock (aesd_device (kst S))"
    "private_data f = Aesd_device_ptr"
    using reachable_inv [OF assms(1)] assms(3) by (auto simp: sys_inv_def)
  show "\<exists>s' pos r. aesd_read K (kst S) (Some f) buf count (f_pos f) = Some (s', pos, r) \<and>
      overread s' = overread (kst S)"
    using read_preserves [OF assms(2) inv(1,3,2)] by blast
  show "\<exists>s' pos r. aesd_write K (kst S) (Some f) buf count (f_pos f) = Some (s', pos, r) \<and>
      (overread s' \<longrightarrow> overread (kst S) \<or> message_overreads K (kst S) buf count)"
    using write_preserves [OF assms(2) inv(1,3,2)] by blast
  show "\<exists>f' r. aesd_llseek K (kst S) f offset whence = Some (kst S, f', r)"
    using llseek_preserves [OF assms(2) inv(3,2)] by blast
  show "\<exists>f' r. aesd_ioctl K (kst S) f cmd arg = Some (kst S, f', r)"
    using ioctl_preserves [OF assms(2) inv(1,3,2)] by blast
  have "entries_ok (heap (kst S)) (buffer (aesd_device (kst S)))" using inv(1) by (simp add: dev_safe_def)
  from cleanup_dom [OF kernel_okD(3) [OF assms(2)] this]
  show "\<exists>s'. aesd_cleanup_module K (kst S) = Some s' \<and> overread s' = overread (kst S)"
    by (auto simp: aesd_cleanup_module_def Let_def split: bind_splits)
qed (use reachable_inv [OF assms(1)] length_dev_log in \<open>simp_all add: sys_inv_def\<close>)

text \<open>A loaded module with one open file.\<close>

definition demo_sys :: sys where
  "demo_sys = \<lparr>kst = fst (aesd_init_module (sim_kernel False 0) demo_state),
     files = [3 \<mapsto> fst (aesd_open fresh_file)]\<rparr>"

lemma demo_sys_reachable: "dev_reachable demo_sys"
proof -
  let ?s = "fst (aesd_init_module (sim_kernel False 0) demo_state)"
  have "aesd_init_module (sim_kernel False 0) demo_state = (?s, 0)"
    by (simp add: aesd_init_module_def aesd_setup_cdev_def sim_kernel_def Let_def)
  then have "dev_reachable \<lparr>kst = ?s, files = Map.empty\<rparr>"
    by (rule reach_init) (simp add: sim_kernel_def)
  moreover have "dev_step \<lparr>kst = ?s, files = Map.empty\<rparr> demo_sys"
    using step_open [of "\<lparr>kst = ?s, files = Map.empty\<rparr>" 3] by (simp add: demo_sys_def)
  ultimately show ?thesis by (rule reach_step)
qed

theorem reachable_safe_witness:
  "\<exists>s' pos r. aesd_write (sim_kernel True 0) (kst demo_sys) (Some (fst (aesd_open fresh_file))) (Some 0) 3 0 = Some (s', pos, r) \<and>
     \<not> overread s'"
proof -
  have "umem (kst demo_sys) = (\<lambda>_. CHR ''x'')" "\<not> overread (kst demo_sys)"
    by (simp_all add: demo_sys_def aesd_init_module_def aesd_setup_cdev_def sim_kernel_def Let_def demo_state_def)
  then have "\<not> overread (kst demo_sys) \<and> \<not> message_overreads (sim_kernel True 0) (kst demo_sys) (Some 0) 3"
    by (auto simp: message_overreads_def umem_read_def sim_kernel_def)
  then show ?thesis
    using reachable_safe [OF demo_sys_reachable sim_kernel_ok, of 3 "fst (aesd_open fresh_file)" True 0 "Some 0" 3]
    by (simp add: demo_sys_def aesd_open_def fresh_file_def)
qed

section \<open>Errors and memory leaks of a write\<close>





section \<open>Seeking\<close>

lemma seek_slice:
  assumes "c < length log" and "off < length (log ! c)"
    and "p = sum_list (map length (take c log)) + off"
  shows "take (read_len log p n) (drop p (concat log)) = take n (drop off (log ! c))"
    and "read_len log p n = min (length (log ! c) - off) n"
proof -
  have l: "locate (map length log) p = Some (c, off)"
    using locate_SomeI [of c "map length log" off] assms by (simp add: take_map)
  then show r: "read_len log p n = min (length (log ! c) - off) n" by (simp add: read_len_def)
  have "take (read_len log p n) (drop off (log ! c)) = take (read_len log p n) (drop p (concat log))"
    using l assms(2) r by (intro locate_slice) auto
  moreover have "take (read_len log p n) (drop off (log ! c)) = take n (drop off (log ! c))"
    by (simp add: r min_def)
  ultimately show "take (read_len log p n) (drop p (concat log)) = take n (drop off (log ! c))" by simp
qed

text \<open>A read at a position inside command number \<open>c\<close> returns the rest of that command.\<close>

lemma read_in_command:
  assumes "kernel_ok K" and "dev_safe (heap s) (aesd_device s)" and "private_data f = Aesd_device_ptr"
    and "\<not> lock (aesd_device s)"
  defines "log \<equiv> dev_log (heap s) (aesd_device s)"
  assumes "c < length log" and "off < length (log ! c)" and "unat pos = sum_list (map length (take c log)) + off"
  shows "\<exists>s' pos' r. aesd_read K s (Some f) (Some ubuf) count pos = Some (s', pos', r) \<and>
    (0 \<le> sint r \<longrightarrow> unat r = min (length (log ! c) - off) (unat count) \<and>
       umem s' = umem_write (umem s) ubuf (take (unat count) (drop off (log ! c))))"
proof -
  note sl = seek_slice [OF assms(6-8), of "unat count"]
  have "min (length (log ! c) - off) (unat count) \<le> length (concat log)"
    using sl(2) read_len_le(1) [of log "unat pos" "unat count"] by linarith
  then have small: "min (length (log ! c) - off) (unat count) < 2 ^ 63"
    using dev_log_total [OF assms(2)] by (simp add: log_def)
  from assms(1-4) show ?thesis
  proof (cases rule: aesd_read_cases [where count = count and ubuf = ubuf and pos = pos])
    case success
    then show ?thesis using sl small by (simp add: log_def unat_word_of_nat)
  qed simp_all
qed

text \<open>The seek ioctl: the copy of the command, then the seek.\<close>

lemma ioctl_seek_eq:
  assumes "kernel_ok K"
    and "seekto_of_bytes K (umem_read (umem s) arg 8) = \<lparr>write_cmd = cmd, write_cmd_offset = off\<rparr>"
  shows "aesd_ioctl K s f (AESDCHAR_IOCSEEKTO K) arg =
    (if snd (copy_from_user K (umem s) arg 8) \<noteq> 0 then Some (s, f, - EFAULT)
     else aesd_adjust_file_offset K s f cmd off)"
proof -
  obtain bytes left where cp: "copy_from_user K (umem s) arg 8 = (bytes, left)" by force
  have "left = 0 \<Longrightarrow> bytes = umem_read (umem s) arg 8"
    using copy_from_userD(2) [OF kernel_okD(4) [OF assms(1)] cp] by simp
  moreover have "IOC_TYPE K (AESDCHAR_IOCSEEKTO K) = AESD_IOC_MAGIC" "IOC_NR K (AESDCHAR_IOCSEEKTO K) = 1"
    using kernel_okD(7) [OF assms(1)] by (simp_all add: ioc_ok_def AESDCHAR_IOCSEEKTO_def)
  ultimately show ?thesis using cp assms(2) by (simp add: aesd_ioctl_def)
qed

text \<open>The outcomes of the seek ioctl on a device that has not wrapped around.\<close>

lemma ioctl_unwrapped_cases:
  assumes "kernel_ok K" and "dev_safe (heap s) (aesd_device s)" and "private_data f = Aesd_device_ptr"
    and "\<not> lock (aesd_device s)" and "out_offs (buffer (aesd_device s)) = 0"
    and cmd: "seekto_of_bytes K (umem_read (umem s) arg 8) = \<lparr>write_cmd = cmd, write_cmd_offset = off\<rparr>"
  defines "log \<equiv> dev_log (heap s) (aesd_device s)"
  obtains (refused) r where "aesd_ioctl K s f (AESDCHAR_IOCSEEKTO K) arg = Some (s, f, r)"
      "r = - EFAULT \<and> snd (copy_from_user K (umem s) arg 8) \<noteq> 0 \<or>
       r = - ERESTARTSYS \<and> snd (mutex_lock_interruptible K False) \<noteq> 0 \<or>
       r = - EINVAL \<and> \<not> (unat cmd < length log \<and> unat off < length (log ! unat cmd))"
  | (moved) p where "aesd_ioctl K s f (AESDCHAR_IOCSEEKTO K) arg = Some (s, f\<lparr>f_pos := p\<rparr>, 0)"
      "unat cmd < length log" "unat off < length (log ! unat cmd)"
      "unat p = sum_list (map length (take (unat cmd) log)) + unat off"
proof -
  note io = ioctl_seek_eq [OF assms(1) cmd, of f]
  show thesis
  proof (cases "snd (copy_from_user K (umem s) arg 8) = 0")
    case True
    from assms(1-5) show thesis
      by (cases rule: adjust_unwrapped_cases [where cmd = cmd and off = off])
        (use True io in \<open>auto simp: log_def intro: refused moved\<close>)
  qed (use io in \<open>auto intro: refused\<close>)
qed

text \<open>
  C9. The seek command, as long as no command was displaced. It succeeds exactly for a stored
  command number and an offset inside that command, and then puts the file position on that
  byte of the concatenated commands; a read at the new position returns the rest of that command,
  as far as the buffer reaches. Otherwise the file is unchanged and the result is an error, which is \<open>- EINVAL\<close> only
  if there is no such byte, and else says that the command could not be copied from user space or the wait for the lock was interrupted.
\<close>

theorem ioctl_seek_then_read:
  assumes "kernel_ok K" and "dev_safe (heap s) (aesd_device s)" and "private_data f = Aesd_device_ptr"
    and "\<not> lock (aesd_device s)" and "out_offs (buffer (aesd_device s)) = 0"
    and "log = dev_log (heap s) (aesd_device s)"
    and "seekto_of_bytes K (umem_read (umem s) arg 8) = \<lparr>write_cmd = cmd, write_cmd_offset = off\<rparr>"
  shows "\<exists>f' r. aesd_ioctl K s f (AESDCHAR_IOCSEEKTO K) arg = Some (s, f', r) \<and>
    (if r = 0
     then unat cmd < length log \<and> unat off < length (log ! unat cmd) \<and>
          unat (f_pos f') = length (concat (take (unat cmd) log)) + unat off \<and>
          (\<exists>s' pos' r'. aesd_read K s (Some f') (Some ubuf) count (f_pos f') = Some (s', pos', r') \<and>
            (0 \<le> sint r' \<longrightarrow> unat r' = min (length (log ! unat cmd) - unat off) (unat count) \<and>
               umem s' = umem_write (umem s) ubuf (take (unat count) (drop (unat off) (log ! unat cmd)))))
     else f' = f \<and>
       (r = - EFAULT \<and> snd (copy_from_user K (umem s) arg 8) \<noteq> 0 \<or>
        r = - ERESTARTSYS \<and> snd (mutex_lock_interruptible K False) \<noteq> 0 \<or>
        r = - EINVAL \<and> \<not> (unat cmd < length log \<and> unat off < length (log ! unat cmd))))"
proof -
  from assms(1-5,7) show ?thesis
  proof (cases rule: ioctl_unwrapped_cases)
    case (moved p)
    have "private_data (f\<lparr>f_pos := p\<rparr>) = Aesd_device_ptr" using assms(3) by simp
    from read_in_command [OF assms(1,2) this assms(4) moved(2-4), of ubuf count]
    show ?thesis using moved by (simp add: assms(6) length_concat)
  qed (auto simp: assms(6))
qed

text \<open>The memory of a \<open>struct aesd_seekto\<close> that names byte 1 of command 0.\<close>

definition seek_bytes :: "char list" where
  "seek_bytes = [CHR 0x00, CHR 0x00, CHR 0x00, CHR 0x00, CHR 0x01, CHR 0x00, CHR 0x00, CHR 0x00]"

theorem ioctl_seek_then_read_witness:
  "\<exists>f' r. aesd_ioctl (sim_kernel False 0) (put seek_bytes demo_written)
       demo_file (AESDCHAR_IOCSEEKTO (sim_kernel False 0)) 0 =
     Some (put seek_bytes demo_written, f', r) \<and>
     (if r = 0 then unat (f_pos f') = 1 else f' = demo_file)"
proof -
  let ?s = "put seek_bytes demo_written"
  have w: "seekto_of_bytes (sim_kernel False 0) (umem_read (umem ?s) 0 8) = \<lparr>write_cmd = 0, write_cmd_offset = 1\<rparr>"
    using put_read [of seek_bytes demo_written] by (simp add: sim_kernel_def sim_u32_def seek_bytes_def)
  have "dev_safe (heap ?s) (aesd_device ?s)" "\<not> lock (aesd_device ?s)" "out_offs (buffer (aesd_device ?s)) = 0"
    "[''ab\<newline>''] = dev_log (heap ?s) (aesd_device ?s)"
    using demo_written_facts demo_written_eq(2) by simp_all
  from ioctl_seek_then_read [OF sim_kernel_ok this(1) demo_simps(3) this(2-4) w, where ubuf = 0 and count = 5]
  obtain f' r where io: "aesd_ioctl (sim_kernel False 0) ?s demo_file (AESDCHAR_IOCSEEKTO (sim_kernel False 0)) 0 =
      Some (?s, f', r)" "if r = 0 then unat (f_pos f') = 1 else f' = demo_file" by (auto split: if_splits)
  then show ?thesis by blast
qed

section \<open>The recorded size, and seeking by position\<close>

text \<open>
  As long as fewer than ten commands are stored none was displaced, so the array order is the order
  of the commands and \<open>buff_size\<close> is their total length.
\<close>

definition size_inv :: "kstate \<Rightarrow> bool" where
  "size_inv s \<longleftrightarrow> (\<not> full (buffer (aesd_device s)) \<longrightarrow> out_offs (buffer (aesd_device s)) = 0 \<and>
     buff_size (aesd_device s) = word_of_nat (length (concat (dev_log (heap s) (aesd_device s)))))"

lemma size_inv_same:
  "aesd_device s' = aesd_device s \<Longrightarrow> heap s' = heap s \<Longrightarrow> size_inv s' = size_inv s"
  by (simp add: size_inv_def)

lemma size_inv_effect:
  assumes "size_inv s" and E: "write_effect h2 (aesd_device s) p data h' d'"
    and same: "\<And>a. a \<in> owned (aesd_device s) \<Longrightarrow> h2 a = heap s a"
  shows "size_inv (s\<lparr>heap := h', aesd_device := d'\<lparr>lock := False\<rparr>, overread := over'\<rparr>)"
proof (cases "full (buffer d')")
  case False
  let ?d = "aesd_device s" and ?log = "dev_log (heap s) (aesd_device s)"
  have nf: "\<not> full (buffer ?d)" "out_offs (buffer d') = out_offs (buffer ?d)"
    using False E by (auto simp: write_effect_def)
  have S: "out_offs (buffer ?d) = 0" "buff_size ?d = word_of_nat (length (concat ?log))"
    using assms(1) nf(1) by (simp_all add: size_inv_def)
  obtain pre where pre: "length pre = unat (write_buffer_size ?d)"
    and log: "(dev_log h' d', dev_pending h' d') = spec_write (dev_log h2 ?d, pre) data"
    using E by (auto simp: write_effect_def)
  have l2: "dev_log h2 ?d = ?log" using same by (rule dev_log_cong)
  have nf': "length (dev_log h' d') < 10"
  proof -
    have "cb_wf (buffer d')" using E by (simp add: write_effect_def dev_inv_def dev_safe_def entries_ok_def)
    then show ?thesis using False cb_not_full_count by (simp add: dev_log_def)
  qed
  have w: "write_buffer_size ?d = word_of_nat (length pre)" using pre by (simp add: word_of_unat)
  have bs: "buff_size d' = (if newline \<in> set data
      then buff_size ?d + (write_buffer_size ?d + word_of_nat (length (consumed data))) else buff_size ?d)"
    using E by (simp add: write_effect_def)
  show ?thesis
  proof (cases "newline \<in> set data")
    case True
    then have log': "dev_log h' d' = last_n 10 (?log @ [pre @ consumed data])"
      using log l2 by (simp add: spec_write_def)
    with nf' have "length (?log @ [pre @ consumed data]) \<le> 10" by (simp split: if_splits)
    then have "dev_log h' d' = ?log @ [pre @ consumed data]" using log' by (simp only: last_n_all)
    then show ?thesis using True bs S nf(2) w by (simp add: size_inv_def add.assoc)
  next
    case no: False
    then show ?thesis using log l2 bs S nf(2) by (simp add: size_inv_def spec_write_def)
  qed
qed (simp add: size_inv_def)

lemma size_inv_write:
  assumes "kernel_ok K" "dev_safe (heap s) (aesd_device s)" "private_data f = Aesd_device_ptr"
    "\<not> lock (aesd_device s)" "size_inv s"
    and w: "aesd_write K s (Some f) buf count pos = Some (s', pos', r)"
  shows "size_inv s'"
proof (cases buf)
  case (Some ub)
  from assms(1-4) show ?thesis
  proof (cases rule: aesd_write_cases [where count = count and ubuf = ub and pos = pos])
    case (intr p h2)
    then show ?thesis
      using w Some assms(5) dev_log_cong [OF intr(3)] by (auto simp: size_inv_def)
  next
    case (nomem_grow h1 p h2)
    then show ?thesis using w Some assms(5) by (auto simp: size_inv_def dev_log_def)
  next
    case (success p h2 h' d' over')
    then show ?thesis using w Some size_inv_effect [OF assms(5) success(2,4)] by auto
  qed (use w Some assms(5) in auto)
qed (use w assms(5) in \<open>simp add: aesd_write_null\<close>)

lemma reachable_size_inv: "dev_reachable S \<Longrightarrow> size_inv (kst S)"
proof (induction rule: dev_reachable.induct)
  case (reach_init K s s')
  from init_device [OF reach_init] obtain c where "aesd_device s' = zero_dev\<lparr>cdev := c\<rparr>" by blast
  then show ?case using zero_dev_facts(2,6,7) [where c = c] by (simp add: size_inv_def)
next
  case (reach_step S S')
  note I = reachable_inv [OF reach_step(1)]
  from reach_step(2,3) I show ?case
  proof (induction rule: dev_step.induct)
    case (step_read K S fd f buf count s' pos r)
    then show ?case using read_preserves [of K "kst S" f buf count "f_pos f"]
      by (auto simp: sys_inv_def size_inv_def)
  next
    case (step_write K S fd f buf count s' pos r)
    then show ?case using size_inv_write [of K "kst S" f] by (auto simp: sys_inv_def)
  next
    case (step_llseek K S fd f offset whence s' f' r)
    then show ?case using llseek_preserves [of K f "kst S" offset whence] by (auto simp: sys_inv_def)
  next
    case (step_ioctl K S fd f cmd arg s' f' r)
    then show ?case using ioctl_preserves [of K "kst S" f cmd arg] by (auto simp: sys_inv_def)
  qed (simp_all add: size_inv_def)
qed

text \<open>
  C16. In every reachable state with fewer than ten stored commands, a seek by position on an
  open file returns and changes nothing but the file position; after a success the position is the
  result and lies within the stored bytes unless it did not move, after an error it is unchanged.
\<close>

theorem llseek_within_data:
  assumes "dev_reachable S" and "kernel_ok K" and "files S fd = Some f"
    and "length (dev_log (heap (kst S)) (aesd_device (kst S))) < 10"
  shows "\<exists>f' r. aesd_llseek K (kst S) f offset whence = Some (kst S, f', r) \<and>
    (if sint r < 0 then f' = f
     else f' = f\<lparr>f_pos := r\<rparr> \<and>
       (sint r \<le> int (length (concat (dev_log (heap (kst S)) (aesd_device (kst S))))) \<or> f' = f))"
proof -
  let ?s = "kst S"
  have inv: "dev_safe (heap ?s) (aesd_device ?s)" "\<not> lock (aesd_device ?s)" "private_data f = Aesd_device_ptr"
    using reachable_inv [OF assms(1)] assms(3) by (auto simp: sys_inv_def)
  have "\<not> full (buffer (aesd_device ?s))" using assms(4) by (auto simp: dev_log_def cb_count_def)
  then have b: "sint (buff_size (aesd_device ?s)) = int (length (concat (dev_log (heap ?s) (aesd_device ?s))))"
    using reachable_size_inv [OF assms(1)] dev_log_total [OF inv(1)]
    by (simp add: size_inv_def sint_word_of_nat_64)
  obtain l r where mx: "mutex_lock_interruptible K (lock (aesd_device ?s)) = (l, r)" by force
  note M = mutex_lockD [OF kernel_okD(5) [OF assms(2)] mx]
    and U = mutex_unlockD [OF kernel_okD(5) [OF assms(2)]]
  obtain p v where fs: "fixed_size_llseek K (f_pos f) offset whence (buff_size (aesd_device ?s)) = (p, v)" by force
  have L: "if sint v < 0 then p = f_pos f
      else p = v \<and> (sint v \<le> sint (buff_size (aesd_device ?s)) \<or> p = f_pos f)"
    using kernel_okD(6) [OF assms(2)] fs unfolding llseek_ok_def by blast
  show ?thesis
  proof (cases "r = 0")
    case True
    then have "aesd_llseek K ?s f offset whence = Some (?s, f\<lparr>f_pos := p\<rparr>, v)"
      using mx M(1) U inv(2,3) fs by (simp add: aesd_llseek_def)
    then show ?thesis using L b by (cases "sint v < 0") auto
  qed (use mx M(2) inv(2) in \<open>simp add: aesd_llseek_def\<close>)
qed

theorem llseek_within_data_witness:
  "aesd_llseek (sim_kernel False 0) (kst demo_sys) (fst (aesd_open fresh_file)) 7 0 =
     Some (kst demo_sys, fst (aesd_open fresh_file), - EINVAL)"
proof -
  have d: "aesd_device (kst demo_sys) = zero_dev\<lparr>cdev := cdev (aesd_device (kst demo_sys))\<rparr>"
    by (simp add: demo_sys_def aesd_init_module_def aesd_setup_cdev_def sim_kernel_def Let_def zero_dev_def)
  then have l: "dev_log (heap (kst demo_sys)) (aesd_device (kst demo_sys)) = []"
    by (metis zero_dev_facts(2))
  have "buff_size (aesd_device (kst demo_sys)) = 0" by (subst d) (simp add: zero_dev_def)
  then have r: "map_option (\<lambda>(s, f, r). r)
      (aesd_llseek (sim_kernel False 0) (kst demo_sys) (fst (aesd_open fresh_file)) 7 0) = Some (- EINVAL)"
    by (simp add: aesd_llseek_def sim_kernel_def sim_llseek_def aesd_open_def)
  have f: "files demo_sys 3 = Some (fst (aesd_open fresh_file))" by (simp add: demo_sys_def)
  from llseek_within_data [OF demo_sys_reachable sim_kernel_ok f, of False 0 7 0] l r
  show ?thesis by auto
qed

section \<open>Other ioctl commands\<close>

text \<open>
  Every ioctl command other than \<open>AESDCHAR_IOCSEEKTO\<close> is refused with \<open>ENOTTY\<close>, whether its type
  and number are foreign or only its direction or size differ, and changes nothing; a null buffer or file is refused by read and write with
  \<open>EINVAL\<close>.
\<close>

lemma requests_refused:
  assumes "cmd \<noteq> AESDCHAR_IOCSEEKTO K"
  shows "aesd_ioctl K s f cmd arg = Some (s, f, - ENOTTY) \<and>
    aesd_read K s filp None count pos = Some (s, pos, - EINVAL) \<and>
    aesd_read K s None buf count pos = Some (s, pos, - EINVAL) \<and>
    aesd_write K s filp None count pos = Some (s, pos, - EINVAL) \<and>
    aesd_write K s None buf count pos = Some (s, pos, - EINVAL)"
  using assms by (auto simp: aesd_ioctl_def aesd_read_def aesd_write_def split: option.splits)

section \<open>Loading and unloading\<close>

text \<open>
  C18. Loading the module: if no device number is available the error is returned and neither device nor
  registrations change; otherwise the device is empty, unlocked and without allocated memory, and
  exactly on success it is registered with the driver's operations and keeps its device number.
\<close>

theorem init_module_correct:
  "case aesd_init_module K s of (s', r) \<Rightarrow>
     case alloc_chrdev_region K (aesd_minor s) of (dev, result) \<Rightarrow>
       heap s' = heap s \<and> aesd_major s' = MAJOR K dev \<and>
       (if result < 0
        then r = result \<and> aesd_device s' = aesd_device s \<and> regions s' = regions s
        else dev_inv (heap s') (aesd_device s') \<and> dev_abs s' = ([], []) \<and> owned (aesd_device s') = {} \<and>
          \<not> lock (aesd_device s') \<and> buff_size (aesd_device s') = 0 \<and> cdev_ops (cdev (aesd_device s')) = Aesd_fops \<and>
          (if r = 0
           then regions s' = insert dev (regions s) \<and>
             cdev_dev (cdev (aesd_device s')) = Some (MKDEV K (aesd_major s') (aesd_minor s'))
           else regions s' = regions s - {dev} \<and> cdev_dev (cdev (aesd_device s')) = None))"
proof -
  obtain s' r where i: "aesd_init_module K s = (s', r)" by force
  obtain dev result where a: "alloc_chrdev_region K (aesd_minor s) = (dev, result)" by force
  show ?thesis
  proof (cases "result < 0")
    case True
    then show ?thesis using i a by (auto simp: aesd_init_module_def)
  next
    case False
    from init_device [OF i] a False obtain c where c: "aesd_device s' = zero_dev\<lparr>cdev := c\<rparr>" and "heap s' = heap s"
      by auto
    moreover note zero_dev_facts [where c = c, folded c]
    moreover have "aesd_major s' = MAJOR K dev" "cdev_ops (cdev (aesd_device s')) = Aesd_fops"
      "if r = 0 then regions s' = insert dev (regions s) \<and>
         cdev_dev (cdev (aesd_device s')) = Some (MKDEV K (aesd_major s') (aesd_minor s'))
       else regions s' = regions s - {dev} \<and> cdev_dev (cdev (aesd_device s')) = None"
      using i a False by (auto simp: aesd_init_module_def aesd_setup_cdev_def Let_def split: if_splits)
    ultimately show ?thesis using i a False by (simp add: dev_abs_def)
  qed
qed

text \<open>
  C17. Unloading the module is memory safe and gives back the device number. It releases exactly the
  blocks of the stored commands: if the driver had lost no memory, everything it allocated is
  released exactly when there is no unfinished command, whose block would stay allocated.
\<close>

theorem cleanup_module_correct:
  assumes "kernel_ok K" and "dev_inv (heap s) (aesd_device s)" and "no_leak (heap s) (aesd_device s)"
  shows "\<exists>s'. aesd_cleanup_module K s = Some s' \<and>
    regions s' = regions s - {MKDEV K (aesd_major s) (aesd_minor s)} \<and>
    cdev_dev (cdev (aesd_device s')) = None \<and>
    dom (heap s') = {a. write_buffer_size (aesd_device s) \<noteq> 0 \<and> write_buffer (aesd_device s) = Ptr a} \<and>
    (heap s' = Map.empty \<longleftrightarrow> dev_pending (heap s) (aesd_device s) = [])"
proof -
  let ?d = "aesd_device s"
  have safe: "dev_safe (heap s) ?d" using assms(2) by (simp add: dev_inv_def)
  then have "entries_ok (heap s) (buffer ?d)" by (simp add: dev_safe_def)
  from cleanup_dom [OF kernel_okD(3) [OF assms(1)] this] obtain s' where
    s': "aesd_cleanup_module K s = Some s'" "dom (heap s') = dom (heap s) - entry_addrs (buffer ?d)" by blast
  have "regions s' = regions s - {MKDEV K (aesd_major s) (aesd_minor s)} \<and> cdev_dev (cdev (aesd_device s')) = None"
    using s'(1) by (auto simp: aesd_cleanup_module_def Let_def split: bind_splits)
  moreover have "pend_addr ?d \<inter> entry_addrs (buffer ?d) = {}"
    using safe by (auto simp: dev_safe_def pending_safe_def pend_addr_def tmp_addr_def entry_addrs_def)
  then have d: "dom (heap s') = pend_addr ?d"
    using s'(2) assms(3) by (auto simp: no_leak_def owned_split)
  moreover have "pend_addr ?d = {} \<longleftrightarrow> write_buffer_size ?d = 0"
    using assms(2) by (auto simp: dev_inv_def dev_safe_def pending_safe_def pend_addr_def tmp_addr_def valid_blk_def)
  moreover have "dev_pending (heap s) ?d = [] \<longleftrightarrow> write_buffer_size ?d = 0"
    using length_dev_pending [OF assms(2)] by (metis length_0_conv unat_eq_0)
  ultimately show ?thesis using s'(1) by (auto simp: pend_addr_def tmp_addr_def)
qed

theorem cleanup_module_correct_witness:
  "\<exists>s'. aesd_cleanup_module (sim_kernel False 0) demo_written = Some s' \<and> heap s' = Map.empty"
  using cleanup_module_correct [OF sim_kernel_ok demo_written_facts(1,6), of False 0] demo_written_facts(5) by auto

section \<open>Results of the file operations\<close>

lemma adjust_results:
  assumes "aesd_adjust_file_offset K s f cmd off = Some (s', f', r)"
  shows "r \<in> {0, - ERESTARTSYS, - EINVAL} \<and> (r \<noteq> 0 \<longrightarrow> f' = f)"
  using assms by (auto simp: aesd_adjust_file_offset_def Let_def case_prod_beta split: if_splits bind_splits dev_ptr.splits option.splits)

lemma ioctl_results:
  assumes "aesd_ioctl K s f cmd arg = Some (s', f', r)"
  shows "r \<in> {0, - ENOTTY, - EFAULT, - ERESTARTSYS, - EINVAL} \<and> (r \<noteq> 0 \<longrightarrow> f' = f)"
  using assms by (auto simp: aesd_ioctl_def Let_def case_prod_beta split: if_splits dest: adjust_results)

lemma nonneg_no_error: "0 \<le> sint (r :: ssize_t) \<Longrightarrow> r \<notin> {- EINVAL, - ERESTARTSYS, - EFAULT, - ENOMEM}"
  by auto

lemma read_result:
  assumes "kernel_ok K" and "dev_safe (heap s) (aesd_device s)"
    and "private_data f = Aesd_device_ptr" and "\<not> lock (aesd_device s)"
  shows "\<exists>s' pos' r. aesd_read K s (Some f) buf count pos = Some (s', pos', r) \<and>
      (if r \<in> {- EINVAL, - ERESTARTSYS, - EFAULT} then pos' = pos else 0 \<le> sint r \<and> unat r \<le> unat count \<and> pos' = pos + r)"
proof (cases buf)
  case (Some ub)
  let ?log = "dev_log (heap s) (aesd_device s)"
  let ?n = "read_len ?log (unat pos) (unat count)"
  note n = read_len_word [OF assms(2), of "unat pos" "unat count"]
  from assms show ?thesis
  proof (cases rule: aesd_read_cases [where count = count and ubuf = ub and pos = pos])
    case success
    then show ?thesis using Some n nonneg_no_error [of "word_of_nat ?n"] read_len_le(2) [of ?log "unat pos" "unat count"] by simp
  qed (simp_all add: Some)
qed (simp add: aesd_read_null)

lemma write_result:
  assumes "kernel_ok K" and "dev_safe (heap s) (aesd_device s)"
    and "private_data f = Aesd_device_ptr" and "\<not> lock (aesd_device s)"
  shows "\<exists>s' pos' r. aesd_write K s (Some f) buf count pos = Some (s', pos', r) \<and>
      (if r \<in> {- EINVAL, - ERESTARTSYS, - EFAULT, - ENOMEM} then pos' = pos
       else 0 \<le> sint r \<and> unat r \<le> unat count \<and> pos' = pos + r \<and> (count \<noteq> 0 \<longrightarrow> r \<noteq> 0))"
proof (cases buf)
  case (Some ub)
  let ?d = "umem_read (umem s) ub (unat count)"
  let ?n = "length (consumed ?d)"
  have le: "?n \<le> unat count" using length_consumed_le [of ?d] by simp
  then have n: "unat (word_of_nat ?n :: ssize_t) = ?n" using unat_64_less [of count] by (intro unat_word_of_nat) simp
  have "?d \<noteq> []" if "count \<noteq> 0" using that by (metis length_0_conv length_umem_read unat_eq_0)
  then have "count \<noteq> 0 \<longrightarrow> (word_of_nat ?n :: ssize_t) \<noteq> 0"
    using n consumed_split [of ?d] by (auto simp flip: unat_eq_0 split: if_splits)
  from assms show ?thesis
  proof (cases rule: aesd_write_cases [where count = count and ubuf = ub and pos = pos])
    case (success p h2 h' d' over')
    then show ?thesis using Some le n success_nonneg [OF success(5)] nonneg_no_error [of "word_of_nat ?n"]
      \<open>count \<noteq> 0 \<longrightarrow> (word_of_nat ?n :: ssize_t) \<noteq> 0\<close> by simp
  qed (simp_all add: Some)
qed (simp add: aesd_write_null)

text \<open>
  C14. What the file operations can return, whatever the arguments: a read and a write return one of their error codes and leave the position,
  or a count that is not negative and not larger than the requested one, by which the position
  advances, and a write of at least one byte makes progress; the ioctl returns 0 or one of its error codes, and then leaves the file as it was.
\<close>

theorem operation_results:
  assumes "kernel_ok K" and "dev_safe (heap s) (aesd_device s)"
    and "private_data f = Aesd_device_ptr" and "\<not> lock (aesd_device s)"
  shows "(\<exists>s' pos' r. aesd_read K s (Some f) buf count pos = Some (s', pos', r) \<and>
      (if r \<in> {- EINVAL, - ERESTARTSYS, - EFAULT} then pos' = pos else 0 \<le> sint r \<and> unat r \<le> unat count \<and> pos' = pos + r)) \<and>
    (\<exists>s' pos' r. aesd_write K s (Some f) buf count pos = Some (s', pos', r) \<and>
      (if r \<in> {- EINVAL, - ERESTARTSYS, - EFAULT, - ENOMEM} then pos' = pos
       else 0 \<le> sint r \<and> unat r \<le> unat count \<and> pos' = pos + r \<and> (count \<noteq> 0 \<longrightarrow> r \<noteq> 0))) \<and>
    (\<exists>f' r. aesd_ioctl K s f cmd arg = Some (s, f', r) \<and> r \<in> {0, - ENOTTY, - EFAULT, - ERESTARTSYS, - EINVAL} \<and>
      (r \<noteq> 0 \<longrightarrow> f' = f))"
  using read_result [OF assms] write_result [OF assms] ioctl_preserves [OF assms, of cmd arg] ioctl_results [of K s f cmd arg]
  by (smt (verit))

theorem operation_results_witness:
  "\<exists>f' r. aesd_ioctl (sim_kernel False 0) demo_written demo_file 7 0 = Some (demo_written, f', r) \<and>
     r \<in> {0, - ENOTTY, - EFAULT, - ERESTARTSYS, - EINVAL}"
  using operation_results [OF sim_kernel_ok demo_written_facts(2) demo_simps(3) demo_written_facts(3), of False 0 None 0 0 7 0] by blast

end
