(* ===== verification/Driver_Findings.thy ===== *)
theory Driver_Findings
  imports Driver_Properties
begin

text \<open>
  Where the driver does not do what it is meant to: the seek command numbers the slots of the array
  and not the stored commands, the size recorded for seeking by position counts displaced commands,
  a failed \<open>krealloc\<close> loses the unfinished command, and a message reads behind a command. The first two
  are stated for every device, with runs on the concrete kernel of \<open>Kernel_Sim\<close>.
\<close>

section \<open>Seeking in a full buffer\<close>

text \<open>In a full buffer the slot array is the list of the commands, turned by the offset of the oldest.\<close>

lemma full_entries:
  assumes "cb_wf b" and "full b"
  shows "cb_entries b = rotate (unat (out_offs b)) (entry b)"
    and "entry b = rotate (10 - unat (out_offs b)) (cb_entries b)"
proof -
  have len: "length (entry b) = 10" "unat (out_offs b) < 10" using assms(1) by auto
  have cnt: "cb_count b = 10" using assms(2) by (simp add: cb_count_def)
  show es: "cb_entries b = rotate (unat (out_offs b)) (entry b)"
    by (rule nth_equalityI) (simp_all add: cnt len nth_cb_entries nth_rotate cb_slot_def)
  have "rotate 10 (entry b) = entry b" by (rule rotate_id) (simp add: len)
  then show "entry b = rotate (10 - unat (out_offs b)) (cb_entries b)"
    using len(2) by (simp add: es rotate_rotate)
qed

lemma sum_list_rotate1: "sum_list (rotate1 xs) = sum_list (xs :: nat list)"
  by (cases xs) simp_all

lemma sum_list_rotate: "sum_list (rotate n xs) = sum_list (xs :: nat list)"
  by (induction n) (simp_all add: sum_list_rotate1)

lemma full_slots:
  assumes "entries_ok h b" and "full b"
  defines "slots \<equiv> rotate (10 - unat (out_offs b)) (map (entry_bytes h) (cb_entries b))"
  shows "slots = map (entry_bytes h) (entry b)"
    and "\<And>i. i < 10 \<Longrightarrow> length (slots ! i) = unat (esize (entry b ! i))"
    and "\<And>n. unat (sum_list (map esize (take n (entry b))) :: size_t) = sum_list (map length (take n slots))"
    and "\<And>n. sum_list (map length (take n slots)) < 2 ^ 63"
proof -
  have wf: "cb_wf b" using assms(1) by (simp add: entries_ok_def)
  note es = full_entries [OF wf assms(2)]
  show slots: "slots = map (entry_bytes h) (entry b)"
    unfolding slots_def by (subst es(2)) (simp add: rotate_map)
  have len: "length (entry b) = 10" using wf by auto
  have "set (entry b) = set (cb_entries b)" by (subst es(1)) simp
  then have eb: "length (entry_bytes h e) = unat (esize e)" if "e \<in> set (entry b)" for e
    using that length_entry_bytes [OF assms(1)] by blast
  then show "length (slots ! i) = unat (esize (entry b ! i))" if "i < 10" for i
    using that by (simp add: slots len)
  have sum: "sum_list (map (\<lambda>e. unat (esize e)) (take n (entry b))) = sum_list (map length (take n slots))" for n
    using eb by (simp add: slots take_map comp_def) (metis (no_types, lifting) in_set_takeD map_cong)
  have "sum_list (take n (map (\<lambda>e. unat (esize e)) (entry b))) \<le> sum_list (map (\<lambda>e. unat (esize e)) (entry b))" for n
    by (rule sum_take_le)
  also have "sum_list (map (\<lambda>e. unat (esize e)) (entry b)) = sum_list (map (\<lambda>e. unat (esize e)) (cb_entries b))"
    by (subst es(1)) (simp add: sum_list_rotate flip: rotate_map)
  also have "\<dots> < 2 ^ 63" by (rule cb_total_less [OF assms(1)])
  finally show small: "sum_list (map length (take n slots)) < 2 ^ 63" for n
    unfolding sum [of n, symmetric] by (simp add: take_map)
  show "unat (sum_list (map esize (take n (entry b))) :: size_t) = sum_list (map length (take n slots))" for n
    using small [of n] sum [of n] by (simp add: unat_sum_list comp_def)
qed

lemma adjust_full_cases:
  fixes cmd off :: u32
  assumes K: "kernel_ok K" and safe: "dev_safe (heap s) (aesd_device s)"
    and f: "private_data f = Aesd_device_ptr" and lk: "\<not> lock (aesd_device s)"
    and full: "full (buffer (aesd_device s))"
  defines "slots \<equiv> rotate (10 - unat (out_offs (buffer (aesd_device s)))) (dev_log (heap s) (aesd_device s))"
  shows "aesd_adjust_file_offset K s f cmd off = Some (s, f, - ERESTARTSYS) \<and>
      snd (mutex_lock_interruptible K False) \<noteq> 0 \<or>
    aesd_adjust_file_offset K s f cmd off = Some (s, f, - EINVAL) \<and>
      \<not> (unat cmd < 10 \<and> unat off < length (slots ! unat cmd)) \<or>
    (\<exists>p. aesd_adjust_file_offset K s f cmd off = Some (s, f\<lparr>f_pos := p\<rparr>, 0) \<and>
      unat cmd < 10 \<and> unat off < length (slots ! unat cmd) \<and>
      unat p = sum_list (map length (take (unat cmd) slots)) + unat off)"
proof -
  let ?d = "aesd_device s" and ?b = "buffer (aesd_device s)" and ?c = "unat cmd"
  have ok: "entries_ok (heap s) ?b" using safe by (simp add: dev_safe_def)
  have len: "length (entry ?b) = 10" using ok by (auto simp: entries_ok_def)
  note S = full_slots [OF ok full, folded dev_log_def, folded slots_def]
  obtain l r where mx: "mutex_lock_interruptible K (lock ?d) = (l, r)" by force
  note M = mutex_lockD [OF kernel_okD(5) [OF K] mx] and U = mutex_unlockD [OF kernel_okD(5) [OF K]]
  have uoff: "unat (ucast off :: size_t) = unat off" by (rule unat_ucast_32_64)
  consider "r \<noteq> 0" | "r = 0" "10 \<le> ?c" | "r = 0" "?c < 10" by linarith
  then show ?thesis
  proof cases
    case 3
    define upd where "upd = (sum_list (map esize (take ?c (entry ?b))) :: loff_t)"
    have uu: "unat upd = sum_list (map length (take ?c slots))" "unat upd < 2 ^ 63"
      using S(3,4) [of ?c] by (simp_all add: upd_def)
    have "unat (upd + ucast off) = unat upd + unat off"
      using uu(2) uoff unat_32_less [of off] by (subst unat_add_no_wrap) auto
    moreover have "esize (entry ?b ! ?c) \<le> ucast off \<longleftrightarrow> \<not> unat off < length (slots ! ?c)"
      using S(2) [OF 3(2)] uoff by (auto simp: word_le_nat_alt)
    ultimately show ?thesis
      using mx M(1) U lk f len 3 uu(1) adjust_loop_sum [of ?c ?b 0 0]
      by (auto simp: aesd_adjust_file_offset_def upd_def)
  qed (use mx M U lk in \<open>simp_all add: aesd_adjust_file_offset_def\<close>)
qed

text \<open>
  C19. The seek command once ten commands are stored. It numbers the slots of the array: slot 0 is where the
  eleventh, twenty-first and so on command went, so the commands are taken in the order of the log turned by the offset of the
  oldest one, and not oldest first as a read returns them. The command succeeds
  exactly for a byte of the slot with the given number, and then puts the file position behind the bytes of the slots before it. Otherwise the
  file is unchanged and the result is an error, with the causes of the unwrapped case.
\<close>

theorem seek_numbers_slots:
  assumes "kernel_ok K" and "dev_safe (heap s) (aesd_device s)" and "private_data f = Aesd_device_ptr"
    and "\<not> lock (aesd_device s)" and "full (buffer (aesd_device s))"
    and "slots = rotate (10 - unat (out_offs (buffer (aesd_device s)))) (dev_log (heap s) (aesd_device s))"
    and "seekto_of_bytes K (umem_read (umem s) arg 8) = \<lparr>write_cmd = cmd, write_cmd_offset = off\<rparr>"
  shows "\<exists>f' r. aesd_ioctl K s f (AESDCHAR_IOCSEEKTO K) arg = Some (s, f', r) \<and>
    (if r = 0
     then unat cmd < 10 \<and> unat off < length (slots ! unat cmd) \<and>
          unat (f_pos f') = length (concat (take (unat cmd) slots)) + unat off
     else f' = f \<and>
       (r = - EFAULT \<and> snd (copy_from_user K (umem s) arg 8) \<noteq> 0 \<or>
        r = - ERESTARTSYS \<and> snd (mutex_lock_interruptible K False) \<noteq> 0 \<or>
        r = - EINVAL \<and> \<not> (unat cmd < 10 \<and> unat off < length (slots ! unat cmd))))"
proof (cases "snd (copy_from_user K (umem s) arg 8) = 0")
  case True
  then have io: "aesd_ioctl K s f (AESDCHAR_IOCSEEKTO K) arg = aesd_adjust_file_offset K s f cmd off"
    using ioctl_seek_eq [OF assms(1,7)] by simp
  from adjust_full_cases [OF assms(1-5), of cmd off, folded assms(6)] show ?thesis
  proof (elim disjE exE conjE)
    fix p
    assume "aesd_adjust_file_offset K s f cmd off = Some (s, f\<lparr>f_pos := p\<rparr>, 0)" "unat cmd < 10"
      "unat off < length (slots ! unat cmd)" "unat p = sum_list (map length (take (unat cmd) slots)) + unat off"
    then show ?thesis using io by (simp add: length_concat)
  qed (use io in simp_all)
qed (use ioctl_seek_eq [OF assms(1,7)] in simp)

section \<open>After the eleventh command\<close>

definition eleven :: "char list list" where
  "eleven = [''a\<newline>'', ''a\<newline>'', ''a\<newline>'', ''a\<newline>'', ''a\<newline>'', ''a\<newline>'', ''a\<newline>'', ''a\<newline>'', ''a\<newline>'', ''a\<newline>'', ''bbb\<newline>'']"

definition after_eleven :: kstate where
  "after_eleven = fst (the (run_writes (sim_kernel False 0) demo_state demo_file 0 eleven))"

lemma eleven_run:
  "run_writes (sim_kernel False 0) demo_state demo_file 0 eleven =
     Some (after_eleven, 24, [2, 2, 2, 2, 2, 2, 2, 2, 2, 2, 4])"
  by (simp add: after_eleven_def eleven_def sim_eval)

lemma eleven_dev:
  "dev_inv (heap after_eleven) (aesd_device after_eleven)"
  "dev_abs after_eleven = ([''a\<newline>'', ''a\<newline>'', ''a\<newline>'', ''a\<newline>'', ''a\<newline>'', ''a\<newline>'', ''a\<newline>'', ''a\<newline>'', ''a\<newline>'', ''bbb\<newline>''], [])"
proof -
  have l: "\<forall>data \<in> set eleven. length data < 2 ^ 64" by (simp add: eleven_def)
  from run_writes_spec [OF sim_kernel_ok demo_simps(3) demo_start(1,3) l eleven_run]
  have "dev_inv (heap after_eleven) (aesd_device after_eleven)"
    "dev_abs after_eleven = fold (\<lambda>data st. spec_write st data) eleven (dev_abs demo_state)" by auto
  then show "dev_inv (heap after_eleven) (aesd_device after_eleven)"
    "dev_abs after_eleven = ([''a\<newline>'', ''a\<newline>'', ''a\<newline>'', ''a\<newline>'', ''a\<newline>'', ''a\<newline>'', ''a\<newline>'', ''a\<newline>'', ''a\<newline>'', ''bbb\<newline>''], [])"
    by (simp_all add: eleven_def spec_write_def dev_abs_def zero_dev_simps last_n_def)
qed

lemma eleven_buffer:
  "\<not> lock (aesd_device after_eleven)" "full (buffer (aesd_device after_eleven))"
  "out_offs (buffer (aesd_device after_eleven)) = 1" "buff_size (aesd_device after_eleven) = 24"
  by (simp_all add: after_eleven_def eleven_def sim_eval)

text \<open>The memory of a \<open>struct aesd_seekto\<close> that names byte 0 of command 1.\<close>

definition second_bytes :: "char list" where
  "second_bytes = [CHR 0x01, CHR 0x00, CHR 0x00, CHR 0x00, CHR 0x00, CHR 0x00, CHR 0x00, CHR 0x00]"

theorem seek_numbers_slots_witness:
  "\<exists>f'. aesd_ioctl (sim_kernel False 0) (put second_bytes after_eleven) demo_file
      (AESDCHAR_IOCSEEKTO (sim_kernel False 0)) 0 = Some (put second_bytes after_eleven, f', 0) \<and>
    unat (f_pos f') = 4 \<and> take 2 (fst (dev_abs after_eleven)) = [''a\<newline>'', ''a\<newline>'']"
proof -
  let ?K = "sim_kernel False 0" and ?s = "put second_bytes after_eleven"
  have w: "seekto_of_bytes ?K (umem_read (umem ?s) 0 8) = \<lparr>write_cmd = 1, write_cmd_offset = 0\<rparr>"
    using put_read [of second_bytes after_eleven] by (simp add: sim_kernel_def sim_u32_def second_bytes_def)
  have st: "dev_safe (heap ?s) (aesd_device ?s)" "\<not> lock (aesd_device ?s)" "full (buffer (aesd_device ?s))"
    using eleven_dev(1) eleven_buffer by (simp_all add: dev_inv_def)
  have sl: "rotate (10 - unat (out_offs (buffer (aesd_device ?s)))) (dev_log (heap ?s) (aesd_device ?s)) =
      ''bbb\<newline>'' # replicate 9 ''a\<newline>''"
    using eleven_dev(2) eleven_buffer(3) by (simp add: dev_abs_def eval_nat_numeral)
  have ok: "snd (copy_from_user ?K (umem ?s) 0 8) = 0" "snd (mutex_lock_interruptible ?K False) = 0"
    by (simp_all add: sim_kernel_def)
  from seek_numbers_slots [OF sim_kernel_ok st(1) demo_simps(3) st(2,3) sl [symmetric] w] ok eleven_dev(2)
  show ?thesis by (auto split: if_splits)
qed

section \<open>The recorded size\<close>

text \<open>
  The size used for seeking by position counts every byte that any write consumed, except those of the
  unfinished command: also those of the commands that were displaced.
\<close>

lemma run_writes_size:
  assumes "kernel_ok K" and "private_data f = Aesd_device_ptr"
  shows "dev_inv (heap s) (aesd_device s) \<Longrightarrow> \<not> lock (aesd_device s) \<Longrightarrow>
    \<forall>data \<in> set datas. length data < 2 ^ 64 \<Longrightarrow> run_writes K s f pos datas = Some (s', pos', rs) \<Longrightarrow>
    \<forall>r \<in> set rs. 0 \<le> sint r \<Longrightarrow>
    buff_size (aesd_device s') + word_of_nat (length (dev_pending (heap s') (aesd_device s'))) =
      buff_size (aesd_device s) + word_of_nat (length (dev_pending (heap s) (aesd_device s) @ concat (map consumed datas)))"
proof (induction datas arbitrary: s pos s' pos' rs)
  case (Cons data datas)
  from Cons.prems(4) obtain s1 pos1 r rs1 where
    w: "aesd_write K (put data s) (Some f) (Some 0) (word_of_nat (length data)) pos = Some (s1, pos1, r)"
    and rest: "run_writes K s1 f pos1 datas = Some (s', pos', rs1)" "rs = r # rs1"
    by (auto split: bind_splits)
  have ok: "0 \<le> sint r" using Cons.prems(5) rest(2) by simp
  have d: "umem_read (umem_write (umem s) 0 data) 0 (unat (word_of_nat (length data) :: size_t)) = data"
    using put_read [of data s] Cons.prems(3) by simp
  note S = write_ok_step [OF assms(1) _ assms(2) _ w ok, simplified put_simps put_inv d]
  have "buff_size (aesd_device s1) + word_of_nat (length (dev_pending (heap s1) (aesd_device s1))) =
      buff_size (aesd_device s) + word_of_nat (length (dev_pending (heap s) (aesd_device s) @ consumed data))"
    using S(3,7) Cons.prems(1,2) by (auto simp: dev_abs_def spec_write_def split: if_splits)
  with S Cons.prems Cons.IH [OF _ _ _ rest(1)] rest(2) show ?case by (simp add: algebra_simps)
qed simp

text \<open>
  C20. The size that seeking by position goes by, after any sequence of successful writes to an open device: it grew by the bytes of
  all commands these writes completed, the displaced ones included, while at most the last ten commands are stored. A seek to the end goes to that size, behind the data once a command
  was displaced.
\<close>

theorem recorded_size_counts_all:
  assumes "kernel_ok K" and "dev_inv (heap s) (aesd_device s)"
    and "private_data f = Aesd_device_ptr" and "\<not> lock (aesd_device s)"
    and "newline \<notin> set (dev_pending (heap s) (aesd_device s))"
    and "\<forall>data \<in> set datas. length data < 2 ^ 64"
    and "run_writes K s f pos datas = Some (s', pos', rs)" and "\<forall>r \<in> set rs. 0 \<le> sint r"
    and "split_cmds (dev_pending (heap s) (aesd_device s) @ concat (map consumed datas)) = (cmds, rest)"
  shows "buff_size (aesd_device s') = buff_size (aesd_device s) + word_of_nat (length (concat cmds)) \<and>
    dev_log (heap s') (aesd_device s') = last_n 10 (dev_log (heap s) (aesd_device s) @ cmds)"
proof -
  let ?p = "dev_pending (heap s) (aesd_device s)"
  have "dev_abs s' = (last_n 10 (dev_log (heap s) (aesd_device s) @ cmds), rest)"
    using run_writes_spec [OF assms(1,3,2,4,6-8)] fold_spec_write [OF length_dev_log [of "heap s" "aesd_device s"] assms(5), of datas] assms(9)
    by (simp add: dev_abs_def)
  then have log: "dev_log (heap s') (aesd_device s') = last_n 10 (dev_log (heap s) (aesd_device s) @ cmds)"
    and rest: "dev_pending (heap s') (aesd_device s') = rest" by (simp_all add: dev_abs_def)
  have "length (?p @ concat (map consumed datas)) = length (concat cmds) + length rest"
    using split_cmds_concat [OF assms(9)] by (metis length_append)
  then have "buff_size (aesd_device s') + word_of_nat (length rest) =
      buff_size (aesd_device s) + word_of_nat (length (concat cmds)) + word_of_nat (length rest)"
    using run_writes_size [OF assms(1,3,2,4,6-8)] rest by (simp add: add.assoc)
  then show ?thesis using log by simp
qed

theorem recorded_size_counts_all_witness:
  "buff_size (aesd_device after_eleven) = 24 \<and> length (concat (dev_log (heap after_eleven) (aesd_device after_eleven))) = 22 \<and>
   map_option (\<lambda>(s', f', r). (f', r)) (aesd_llseek (sim_kernel False 0) after_eleven demo_file 0 2) = Some (demo_file\<lparr>f_pos := 24\<rparr>, 24)"
proof -
  have l: "\<forall>data \<in> set eleven. length data < 2 ^ 64" by (simp add: eleven_def)
  have ok: "\<forall>r \<in> set [2, 2, 2, 2, 2, 2, 2, 2, 2, 2, 4 :: ssize_t]. 0 \<le> sint r" by simp
  have p: "dev_pending (heap demo_state) (aesd_device demo_state) = []" "buff_size (aesd_device demo_state) = 0"
    using zero_dev_simps by simp_all
  have sp: "split_cmds (dev_pending (heap demo_state) (aesd_device demo_state) @ concat (map consumed eleven)) = (eleven, [])"
    unfolding p by (simp add: eleven_def)
  have b: "buff_size (aesd_device after_eleven) = 24"
    using recorded_size_counts_all [OF sim_kernel_ok demo_start(1) demo_simps(3) demo_start(3) _ l eleven_run ok sp] p
    by (simp add: eleven_def)
  then have "map_option (\<lambda>(s', f', r). (f', r)) (aesd_llseek (sim_kernel False 0) after_eleven demo_file 0 2) =
      Some (demo_file\<lparr>f_pos := 24\<rparr>, 24)"
    using eleven_buffer(1) by (simp add: aesd_llseek_def sim_kernel_def sim_llseek_def)
  with b eleven_dev(2) show ?thesis by (simp add: dev_abs_def)
qed

section \<open>A failed enlargement\<close>

definition part_written :: kstate where
  "part_written = fst (the (aesd_write (sim_kernel False 0) (put ''ab'' demo_state) (Some demo_file) (Some 0) 2 0))"

definition grow_failed :: kstate where
  "grow_failed = fst (the (aesd_write (sim_kernel True 0) (put ''c'' part_written) (Some demo_file) (Some 0) 1 2))"

definition garbage_committed :: kstate where
  "garbage_committed = fst (the (aesd_write (sim_kernel False 0) (put ''d\<newline>'' grow_failed) (Some demo_file) (Some 0) 2 2))"

lemmas grow_defs = part_written_def grow_failed_def garbage_committed_def

lemma grow_runs:
  "aesd_write (sim_kernel False 0) (put ''ab'' demo_state) (Some demo_file) (Some 0) 2 0 = Some (part_written, 2, 2)"
  "aesd_write (sim_kernel True 0) (put ''c'' part_written) (Some demo_file) (Some 0) 1 2 = Some (grow_failed, 2, - ENOMEM)"
  "aesd_write (sim_kernel False 0) (put ''d\<newline>'' grow_failed) (Some demo_file) (Some 0) 2 2 =
     Some (garbage_committed, 4, 2)"
  by (simp_all add: grow_defs sim_eval)

lemma grow_failed_leaks: "\<not> no_leak (heap grow_failed) (aesd_device grow_failed)"
proof -
  have "heap grow_failed 1 \<noteq> None" "write_buffer (aesd_device grow_failed) = NULL"
    "buffer (aesd_device grow_failed) = aesd_circular_buffer_init"
    by (simp_all add: grow_defs sim_eval)
  then have "1 \<in> dom (heap grow_failed)" "owned (aesd_device grow_failed) = {}"
    by (auto simp: owned_def cb_init_entries)
  then show ?thesis unfolding no_leak_def by blast
qed

lemma replicate_2: "replicate 2 c = [c, c]"
  by (simp add: numeral_2_eq_2)

lemma grow_abs:
  "dev_abs part_written = ([], ''ab'')" "dev_abs garbage_committed = ([''??d\<newline>''], [])"
  by (simp_all add: grow_defs sim_eval)
    (simp_all add: dev_abs_def dev_log_def dev_pending_def cb_entries_def cb_count_def cb_slot_def
      entry_bytes_def replicate_2)

text \<open>
  When \<open>krealloc\<close> fails while a command is unfinished, the pointer to its bytes is overwritten
  with null but their number is kept: the block is lost, and the next write commits as many
  uninitialised bytes in their place.
\<close>

lemma failed_krealloc_corrupts:
  "\<exists>s1 s2 s3. aesd_write (sim_kernel False 0) (put ''ab'' demo_state) (Some demo_file) (Some 0) 2 0 = Some (s1, 2, 2) \<and>
     dev_abs s1 = ([], ''ab'') \<and>
     aesd_write (sim_kernel True 0) (put ''c'' s1) (Some demo_file) (Some 0) 1 2 = Some (s2, 2, - ENOMEM) \<and>
     \<not> no_leak (heap s2) (aesd_device s2) \<and>
     aesd_write (sim_kernel False 0) (put ''d\<newline>'' s2) (Some demo_file) (Some 0) 2 2 = Some (s3, 4, 2) \<and>
     dev_abs s3 = ([''??d\<newline>''], [])"
  using grow_runs grow_abs grow_failed_leaks by blast

section \<open>The message about a committed command\<close>

text \<open>
  A command that fills its block is printed with \<open>%s\<close> although no zero byte ends it, so the message
  reads on behind the block: here for the line \<open>ab\<close>, written in one call.
\<close>

lemma pdebug_reads_behind_block: "\<not> overread demo_state" "overread demo_written"
  by (simp_all add: demo_written_def sim_eval)

end
