(* ===== verification/Slist.thy ===== *)
theory Slist
  imports Aesd_Prelude
begin

text \<open>
  The singly-linked lists of \<open>server/queue.h\<close>, which the socket server uses for its client
  threads. A head is the pointer \<open>slh_first\<close>; the elements live in a heap of nodes, each with the
  data of the element and its \<open>sle_next\<close> pointer. A null pointer is \<open>None\<close>. Every macro that
  follows a pointer is undefined (\<open>None\<close> of the outer option type) where the pointer is null or
  does not name an allocated node; a traversal that never ends is undefined too.
\<close>

section \<open>The macros\<close>

type_synonym node_ptr = "nat option"

record 'd node =
  thread_data :: 'd
  sle_next :: node_ptr

type_synonym 'd node_heap = "nat \<rightharpoonup> 'd node"

definition SLIST_INIT :: node_ptr where
  "SLIST_INIT = None"

definition SLIST_EMPTY :: "node_ptr \<Rightarrow> bool" where
  "SLIST_EMPTY head \<longleftrightarrow> head = None"

definition SLIST_FIRST :: "node_ptr \<Rightarrow> node_ptr" where
  "SLIST_FIRST head = head"

definition SLIST_NEXT :: "'d node_heap \<Rightarrow> node_ptr \<Rightarrow> node_ptr option" where
  "SLIST_NEXT H elm = do { a \<leftarrow> elm; n \<leftarrow> H a; Some (sle_next n) }"

text \<open>Assignment to \<open>SLIST_NEXT(elm, field)\<close>.\<close>

definition set_next :: "'d node_heap \<Rightarrow> node_ptr \<Rightarrow> node_ptr \<Rightarrow> 'd node_heap option" where
  "set_next H elm q = do { a \<leftarrow> elm; n \<leftarrow> H a; Some (H(a \<mapsto> n\<lparr>sle_next := q\<rparr>)) }"

definition SLIST_INSERT_HEAD ::
  "'d node_heap \<Rightarrow> node_ptr \<Rightarrow> node_ptr \<Rightarrow> ('d node_heap \<times> node_ptr) option" where
  "SLIST_INSERT_HEAD H head elm = do {
     H' \<leftarrow> set_next H elm (SLIST_FIRST head);
     Some (H', elm)
   }"

definition SLIST_INSERT_AFTER :: "'d node_heap \<Rightarrow> node_ptr \<Rightarrow> node_ptr \<Rightarrow> 'd node_heap option" where
  "SLIST_INSERT_AFTER H slistelm elm = do {
     n \<leftarrow> SLIST_NEXT H slistelm;
     H1 \<leftarrow> set_next H elm n;
     set_next H1 slistelm elm
   }"

definition SLIST_REMOVE_HEAD :: "'d node_heap \<Rightarrow> node_ptr \<Rightarrow> node_ptr option" where
  "SLIST_REMOVE_HEAD H head = SLIST_NEXT H (SLIST_FIRST head)"

definition SLIST_REMOVE_AFTER :: "'d node_heap \<Rightarrow> node_ptr \<Rightarrow> 'd node_heap option" where
  "SLIST_REMOVE_AFTER H elm = do {
     n \<leftarrow> SLIST_NEXT H elm;
     nn \<leftarrow> SLIST_NEXT H n;
     set_next H elm nn
   }"

text \<open>The loop that looks for the element before \<open>elm\<close>.\<close>

partial_function (option) find_prev :: "'d node_heap \<Rightarrow> node_ptr \<Rightarrow> node_ptr \<Rightarrow> node_ptr option" where
  "find_prev H curelm elm = do {
     n \<leftarrow> SLIST_NEXT H curelm;
     if n \<noteq> elm then find_prev H n elm else Some curelm
   }"

definition SLIST_REMOVE ::
  "'d node_heap \<Rightarrow> node_ptr \<Rightarrow> node_ptr \<Rightarrow> ('d node_heap \<times> node_ptr) option" where
  "SLIST_REMOVE H head elm =
     (if SLIST_FIRST head = elm then do {
        head' \<leftarrow> SLIST_REMOVE_HEAD H head;
        Some (H, head')
      } else do {
        curelm \<leftarrow> find_prev H (SLIST_FIRST head) elm;
        H' \<leftarrow> SLIST_REMOVE_AFTER H curelm;
        Some (H', head)
      })"

text \<open>The loop that looks for the last element.\<close>

partial_function (option) find_last :: "'d node_heap \<Rightarrow> node_ptr \<Rightarrow> node_ptr option" where
  "find_last H curelm = do {
     n \<leftarrow> SLIST_NEXT H curelm;
     if n \<noteq> None then find_last H n else Some curelm
   }"

definition SLIST_CONCAT ::
  "'d node_heap \<Rightarrow> node_ptr \<Rightarrow> node_ptr \<Rightarrow> ('d node_heap \<times> node_ptr \<times> node_ptr) option" where
  "SLIST_CONCAT H head1 head2 =
     (let curelm = SLIST_FIRST head1 in
      if curelm = None then
        (let head1' = SLIST_FIRST head2 in
         Some (H, head1', if head1' \<noteq> None then SLIST_INIT else head2))
      else if SLIST_FIRST head2 \<noteq> None then do {
        curelm \<leftarrow> find_last H curelm;
        H' \<leftarrow> set_next H curelm (SLIST_FIRST head2);
        Some (H', head1, SLIST_INIT)
      } else Some (H, head1, head2))"

definition SLIST_SWAP :: "node_ptr \<Rightarrow> node_ptr \<Rightarrow> node_ptr \<times> node_ptr" where
  "SLIST_SWAP head1 head2 =
     (let swap_first = SLIST_FIRST head1; head1' = SLIST_FIRST head2; head2' = swap_first in (head1', head2'))"

text \<open>
  \<open>SLIST_FOREACH\<close>: the body gets the current element and a state that contains the heap; it
  either goes on or leaves the loop with a value.
\<close>

partial_function (option) SLIST_FOREACH ::
  "('s \<Rightarrow> 'd node_heap) \<Rightarrow> (nat \<Rightarrow> 's \<Rightarrow> ('s \<times> 'r option) option) \<Rightarrow> node_ptr \<Rightarrow> 's \<Rightarrow> ('s \<times> 'r option) option" where
  "SLIST_FOREACH heap_of body var s =
     (case var of
        None \<Rightarrow> Some (s, None)
      | Some a \<Rightarrow> do {
          (s1, r) \<leftarrow> body a s;
          if r \<noteq> None then Some (s1, r)
          else do {
            n \<leftarrow> SLIST_NEXT (heap_of s1) var;
            SLIST_FOREACH heap_of body n s1
          }
        })"

section \<open>Lists in the heap\<close>

text \<open>\<open>slist H p xs\<close>: following the pointers from \<open>p\<close> visits the nodes \<open>xs\<close> and ends.\<close>

fun slist :: "'d node_heap \<Rightarrow> node_ptr \<Rightarrow> nat list \<Rightarrow> bool" where
  "slist H p [] \<longleftrightarrow> p = None"
| "slist H p (a # xs) \<longleftrightarrow> p = Some a \<and> (case H a of None \<Rightarrow> False | Some n \<Rightarrow> slist H (sle_next n) xs)"

lemma slist_None [simp]: "slist H None xs \<longleftrightarrow> xs = []"
  by (cases xs) auto

lemma slist_Some: "slist H (Some a) xs \<longleftrightarrow> (\<exists>n ys. xs = a # ys \<and> H a = Some n \<and> slist H (sle_next n) ys)"
  by (cases xs) (auto split: option.splits)

lemma slist_unique: "slist H p xs \<Longrightarrow> slist H p ys \<Longrightarrow> xs = ys"
  by (induction xs arbitrary: p ys) (auto simp: slist_Some split: option.splits)

lemma slist_suffix: "slist H p (ys @ a # zs) \<Longrightarrow> slist H (Some a) (a # zs)"
  by (induction ys arbitrary: p) (fastforce split: option.splits)+

lemma slist_distinct: "slist H p xs \<Longrightarrow> distinct xs"
proof (induction xs arbitrary: p)
  case (Cons a xs)
  then obtain n where n: "H a = Some n" "slist H (sle_next n) xs" by (auto split: option.splits)
  have "a \<notin> set xs"
  proof
    assume "a \<in> set xs"
    then obtain ys zs where xs: "xs = ys @ a # zs" by (meson split_list)
    with n(2) have "slist H (Some a) (a # zs)" using slist_suffix by blast
    moreover have "slist H (Some a) (a # xs)" using n by simp
    ultimately have "a # zs = a # xs" by (rule slist_unique)
    with xs show False by simp
  qed
  with Cons.IH [OF n(2)] show ?case by simp
qed simp

lemma slist_alloc: "slist H p xs \<Longrightarrow> a \<in> set xs \<Longrightarrow> H a \<noteq> None"
  by (induction xs arbitrary: p) (auto split: option.splits)

lemma slist_cong: "(\<And>a. a \<in> set xs \<Longrightarrow> H' a = H a) \<Longrightarrow> slist H' p xs = slist H p xs"
  by (induction xs arbitrary: p) (auto split: option.splits)

lemma slist_upd_other [simp]: "a \<notin> set xs \<Longrightarrow> slist (H(a := v)) p xs = slist H p xs"
  by (rule slist_cong) auto

text \<open>Redirecting the pointer of one element: the list continues where the new pointer leads.\<close>

lemma slist_redirect:
  assumes "slist H p (ys @ b # zs)" and "H b = Some n" and "slist H q ws" and "b \<notin> set ws"
  shows "slist (H(b \<mapsto> n\<lparr>sle_next := q\<rparr>)) p (ys @ b # ws)"
proof -
  have "b \<notin> set ys" using slist_distinct [OF assms(1)] by simp
  then show ?thesis using assms(1)
  proof (induction ys arbitrary: p)
    case Nil
    moreover have "slist (H(b \<mapsto> n\<lparr>sle_next := q\<rparr>)) q ws"
      using assms(3) slist_upd_other [OF assms(4)] by blast
    ultimately show ?case by (simp del: fun_upd_apply add: fun_upd_same)
  next
    case (Cons c ys)
    then show ?case by (auto split: option.splits)
  qed
qed

text \<open>The data of the elements, which no macro changes.\<close>

definition node_data :: "'d node_heap \<Rightarrow> nat \<Rightarrow> 'd option" where
  "node_data H a = map_option thread_data (H a)"

lemma node_data_redirect [simp]:
  "H b = Some n \<Longrightarrow> node_data (H(b \<mapsto> n\<lparr>sle_next := q\<rparr>)) = node_data H"
  by (auto simp: node_data_def)

lemma dom_node_data: "node_data H = node_data H' \<Longrightarrow> dom H = dom H'"
  by (auto simp: node_data_def fun_eq_iff dom_def) (metis map_option_is_None option.distinct(1) option.exhaust)+

section \<open>What the macros do\<close>

lemma insert_head_slist:
  assumes "slist H head xs" and "H e = Some n" and "e \<notin> set xs"
  shows "\<exists>H'. SLIST_INSERT_HEAD H head (Some e) = Some (H', Some e) \<and> slist H' (Some e) (e # xs) \<and>
    node_data H' = node_data H"
  using assms by (auto simp: SLIST_INSERT_HEAD_def set_next_def SLIST_FIRST_def)

lemma insert_after_slist:
  assumes "slist H head (ys @ b # zs)" and "H e = Some n" and "e \<notin> set (ys @ b # zs)"
  shows "\<exists>H'. SLIST_INSERT_AFTER H (Some b) (Some e) = Some H' \<and> slist H' head (ys @ b # e # zs) \<and>
    node_data H' = node_data H"
proof -
  obtain nb where nb: "H b = Some nb" "slist H (sle_next nb) zs"
    using slist_suffix [OF assms(1)] by (auto split: option.splits)
  let ?H1 = "H(e \<mapsto> n\<lparr>sle_next := sle_next nb\<rparr>)"
  have be: "b \<noteq> e" using assms(3) by auto
  have "slist ?H1 head (ys @ b # zs)" "slist ?H1 (sle_next nb) zs"
    using assms nb by auto
  moreover from this(2) have "slist ?H1 (Some e) (e # zs)" by simp
  moreover have "b \<notin> set (e # zs)" using be slist_distinct [OF assms(1)] by simp
  ultimately have "slist (?H1(b \<mapsto> nb\<lparr>sle_next := Some e\<rparr>)) head (ys @ b # e # zs)"
    using nb(1) be by (intro slist_redirect) auto
  moreover have "node_data (?H1(b \<mapsto> nb\<lparr>sle_next := Some e\<rparr>)) = node_data H"
    using nb(1) be assms(2) by (subst node_data_redirect) auto
  ultimately show ?thesis using nb(1) be assms(2)
    by (simp add: SLIST_INSERT_AFTER_def SLIST_NEXT_def set_next_def)
qed

lemma find_prev_slist:
  assumes "slist H p (ys @ b # e # zs)"
  shows "find_prev H p (Some e) = Some (Some b)"
  using assms
proof (induction ys arbitrary: p)
  case Nil
  then show ?case by (subst find_prev.simps) (auto simp: SLIST_NEXT_def split: option.splits)
next
  case (Cons c ys)
  then obtain n where n: "p = Some c" "H c = Some n" "slist H (sle_next n) (ys @ b # e # zs)"
    by (auto split: option.splits)
  have "sle_next n \<noteq> Some e"
    using n(3) slist_distinct [OF n(3)] by (cases ys) auto
  with n Cons.IH [OF n(3)] show ?case by (subst find_prev.simps) (simp add: SLIST_NEXT_def)
qed

lemma remove_slist:
  assumes "slist H head xs" and "e \<in> set xs"
  shows "\<exists>H' head'. SLIST_REMOVE H head (Some e) = Some (H', head') \<and> slist H' head' (remove1 e xs) \<and>
    node_data H' = node_data H"
proof (cases "head = Some e")
  case True
  with assms obtain n ys where "xs = e # ys" "H e = Some n" "slist H (sle_next n) ys"
    by (auto simp: slist_Some)
  with True show ?thesis by (simp add: SLIST_REMOVE_def SLIST_REMOVE_HEAD_def SLIST_FIRST_def SLIST_NEXT_def)
next
  case False
  from assms(2) obtain us zs where us: "xs = us @ e # zs" "e \<notin> set us" by (meson split_list_first)
  have "us \<noteq> []" using us(1) assms(1) False by auto
  then obtain ys b where ys: "us = ys @ [b]" by (metis append_butlast_last_id)
  then have xs: "xs = ys @ b # e # zs" using us by simp
  obtain nb ne where n: "H b = Some nb" "sle_next nb = Some e" "H e = Some ne" "slist H (sle_next ne) zs"
    using slist_suffix [OF assms(1) [unfolded xs]] by (auto split: option.splits)
  have "b \<notin> set zs" using slist_distinct [OF assms(1)] xs by simp
  then have "slist (H(b \<mapsto> nb\<lparr>sle_next := sle_next ne\<rparr>)) head (ys @ b # zs)"
    using assms(1) xs n by (intro slist_redirect) auto
  moreover have "remove1 e xs = ys @ b # zs" using us ys by (simp add: remove1_append)
  ultimately show ?thesis
    using False n find_prev_slist [OF assms(1) [unfolded xs]]
    by (simp add: SLIST_REMOVE_def SLIST_REMOVE_AFTER_def SLIST_FIRST_def SLIST_NEXT_def set_next_def)
qed

lemma find_last_slist: "slist H p (ys @ [b]) \<Longrightarrow> find_last H p = Some (Some b)"
proof (induction ys arbitrary: p)
  case Nil
  then show ?case by (subst find_last.simps) (auto simp: SLIST_NEXT_def split: option.splits)
next
  case (Cons c ys)
  then obtain n where n: "p = Some c" "H c = Some n" "slist H (sle_next n) (ys @ [b])"
    by (auto split: option.splits)
  have "sle_next n \<noteq> None" using n(3) by (cases ys) auto
  with n Cons.IH [OF n(3)] show ?case by (subst find_last.simps) (simp add: SLIST_NEXT_def)
qed

lemma concat_slist:
  assumes "slist H head1 xs" and "slist H head2 ys" and "set xs \<inter> set ys = {}"
  shows "\<exists>H' head'. SLIST_CONCAT H head1 head2 = Some (H', head', None) \<and> slist H' head' (xs @ ys) \<and>
    node_data H' = node_data H"
proof (cases "xs = [] \<or> ys = []")
  case True
  then show ?thesis using assms by (cases xs; cases ys) (auto simp: SLIST_CONCAT_def SLIST_FIRST_def SLIST_INIT_def)
next
  case False
  then obtain us b where us: "xs = us @ [b]" by (metis append_butlast_last_id)
  obtain a1 a2 where ne: "head1 = Some a1" "head2 = Some a2" using assms False by (auto simp: neq_Nil_conv)
  obtain nb where nb: "H b = Some nb" using slist_alloc [OF assms(1), of b] us by auto
  have "slist (H(b \<mapsto> nb\<lparr>sle_next := head2\<rparr>)) head1 (us @ b # ys)"
    using assms us nb by (intro slist_redirect [where zs = "[]"]) auto
  then show ?thesis using ne nb find_last_slist [of H head1 us b] assms(1) us
    by (simp add: SLIST_CONCAT_def SLIST_FIRST_def SLIST_INIT_def set_next_def)
qed

text \<open>
  The loop over a list whose body keeps an invariant that fixes the heap: it ends, and the invariant holds.
\<close>

lemma foreach_slist:
  assumes inv: "\<And>s. I s \<Longrightarrow> heap_of s = H"
  shows "slist H p xs \<Longrightarrow> I s \<Longrightarrow>
    (\<And>a s. a \<in> set xs \<Longrightarrow> I s \<Longrightarrow> \<exists>s' r. body a s = Some (s', r) \<and> I s') \<Longrightarrow>
    \<exists>s' r. SLIST_FOREACH heap_of body p s = Some (s', r) \<and> I s'"
proof (induction xs arbitrary: p s)
  case Nil
  then show ?case by (subst SLIST_FOREACH.simps) simp
next
  case (Cons a xs)
  then obtain n where n: "p = Some a" "H a = Some n" "slist H (sle_next n) xs" by (auto split: option.splits)
  from Cons.prems(2,3) obtain s1 r where b: "body a s = Some (s1, r)" "I s1" by (meson list.set_intros(1))
  from Cons.IH [OF n(3) b(2)] Cons.prems(3) obtain s2 r2 where
    "SLIST_FOREACH heap_of body (sle_next n) s1 = Some (s2, r2)" "I s2" by (meson list.set_intros(2))
  with n b inv [OF b(2)] show ?case by (subst SLIST_FOREACH.simps) (simp add: SLIST_NEXT_def)
qed

section \<open>The interface the server uses\<close>

text \<open>\<open>free\<close> of a node: undefined if the node is not allocated.\<close>

definition free_node :: "'d node_heap \<Rightarrow> nat \<Rightarrow> 'd node_heap option" where
  "free_node H a = (if H a = None then None else Some (H(a := None)))"

text \<open>
  Emptying a list: take the first element, remove it, release it, until the list is empty. The
  two operations are parameters; the server uses \<open>SLIST_REMOVE\<close> and \<open>free_node\<close>.
\<close>

partial_function (option) drain ::
  "('h \<Rightarrow> node_ptr \<Rightarrow> node_ptr \<Rightarrow> ('h \<times> node_ptr) option) \<Rightarrow> ('h \<Rightarrow> nat \<Rightarrow> 'h option) \<Rightarrow>
   'h \<Rightarrow> node_ptr \<Rightarrow> ('h \<times> node_ptr) option" where
  "drain remove release h head =
     (if \<not> SLIST_EMPTY head then do {
        (h1, head1) \<leftarrow> remove h head (SLIST_FIRST head);
        a \<leftarrow> SLIST_FIRST head;
        h2 \<leftarrow> release h1 a;
        drain remove release h2 head1
      } else Some (h, head))"

locale node_list =
  fixes repr :: "'h \<Rightarrow> node_ptr \<Rightarrow> nat list \<Rightarrow> bool"
    and alloc :: "'h \<Rightarrow> nat set"
    and insert_head :: "'h \<Rightarrow> node_ptr \<Rightarrow> node_ptr \<Rightarrow> ('h \<times> node_ptr) option"
    and remove :: "'h \<Rightarrow> node_ptr \<Rightarrow> node_ptr \<Rightarrow> ('h \<times> node_ptr) option"
    and release :: "'h \<Rightarrow> nat \<Rightarrow> 'h option"
  assumes repr_Nil: "repr h p [] \<longleftrightarrow> p = None"
    and repr_Cons: "repr h p (a # xs) \<Longrightarrow> p = Some a"
    and repr_alloc: "repr h p xs \<Longrightarrow> set xs \<subseteq> alloc h \<and> distinct xs"
    and insert_repr: "repr h p xs \<Longrightarrow> e \<in> alloc h \<Longrightarrow> e \<notin> set xs \<Longrightarrow>
      \<exists>h'. insert_head h p (Some e) = Some (h', Some e) \<and> repr h' (Some e) (e # xs) \<and> alloc h' = alloc h"
    and remove_repr: "repr h p xs \<Longrightarrow> e \<in> set xs \<Longrightarrow>
      \<exists>h' p'. remove h p (Some e) = Some (h', p') \<and> repr h' p' (remove1 e xs) \<and> alloc h' = alloc h"
    and release_repr: "repr h p xs \<Longrightarrow> e \<in> alloc h \<Longrightarrow> e \<notin> set xs \<Longrightarrow>
      \<exists>h'. release h e = Some h' \<and> repr h' p xs \<and> alloc h' = alloc h - {e}"
begin

lemma drain_all:
  "repr h p xs \<Longrightarrow> \<exists>h'. drain remove release h p = Some (h', None) \<and> alloc h' = alloc h - set xs"
proof (induction xs arbitrary: h p)
  case Nil
  then show ?case by (subst drain.simps) (simp add: repr_Nil SLIST_EMPTY_def)
next
  case (Cons a xs)
  note p = repr_Cons [OF Cons.prems] and al = repr_alloc [OF Cons.prems]
  from remove_repr [OF Cons.prems, of a] obtain h1 p1 where
    1: "remove h p (Some a) = Some (h1, p1)" "repr h1 p1 xs" "alloc h1 = alloc h" by auto
  from release_repr [OF 1(2), of a] al 1(3) obtain h2 where
    2: "release h1 a = Some h2" "repr h2 p1 xs" "alloc h2 = alloc h - {a}" by auto
  from Cons.IH [OF 2(2)] obtain h' where
    "drain remove release h2 p1 = Some (h', None)" "alloc h' = alloc h2 - set xs" by blast
  with p 1 2 show ?case
    by (subst drain.simps) (auto simp: SLIST_EMPTY_def SLIST_FIRST_def)
qed

text \<open>An element that was inserted first is the one that is removed first.\<close>

lemma insert_remove:
  assumes "repr h p xs" and "e \<in> alloc h" and "e \<notin> set xs"
  shows "\<exists>h1 h2 p2. insert_head h p (Some e) = Some (h1, Some e) \<and> remove h1 (Some e) (Some e) = Some (h2, p2) \<and>
    repr h2 p2 xs \<and> alloc h2 = alloc h"
proof -
  from insert_repr [OF assms] obtain h1 where
    1: "insert_head h p (Some e) = Some (h1, Some e)" "repr h1 (Some e) (e # xs)" "alloc h1 = alloc h" by blast
  from remove_repr [OF 1(2), of e] 1(1,3) show ?thesis by auto
qed

end

lemma free_node_slist:
  assumes "slist H p xs" and "e \<in> dom H" and "e \<notin> set xs"
  shows "\<exists>H'. free_node H e = Some H' \<and> slist H' p xs \<and> dom H' = dom H - {e}"
  using assms slist_upd_other [of e xs H None p] by (auto simp: free_node_def simp del: slist_upd_other fun_upd_apply)

interpretation sl: node_list slist dom SLIST_INSERT_HEAD SLIST_REMOVE free_node
proof unfold_locales
  fix H :: "'d node_heap" and p xs e
  assume l: "slist H p xs"
  show "set xs \<subseteq> dom H \<and> distinct xs" using slist_alloc [OF l] slist_distinct [OF l] by blast
  show "\<exists>H'. SLIST_INSERT_HEAD H p (Some e) = Some (H', Some e) \<and> slist H' (Some e) (e # xs) \<and> dom H' = dom H"
    if e: "e \<in> dom H" "e \<notin> set xs"
  proof -
    from e(1) obtain n where "H e = Some n" by blast
    from insert_head_slist [OF l this e(2)] obtain H' where
      "SLIST_INSERT_HEAD H p (Some e) = Some (H', Some e)" "slist H' (Some e) (e # xs)" "node_data H' = node_data H" by blast
    with dom_node_data [of H' H] show ?thesis by simp
  qed
  show "\<exists>H' p'. SLIST_REMOVE H p (Some e) = Some (H', p') \<and> slist H' p' (remove1 e xs) \<and> dom H' = dom H"
    if e: "e \<in> set xs"
  proof -
    from remove_slist [OF l e] obtain H' p' where
      "SLIST_REMOVE H p (Some e) = Some (H', p')" "slist H' p' (remove1 e xs)" "node_data H' = node_data H" by blast
    with dom_node_data [of H' H] show ?thesis by simp
  qed
  show "\<exists>H'. free_node H e = Some H' \<and> slist H' p xs \<and> dom H' = dom H - {e}"
    if "e \<in> dom H" "e \<notin> set xs"
    using free_node_slist [OF l that] .
qed auto

section \<open>The contract of the macros\<close>

text \<open>
  C27. The list macros on two separate well-formed lists and an element of neither: inserting at the head or behind
  an element, removing an element, joining the lists and exchanging the heads are always defined, give well-formed lists with
  exactly the expected elements in the expected order, and change no element's data.
\<close>

theorem slist_macros_correct:
  assumes "slist H p xs" and "slist H q ys" and "set xs \<inter> set ys = {}" and "H e = Some n" and "e \<notin> set xs"
  shows "(\<exists>H'. SLIST_INSERT_HEAD H p (Some e) = Some (H', Some e) \<and> slist H' (Some e) (e # xs) \<and> node_data H' = node_data H) \<and>
    (\<forall>us b vs. xs = us @ b # vs \<longrightarrow>
      (\<exists>H'. SLIST_INSERT_AFTER H (Some b) (Some e) = Some H' \<and> slist H' p (us @ b # e # vs) \<and> node_data H' = node_data H)) \<and>
    (\<forall>b \<in> set xs. \<exists>H' p'. SLIST_REMOVE H p (Some b) = Some (H', p') \<and> slist H' p' (remove1 b xs) \<and> node_data H' = node_data H) \<and>
    (\<exists>H' p'. SLIST_CONCAT H p q = Some (H', p', None) \<and> slist H' p' (xs @ ys) \<and> node_data H' = node_data H) \<and>
    SLIST_SWAP p q = (q, p) \<and> (SLIST_EMPTY p \<longleftrightarrow> xs = [])"
proof (intro conjI allI ballI impI)
  show "\<exists>H'. SLIST_INSERT_HEAD H p (Some e) = Some (H', Some e) \<and> slist H' (Some e) (e # xs) \<and> node_data H' = node_data H"
    by (rule insert_head_slist [OF assms(1,4,5)])
  show "\<exists>H' p'. SLIST_CONCAT H p q = Some (H', p', None) \<and> slist H' p' (xs @ ys) \<and> node_data H' = node_data H"
    by (rule concat_slist [OF assms(1-3)])
  show "SLIST_SWAP p q = (q, p)" by (simp add: SLIST_SWAP_def SLIST_FIRST_def)
  show "SLIST_EMPTY p \<longleftrightarrow> xs = []" using assms(1) by (cases xs) (auto simp: SLIST_EMPTY_def)
next
  fix us b vs
  assume "xs = us @ b # vs"
  then show "\<exists>H'. SLIST_INSERT_AFTER H (Some b) (Some e) = Some H' \<and> slist H' p (us @ b # e # vs) \<and> node_data H' = node_data H"
    using insert_after_slist [of H p us b vs e n] assms(1,4,5) by simp
next
  fix b
  assume "b \<in> set xs"
  then show "\<exists>H' p'. SLIST_REMOVE H p (Some b) = Some (H', p') \<and> slist H' p' (remove1 b xs) \<and> node_data H' = node_data H"
    by (rule remove_slist [OF assms(1)])
qed

theorem slist_macros_correct_witness:
  "\<exists>H'. SLIST_CONCAT [0 \<mapsto> \<lparr>thread_data = ''a'', sle_next = Some 1\<rparr>, 1 \<mapsto> \<lparr>thread_data = ''b'', sle_next = None\<rparr>,
      2 \<mapsto> \<lparr>thread_data = ''c'', sle_next = None\<rparr>, 3 \<mapsto> \<lparr>thread_data = ''d'', sle_next = None\<rparr>] (Some 0) (Some 2) =
    Some (H', Some 0, None) \<and> slist H' (Some 0) [0, 1, 2]"
proof -
  let ?H = "[0 \<mapsto> \<lparr>thread_data = ''a'', sle_next = Some 1\<rparr>, 1 \<mapsto> \<lparr>thread_data = ''b'', sle_next = None\<rparr>,
      2 \<mapsto> \<lparr>thread_data = ''c'', sle_next = None\<rparr>, 3 \<mapsto> \<lparr>thread_data = ''d'', sle_next = None\<rparr>]"
  have "slist ?H (Some 0) [0, 1]" "slist ?H (Some 2) [2]" "set [0, 1] \<inter> set [2 :: nat] = {}"
    "?H 3 = Some \<lparr>thread_data = ''d'', sle_next = None\<rparr>" "3 \<notin> set [0, 1 :: nat]" by simp_all
  from slist_macros_correct [OF this] obtain H' p' where
    c: "SLIST_CONCAT ?H (Some 0) (Some 2) = Some (H', p', None)" "slist H' p' ([0, 1] @ [2])" by blast
  then have "p' = Some 0" by simp
  with c show ?thesis by (metis append_Cons append_Nil)
qed

end
