(* ===== verification/Server_Env.thy ===== *)
theory Server_Env
  imports Slist Kernel_Env
begin

text \<open>
  The state of the socket server (\<open>server/aesdsocket.h\<close> and the globals of
  \<open>server/aesdsocket.c\<close>) and the operating system around it. The system and library calls that
  are not part of the repository are the fields of a record \<open>os\<close>, over an arbitrary type \<open>'o\<close> of
  operating-system states: each takes the state and the arguments and returns the new state and the
  result. A state of type \<open>'o\<close> also stands for what other threads and the clients do between
  two calls. Messages to the system log and to the terminal are not modelled.
\<close>

section \<open>Constants and data\<close>

abbreviation SUCCESS :: int where "SUCCESS \<equiv> 0"
abbreviation ERROR :: int where "ERROR \<equiv> - 1"

definition BACKLOG_CONNECTIONS :: nat where
  [simp]: "BACKLOG_CONNECTIONS = 10"

definition BUF_LEN :: nat where
  "BUF_LEN = 1024"

definition TIMESTAMP_STRING_LENGTH :: nat where
  [simp]: "TIMESTAMP_STRING_LENGTH = 100"

definition DATA_FILE :: string where
  "DATA_FILE = ''/dev/aesdchar''"

definition ioctl_str :: string where
  "ioctl_str = ''AESDCHAR_IOCSEEKTO:''"

record status_flags =
  file_open :: bool
  log_open :: bool
  socket_open :: bool
  client_fd_open :: bool
  signal_caught :: bool
  daemon_mode :: bool
  command_status_success :: bool

text \<open>
  The pointers of a thread's data always name the one mutex \<open>lock\<close> and the one variable
  \<open>clientInfo\<close> of the accept loop.
\<close>

datatype mutex_ref = Global_lock
datatype addr_ref = Client_info

record ClientThreadData_t =
  threadId :: nat
  pMutex :: mutex_ref
  isThreadComplete :: bool
  thread_clientSocketFd :: int
  pClientAddr :: addr_ref

record ThreadTimestampData_t =
  ts_threadId :: nat
  ts_pMutex :: mutex_ref
  timeIntervalSecs :: int

record 'o srv =
  os_st :: 'o
  fatal_error_in_progress :: bool
  dataFileDescriptor :: int
  sock_fd :: int
  clientSocketFd :: int
  head :: node_ptr
  nodes :: "ClientThreadData_t node_heap"
  s_flags :: status_flags
  result :: "nat option"
  TS_data :: ThreadTimestampData_t

section \<open>System calls\<close>

text \<open>The ways the server opens files: \<open>O_RDWR | O_CREAT | O_APPEND\<close>, \<open>O_RDONLY\<close> and \<open>O_RDWR\<close>.\<close>

datatype open_mode = Rdwr_creat_append | Rdonly | Rdwr

text \<open>
  \<open>os_stack\<close> is the contents of an uninitialised local variable, \<open>os_completed\<close> tells whether the
  thread of a node has set its completion flag by now, \<open>os_signalled\<close> whether the signal handler has
  run by now; \<open>os_pthread_join\<close> returns the result of \<open>pthread_join\<close> and whether the thread's return
  value is a null pointer.
\<close>

record 'o os =
  os_recv :: "'o \<Rightarrow> int \<Rightarrow> nat \<Rightarrow> 'o \<times> int \<times> char list"
  os_open :: "'o \<Rightarrow> string \<Rightarrow> open_mode \<Rightarrow> 'o \<times> int"
  os_ioctl :: "'o \<Rightarrow> int \<Rightarrow> aesd_seekto \<Rightarrow> 'o \<times> int"
  os_write :: "'o \<Rightarrow> int \<Rightarrow> char list \<Rightarrow> 'o \<times> int"
  os_read :: "'o \<Rightarrow> int \<Rightarrow> nat \<Rightarrow> 'o \<times> int \<times> char list"
  os_send :: "'o \<Rightarrow> int \<Rightarrow> char list \<Rightarrow> 'o \<times> int"
  os_close :: "'o \<Rightarrow> int \<Rightarrow> 'o \<times> int"
  os_mutex_lock :: "'o \<Rightarrow> mutex_ref \<Rightarrow> 'o \<times> int"
  os_mutex_unlock :: "'o \<Rightarrow> mutex_ref \<Rightarrow> 'o \<times> int"
  os_mutex_init :: "'o \<Rightarrow> 'o \<times> int"
  os_mutex_destroy :: "'o \<Rightarrow> 'o \<times> int"
  os_stack :: "'o \<Rightarrow> aesd_seekto"
  os_accept :: "'o \<Rightarrow> int \<Rightarrow> 'o \<times> int"
  os_malloc :: "'o \<Rightarrow> ClientThreadData_t node_heap \<Rightarrow> 'o \<times> node_ptr"
  os_pthread_create :: "'o \<Rightarrow> nat \<Rightarrow> 'o \<times> int \<times> nat"
  os_pthread_join :: "'o \<Rightarrow> nat \<Rightarrow> 'o \<times> int \<times> bool"
  os_completed :: "'o \<Rightarrow> nat \<Rightarrow> bool"
  os_signalled :: "'o \<Rightarrow> bool"
  os_getaddrinfo :: "'o \<Rightarrow> 'o \<times> int \<times> nat option"
  os_freeaddrinfo :: "'o \<Rightarrow> nat \<Rightarrow> 'o \<times> unit"
  os_socket :: "'o \<Rightarrow> nat \<Rightarrow> 'o \<times> int"
  os_setsockopt :: "'o \<Rightarrow> int \<Rightarrow> 'o \<times> int"
  os_bind :: "'o \<Rightarrow> int \<Rightarrow> nat \<Rightarrow> 'o \<times> int"
  os_listen :: "'o \<Rightarrow> int \<Rightarrow> nat \<Rightarrow> 'o \<times> int"
  os_shutdown :: "'o \<Rightarrow> int \<Rightarrow> 'o \<times> int"
  os_signal :: "'o \<Rightarrow> int \<Rightarrow> bool \<Rightarrow> 'o \<times> unit"
  os_raise :: "'o \<Rightarrow> int \<Rightarrow> 'o \<times> unit"
  os_fork :: "'o \<Rightarrow> 'o \<times> int"
  os_setsid :: "'o \<Rightarrow> 'o \<times> int"
  os_chdir :: "'o \<Rightarrow> string \<Rightarrow> 'o \<times> int"
  os_umask :: "'o \<Rightarrow> 'o \<times> unit"
  os_dup2 :: "'o \<Rightarrow> int \<Rightarrow> int \<Rightarrow> 'o \<times> int"
  os_openlog :: "'o \<Rightarrow> 'o \<times> unit"
  os_closelog :: "'o \<Rightarrow> 'o \<times> unit"
  os_getopt :: "string list \<Rightarrow> char list"
  os_clock_gettime :: "'o \<Rightarrow> 'o \<times> int \<times> int"
  os_clock_nanosleep :: "'o \<Rightarrow> int \<Rightarrow> 'o \<times> int"
  os_strftime :: "'o \<Rightarrow> nat \<Rightarrow> char list"

text \<open>A call from the server: the new operating-system state replaces the old one.\<close>

definition syscall :: "('o \<Rightarrow> 'o \<times> 'r) \<Rightarrow> 'o srv \<Rightarrow> 'o srv \<times> 'r" where
  "syscall f s = (case f (os_st s) of (o', r) \<Rightarrow> (s\<lparr>os_st := o'\<rparr>, r))"

lemma syscall_simps:
  "syscall f s = (s\<lparr>os_st := fst (f (os_st s))\<rparr>, snd (f (os_st s)))"
  by (simp add: syscall_def split: prod.splits)

section \<open>A simple instance\<close>

text \<open>An operating system on which every call succeeds without effect.\<close>

definition idle_os :: "'o os" where
  "idle_os =
     \<lparr>os_recv = (\<lambda>st _ _. (st, 0, [])), os_open = (\<lambda>st _ _. (st, 3)), os_ioctl = (\<lambda>st _ _. (st, 0)),
      os_write = (\<lambda>st _ data. (st, int (length data))), os_read = (\<lambda>st _ _. (st, 0, [])),
      os_send = (\<lambda>st _ data. (st, int (length data))), os_close = (\<lambda>st _. (st, 0)),
      os_mutex_lock = (\<lambda>st _. (st, 0)), os_mutex_unlock = (\<lambda>st _. (st, 0)),
      os_mutex_init = (\<lambda>st. (st, 0)), os_mutex_destroy = (\<lambda>st. (st, 0)),
      os_stack = (\<lambda>_. \<lparr>write_cmd = 0, write_cmd_offset = 0\<rparr>), os_accept = (\<lambda>st _. (st, - 1)),
      os_malloc = (\<lambda>st H. (st, if H 5 = None then Some 5 else None)), os_pthread_create = (\<lambda>st _. (st, 0, 77)),
      os_pthread_join = (\<lambda>st _. (st, 0, False)), os_completed = (\<lambda>_ _. False), os_signalled = (\<lambda>_. False),
      os_getaddrinfo = (\<lambda>st. (st, 0, Some 1)), os_freeaddrinfo = (\<lambda>st _. (st, ())), os_socket = (\<lambda>st _. (st, 4)),
      os_setsockopt = (\<lambda>st _. (st, 0)), os_bind = (\<lambda>st _ _. (st, 0)), os_listen = (\<lambda>st _ _. (st, 0)),
      os_shutdown = (\<lambda>st _. (st, 0)), os_signal = (\<lambda>st _ _. (st, ())), os_raise = (\<lambda>st _. (st, ())),
      os_fork = (\<lambda>st. (st, 0)), os_setsid = (\<lambda>st. (st, 0)), os_chdir = (\<lambda>st _. (st, 0)),
      os_umask = (\<lambda>st. (st, ())), os_dup2 = (\<lambda>st _ _. (st, 0)), os_openlog = (\<lambda>st. (st, ())),
      os_closelog = (\<lambda>st. (st, ())), os_getopt = (\<lambda>_. []), os_clock_gettime = (\<lambda>st. (st, 0, 0)),
      os_clock_nanosleep = (\<lambda>st _. (st, 0)), os_strftime = (\<lambda>_ _. [])\<rparr>"

end
