(* ===== verification/Server_Handler.thy ===== *)
theory Server_Handler
  imports Server_Env
begin

text \<open>
  The thread that serves one client (\<open>client_data_handler\<close> of \<open>server/aesdsocket.c\<close>): receive until a
  newline arrives, passing each packet to the data file or, if it starts with
  \<open>AESDCHAR_IOCSEEKTO:\<close>, turning it into a seek command; then send the data file back to the
  client. The text form of the seek command is read with \<open>sscanf\<close>, modelled here for the one format string the code uses.
  A loop that never ends is \<open>None\<close>; undefined behaviour is the result \<open>Exit_undefined\<close>.
\<close>

section \<open>Scanning the seek command\<close>

text \<open>
  The conversion \<open>%d\<close> on the bytes of the receive buffer: skip white space, an optional sign, then
  the longest sequence of digits. The byte behind the digits has to be looked at, so a
  buffer that ends there is read beyond its end.
\<close>

datatype 'a scan = Overread | Mismatch | Matched 'a

definition isspace_c :: "char \<Rightarrow> bool" where
  "isspace_c c \<longleftrightarrow> c = CHR '' '' \<or> (9 \<le> (of_char c :: nat) \<and> (of_char c :: nat) \<le> 13)"

definition isdigit_c :: "char \<Rightarrow> bool" where
  "isdigit_c c \<longleftrightarrow> 48 \<le> (of_char c :: nat) \<and> (of_char c :: nat) \<le> 57"

fun scan_digits :: "char list \<Rightarrow> int \<Rightarrow> (int \<times> char list) option" where
  "scan_digits [] v = None"
| "scan_digits (c # cs) v =
     (if isdigit_c c then scan_digits cs (10 * v + (int (of_char c) - 48)) else Some (v, c # cs))"

definition scan_number :: "char list \<Rightarrow> (int \<times> char list) scan" where
  "scan_number cs =
     (case cs of
        [] \<Rightarrow> Overread
      | c # _ \<Rightarrow> if \<not> isdigit_c c then Mismatch
                 else case scan_digits cs 0 of None \<Rightarrow> Overread | Some vr \<Rightarrow> Matched vr)"

definition scan_d :: "char list \<Rightarrow> (int \<times> char list) scan" where
  "scan_d cs =
     (case dropWhile isspace_c cs of
        [] \<Rightarrow> Overread
      | c # rest \<Rightarrow>
          if c = CHR ''-'' then
            (case scan_number rest of
               Matched (v, r) \<Rightarrow> Matched (- v, r) | Mismatch \<Rightarrow> Mismatch | Overread \<Rightarrow> Overread)
          else if c = CHR ''+'' then scan_number rest
          else scan_number (c # rest))"

text \<open>Storing a scanned value in an \<open>int\<close>: undefined if the value does not fit.\<close>

definition store_int :: "int \<Rightarrow> u32 option" where
  "store_int v = (if - (2 ^ 31) \<le> v \<and> v < 2 ^ 31 then Some (word_of_int v) else None)"

text \<open>
  \<open>sscanf(receive_buffer, "AESDCHAR_IOCSEEKTO:%d,%d", \<dots>)\<close> on a buffer that starts with the literal
  part; a field that is not reached keeps its value.
\<close>

definition scan_seekto :: "char list \<Rightarrow> aesd_seekto \<Rightarrow> aesd_seekto option" where
  "scan_seekto receive_buffer uninit =
     (case scan_d (drop (length ioctl_str) receive_buffer) of
        Overread \<Rightarrow> None
      | Mismatch \<Rightarrow> Some uninit
      | Matched (v, rest) \<Rightarrow> do {
          w \<leftarrow> store_int v;
          let st = uninit\<lparr>write_cmd := w\<rparr>;
          if rest \<noteq> [] \<and> hd rest = CHR '','' then
            (case scan_d (tl rest) of
               Overread \<Rightarrow> None
             | Mismatch \<Rightarrow> Some st
             | Matched (v2, _) \<Rightarrow> map_option (\<lambda>w2. st\<lparr>write_cmd_offset := w2\<rparr>) (store_int v2))
          else Some st
        })"

section \<open>Receiving\<close>

datatype chunk_end = Chunk_done bool | Chunk_null | Chunk_undefined

text \<open>
  What happens to one received packet; \<open>Chunk_done True\<close> is \<open>ioctl_check == 0\<close>. The argument of \<open>sscanf\<close> has to be a
  string: on a buffer of 1024 bytes without a zero byte its behaviour is undefined.
\<close>

definition handle_chunk :: "'o os \<Rightarrow> 'o srv \<Rightarrow> char list \<Rightarrow> nat \<Rightarrow> 'o srv \<times> chunk_end" where
  "handle_chunk OS s receive_buffer bytes_received =
     (if take (length ioctl_str) receive_buffer = ioctl_str then
        if CHR 0x00 \<notin> set receive_buffer then (s, Chunk_undefined)
        else case scan_seekto receive_buffer (os_stack OS (os_st s)) of
          None \<Rightarrow> (s, Chunk_undefined)
        | Some aesd_seekto_data \<Rightarrow>
            let (s1, fd) = syscall (\<lambda>st. os_open OS st DATA_FILE Rdwr_creat_append) s;
                s2 = s1\<lparr>dataFileDescriptor := fd\<rparr>
            in if fd = ERROR then (s2, Chunk_null)
               else let (s3, _) = syscall (\<lambda>st. os_ioctl OS st (dataFileDescriptor s2) aesd_seekto_data) s2
                    in (s3, Chunk_done True)
      else
        let (s1, fd) = syscall (\<lambda>st. os_open OS st DATA_FILE Rdwr_creat_append) s;
            s2 = s1\<lparr>dataFileDescriptor := fd\<rparr>;
            (s3, r) = syscall (\<lambda>st. os_mutex_lock OS st Global_lock) s2
        in if r = ERROR then (s3, Chunk_null)
           else
             let (s4, r) = syscall (\<lambda>st. os_write OS st (dataFileDescriptor s3) (take bytes_received receive_buffer)) s3
             in if r = ERROR then (s4, Chunk_null)
                else
                  let (s5, r) = syscall (\<lambda>st. os_mutex_unlock OS st Global_lock) s4
                  in if r = ERROR then (s5, Chunk_null)
                     else let (s6, _) = syscall (\<lambda>st. os_close OS st (dataFileDescriptor s5)) s5
                          in (s6, Chunk_done False))"

datatype recv_end = Got_line bool | Recv_null | Recv_undefined

text \<open>
  The receive loop. A packet overwrites the front of the buffer, the bytes behind it stay as
  earlier packets left them.
\<close>

partial_function (option) recv_loop ::
  "'o os \<Rightarrow> int \<Rightarrow> 'o srv \<Rightarrow> char list \<Rightarrow> ('o srv \<times> recv_end) option" where
  "recv_loop OS cfd s receive_buffer =
     (let (s1, n, bytes) = syscall (\<lambda>st. os_recv OS st cfd BUF_LEN) s in
      if n = ERROR then Some (s1, Recv_null)
      else
        let buf = bytes @ drop (length bytes) receive_buffer;
            (s2, e) = handle_chunk OS s1 buf (nat n)
        in case e of
             Chunk_null \<Rightarrow> Some (s2, Recv_null)
           | Chunk_undefined \<Rightarrow> Some (s2, Recv_undefined)
           | Chunk_done ioctl \<Rightarrow>
               if newline \<in> set (take (nat n) buf) then Some (s2, Got_line ioctl)
               else recv_loop OS cfd s2 buf)"

section \<open>Sending the data file\<close>

partial_function (option) send_loop :: "'o os \<Rightarrow> int \<Rightarrow> 'o srv \<Rightarrow> ('o srv \<times> bool) option" where
  "send_loop OS cfd s =
     (let (s1, r) = syscall (\<lambda>st. os_mutex_lock OS st Global_lock) s in
      if r = ERROR then Some (s1, False)
      else
        let (s2, n, bytes) = syscall (\<lambda>st. os_read OS st (dataFileDescriptor s1) BUF_LEN) s1 in
        if n = ERROR then Some (s2, False)
        else
          let (s3, r) = syscall (\<lambda>st. os_mutex_unlock OS st Global_lock) s2 in
          if r = ERROR then Some (s3, False)
          else
            let (s4, sent) = syscall (\<lambda>st. os_send OS st cfd (take (nat n) bytes)) s3 in
            if sent = ERROR then Some (s4, False)
            else if 0 < n then send_loop OS cfd s4
            else Some (s4, True))"

section \<open>The thread\<close>

datatype thread_exit = Exit_NULL | Exit_param | Exit_undefined

definition set_complete :: "'o srv \<Rightarrow> nat \<Rightarrow> 'o srv" where
  "set_complete s a = s\<lparr>nodes := (nodes s)(a := map_option
     (\<lambda>n. n\<lparr>thread_data := (thread_data n)\<lparr>isThreadComplete := True\<rparr>\<rparr>) (nodes s a))\<rparr>"

text \<open>From the loop that sends the data file to the end of the thread.\<close>

definition finish_client :: "'o os \<Rightarrow> int \<Rightarrow> 'o srv \<Rightarrow> nat \<Rightarrow> ('o srv \<times> thread_exit) option" where
  "finish_client OS cfd s thread_param = do {
     (s3, sent) \<leftarrow> send_loop OS cfd s;
     if \<not> sent then Some (s3, Exit_NULL)
     else
       let (s4, _) = syscall (\<lambda>st. os_close OS st cfd) s3;
           s5 = set_complete s4 thread_param;
           (s6, _) = syscall (\<lambda>st. os_close OS st (dataFileDescriptor s5)) s5
       in Some (s6, Exit_param)
   }"

definition client_data_handler :: "'o os \<Rightarrow> 'o srv \<Rightarrow> nat \<Rightarrow> ('o srv \<times> thread_exit) option" where
  "client_data_handler OS s thread_param =
     (case nodes s thread_param of
        None \<Rightarrow> Some (s, Exit_undefined)
      | Some n \<Rightarrow>
          let cfd = thread_clientSocketFd (thread_data n) in do {
            (s1, e) \<leftarrow> recv_loop OS cfd s (replicate BUF_LEN CHR 0x00);
            (case e of
               Recv_null \<Rightarrow> Some (s1, Exit_NULL)
             | Recv_undefined \<Rightarrow> Some (s1, Exit_undefined)
             | Got_line ioctl \<Rightarrow>
                 let (s2, ok) =
                   (if \<not> ioctl then
                      let (s', fd) = syscall (\<lambda>st. os_open OS st DATA_FILE Rdonly) s1
                      in (s'\<lparr>dataFileDescriptor := fd\<rparr>, fd \<noteq> ERROR)
                    else (s1, True))
                 in if \<not> ok then Some (s2, Exit_NULL)
                    else finish_client OS cfd s2 thread_param)
          })"

end
