(* ===== verification/Server_Main.thy ===== *)
theory Server_Main
  imports Server_Handler
begin

text \<open>
  The main thread of the socket server (\<open>server/aesdsocket.c\<close>): start-up, the accept loop with its
  list of client threads, signal handling and clean-up, and the time-stamp thread, which
  is only compiled when the server writes to a regular file.
\<close>

section \<open>Clean-up and signals\<close>

definition free_and_nullify_result :: "'o os \<Rightarrow> 'o srv \<Rightarrow> 'o srv" where
  "free_and_nullify_result OS s =
     (case result s of
        None \<Rightarrow> s
      | Some a \<Rightarrow> (fst (syscall (\<lambda>st. os_freeaddrinfo OS st a) s))\<lparr>result := None\<rparr>)"

definition free_queue :: "'o srv \<Rightarrow> 'o srv option" where
  "free_queue s = do {
     (H, h) \<leftarrow> drain SLIST_REMOVE free_node (nodes s) (head s);
     Some (s\<lparr>nodes := H, head := h\<rparr>)
   }"

definition cleanup_on_exit :: "'o os \<Rightarrow> 'o srv \<Rightarrow> 'o srv option" where
  "cleanup_on_exit OS s0 =
     (let (s1, ret_status) = syscall (\<lambda>st. os_close OS st (dataFileDescriptor s0)) s0;
          s2 = (if ret_status = - 1 then s1\<lparr>s_flags := (s_flags s1)\<lparr>command_status_success := False\<rparr>\<rparr> else s1)
      in do {
        s3 \<leftarrow> free_queue s2;
        let s4 = (if \<not> signal_caught (s_flags s3) then fst (syscall (os_mutex_destroy OS) s3) else s3);
        let s5 = (if socket_open (s_flags s4)
                  then (let t = fst (syscall (\<lambda>st. os_close OS st (sock_fd s4)) s4)
                        in t\<lparr>s_flags := (s_flags t)\<lparr>socket_open := False\<rparr>\<rparr>) else s4);
        let s6 = (if client_fd_open (s_flags s5)
                  then (let t = fst (syscall (\<lambda>st. os_close OS st (clientSocketFd s5)) s5)
                        in t\<lparr>s_flags := (s_flags t)\<lparr>client_fd_open := False\<rparr>\<rparr>) else s5);
        let s7 = free_and_nullify_result OS s6;
        Some (if log_open (s_flags s7)
              then (let t = fst (syscall (os_closelog OS) s7)
                    in t\<lparr>s_flags := (s_flags t)\<lparr>log_open := False\<rparr>\<rparr>) else s7)
      })"

text \<open>\<open>os_signal\<close> with \<open>False\<close> restores the default action.\<close>

definition handle_termination :: "'o os \<Rightarrow> 'o srv \<Rightarrow> int \<Rightarrow> 'o srv option" where
  "handle_termination OS s sig =
     (if fatal_error_in_progress s then Some (fst (syscall (\<lambda>st. os_raise OS st sig) s))
      else
        let s1 = s\<lparr>fatal_error_in_progress := True\<rparr>;
            s2 = fst (syscall (\<lambda>st. os_shutdown OS st (sock_fd s1)) s1);
            s3 = s2\<lparr>s_flags := (s_flags s2)\<lparr>signal_caught := True\<rparr>\<rparr>
        in do {
          s4 \<leftarrow> cleanup_on_exit OS s3;
          let s5 = fst (syscall (\<lambda>st. os_signal OS st sig False) s4);
          Some (fst (syscall (\<lambda>st. os_raise OS st sig) s5))
        })"

section \<open>Accepting clients\<close>

definition fatal_now :: "'o os \<Rightarrow> 'o srv \<Rightarrow> bool" where
  "fatal_now OS s \<longleftrightarrow> fatal_error_in_progress s \<or> os_signalled OS (os_st s)"

text \<open>The body of the loop that joins completed threads: leave with \<open>ERROR\<close> or go on.\<close>

definition join_body :: "'o os \<Rightarrow> nat \<Rightarrow> 'o srv \<Rightarrow> ('o srv \<times> int option) option" where
  "join_body OS a s = do {
     n \<leftarrow> nodes s a;
     (if isThreadComplete (thread_data n) \<or> os_completed OS (os_st s) a then
        let (s1, r, null) = syscall (\<lambda>st. os_pthread_join OS st (threadId (thread_data n))) s in
        if r = ERROR then Some (s1, Some ERROR)
        else if null then Some (s1, Some ERROR)
        else Some (s1, None)
      else Some (s, None))
   }"

text \<open>
  A new node. The thread identifier and the list pointer of the allocated block are not initialised by the code; they are
  given the values 0 and null here, and both are assigned before the main thread reads them.
\<close>

definition new_node :: "int \<Rightarrow> ClientThreadData_t node" where
  "new_node fd = \<lparr>thread_data = \<lparr>threadId = 0, pMutex = Global_lock, isThreadComplete = False,
     thread_clientSocketFd = fd, pClientAddr = Client_info\<rparr>, sle_next = None\<rparr>"

definition set_threadId :: "'o srv \<Rightarrow> nat \<Rightarrow> nat \<Rightarrow> 'o srv" where
  "set_threadId s a tid = s\<lparr>nodes := (nodes s)(a := map_option
     (\<lambda>n. n\<lparr>thread_data := (thread_data n)\<lparr>threadId := tid\<rparr>\<rparr>) (nodes s a))\<rparr>"

text \<open>One accepted connection: the state behind it, and a return value if the loop is left.\<close>

definition serve_client :: "'o os \<Rightarrow> 'o srv \<Rightarrow> ('o srv \<times> int option) option" where
  "serve_client OS s =
     (let (s1, freshNode) = syscall (\<lambda>st. os_malloc OS st (nodes s)) s in
      case freshNode of
        None \<Rightarrow> Some (s1, Some ERROR)
      | Some a \<Rightarrow>
          let s2 = s1\<lparr>nodes := (nodes s1)(a \<mapsto> new_node (clientSocketFd s1))\<rparr>;
              (s3, r, tid) = syscall (\<lambda>st. os_pthread_create OS st a) s2
          in if r = ERROR then do {
               H \<leftarrow> free_node (nodes s3) a;
               Some (s3\<lparr>nodes := H\<rparr>, Some ERROR)
             }
             else
               let s4 = set_threadId s3 a tid in do {
                 (H, h') \<leftarrow> SLIST_INSERT_HEAD (nodes s4) (head s4) freshNode;
                 let s5 = s4\<lparr>nodes := H, head := h'\<rparr>;
                 SLIST_FOREACH nodes (join_body OS) (SLIST_FIRST (head s5)) s5
               })"

partial_function (option) accept_and_log_client :: "'o os \<Rightarrow> 'o srv \<Rightarrow> ('o srv \<times> int) option" where
  "accept_and_log_client OS s =
     (if \<not> fatal_now OS s then
        let (s1, fd) = syscall (\<lambda>st. os_accept OS st (sock_fd s)) s;
            s2 = s1\<lparr>clientSocketFd := fd\<rparr>
        in if fd = ERROR then
             (if \<not> fatal_now OS s2 then Some (s2, ERROR) else Some (s2, SUCCESS))
           else do {
             (s3, r) \<leftarrow> serve_client OS s2;
             (case r of Some v \<Rightarrow> Some (s3, v) | None \<Rightarrow> accept_and_log_client OS s3)
           }
      else Some (s, SUCCESS))"

section \<open>Start-up\<close>

datatype process_end = Returned int | Exited int

text \<open>
  \<open>run_daemon\<close>: the parent process exits inside the call, the child detaches from the terminal.
  The descriptors 0, 1 and 2 are the standard streams.
\<close>

definition run_daemon :: "'o os \<Rightarrow> 'o srv \<Rightarrow> 'o srv \<times> process_end" where
  "run_daemon OS s =
     (let (s1, forked_pid) = syscall (os_fork OS) s in
      if forked_pid < 0 then (s1, Returned ERROR)
      else if forked_pid > 0 then (s1, Exited 0)
      else
        let (s2, _) = syscall (os_umask OS) s1;
            (s3, r) = syscall (os_setsid OS) s2
        in if r < 0 then (s3, Returned (- 1))
           else
             let (s4, r) = syscall (\<lambda>st. os_chdir OS st ''/'') s3 in
             if r = - 1 then (s4, Returned (- 1))
             else
               let (s5, _) = syscall (\<lambda>st. os_close OS st 0) s4;
                   (s6, _) = syscall (\<lambda>st. os_close OS st 1) s5;
                   (s7, _) = syscall (\<lambda>st. os_close OS st 2) s6;
                   (s8, fd) = syscall (\<lambda>st. os_open OS st ''/dev/null'' Rdwr) s7
               in if fd = - 1 then (s8, Returned (- 1))
                  else
                    let (s9, r) = syscall (\<lambda>st. os_dup2 OS st fd 0) s8 in
                    if r = - 1 then (s9, Returned (- 1))
                    else
                      let (s10, r) = syscall (\<lambda>st. os_dup2 OS st fd 1) s9 in
                      if r = - 1 then (s10, Returned (- 1))
                      else
                        let (s11, r) = syscall (\<lambda>st. os_dup2 OS st fd 2) s10 in
                        if r = - 1 then (s11, Returned (- 1))
                        else (fst (syscall (\<lambda>st. os_close OS st fd) s11), Returned 0))"

text \<open>The phase up to the bound socket; \<open>False\<close> if a call failed and the clean-up is to follow.\<close>

definition bind_socket :: "'o os \<Rightarrow> 'o srv \<Rightarrow> 'o srv \<times> bool" where
  "bind_socket OS s =
     (let (s1, ret_status, res) = syscall (os_getaddrinfo OS) s;
          s2 = s1\<lparr>result := res\<rparr>
      in if ret_status \<noteq> SUCCESS then (s2, False)
         else case result s2 of
           None \<Rightarrow> (s2, False)
         | Some a \<Rightarrow>
             let (s3, fd) = syscall (\<lambda>st. os_socket OS st a) s2;
                 s4 = s3\<lparr>sock_fd := fd\<rparr>
             in if fd = ERROR then (s4, False)
                else
                  let (s5, r) = syscall (\<lambda>st. os_setsockopt OS st (sock_fd s4)) s4 in
                  if r = ERROR then (s5, False)
                  else
                    let (s6, r) = syscall (\<lambda>st. os_bind OS st (sock_fd s5) a) s5 in
                    if r = ERROR then (s6, False)
                    else (free_and_nullify_result OS s6, True))"

definition main_socket_application :: "'o os \<Rightarrow> 'o srv \<Rightarrow> ('o srv \<times> process_end) option" where
  "main_socket_application OS s0 =
     (let s1 = fst (syscall (\<lambda>st. os_signal OS st 2 True) s0);
          s2 = fst (syscall (\<lambda>st. os_signal OS st 15 True) s1);
          finish = (\<lambda>t. do { t' \<leftarrow> cleanup_on_exit OS t; Some (t', Returned 0) });
          (s3, bound) = bind_socket OS s2
      in if \<not> bound then finish s3
         else
           let (s4, e) = (if daemon_mode (s_flags s3) then run_daemon OS s3 else (s3, Returned 0)) in
           case e of
             Exited code \<Rightarrow> Some (s4, Exited code)
           | Returned v \<Rightarrow>
               if v = ERROR then finish s4
               else
                 let (s5, r) = syscall (\<lambda>st. os_listen OS st (sock_fd s4) BACKLOG_CONNECTIONS) s4 in
                 if r = ERROR then finish s5
                 else do {
                   (s6, _) \<leftarrow> accept_and_log_client OS s5;
                   finish s6
                 })"

definition main :: "'o os \<Rightarrow> 'o srv \<Rightarrow> string list \<Rightarrow> ('o srv \<times> process_end) option" where
  "main OS s0 argv =
     (let (s1, ret) = syscall (os_mutex_init OS) s0 in
      if ret \<noteq> 0 then Some (s1, Returned (- 1))
      else
        let (s2, _) = syscall (os_openlog OS) s1;
            s3 = (if CHR ''d'' \<in> set (os_getopt OS argv)
                  then s2\<lparr>s_flags := (s_flags s2)\<lparr>daemon_mode := True\<rparr>\<rparr> else s2)
        in do {
          (s4, e) \<leftarrow> main_socket_application OS s3;
          Some (s4, case e of
                      Exited code \<Rightarrow> Exited code
                    | Returned _ \<Rightarrow> Returned (if command_status_success (s_flags s4) then 0 else - 1))
        })"

section \<open>Time stamps\<close>

definition setup_time_logging :: "'o os \<Rightarrow> 'o srv \<Rightarrow> nat \<Rightarrow> 'o srv \<times> int" where
  "setup_time_logging OS s ts_addr =
     (let s1 = s\<lparr>TS_data := (TS_data s)\<lparr>ts_pMutex := Global_lock, timeIntervalSecs := 10\<rparr>\<rparr>;
          (s2, r, tid) = syscall (\<lambda>st. os_pthread_create OS st ts_addr) s1;
          s3 = s2\<lparr>TS_data := (TS_data s2)\<lparr>ts_threadId := tid\<rparr>\<rparr>
      in if r = ERROR then (s3, - 1) else (s3, 0))"

text \<open>The endless loop of the time-stamp thread; it returns only on an error.\<close>

partial_function (option) log_timestamps :: "'o os \<Rightarrow> 'o srv \<Rightarrow> 'o srv option" where
  "log_timestamps OS s =
     (let (s1, r, tv_sec) = syscall (os_clock_gettime OS) s in
      if r \<noteq> 0 then Some s1
      else
        let (s2, r) = syscall (\<lambda>st. os_clock_nanosleep OS st (tv_sec + timeIntervalSecs (TS_data s1))) s1 in
        if r \<noteq> 0 then Some s2
        else
          let formatted_timestamp = os_strftime OS (os_st s2) TIMESTAMP_STRING_LENGTH;
              (s3, r) = syscall (\<lambda>st. os_mutex_lock OS st Global_lock) s2
          in if r = ERROR then Some s3
             else
               let (s4, r) = syscall (\<lambda>st. os_write OS st (dataFileDescriptor s3) formatted_timestamp) s3 in
               if r = ERROR then Some s4
               else
                 let (s5, r) = syscall (\<lambda>st. os_mutex_unlock OS st Global_lock) s4 in
                 if r = ERROR then Some s5
                 else log_timestamps OS s5)"

end
