(* ===== verification/Server_Rounds.thy ===== *)
theory Server_Rounds
  imports Server_Main
begin

text \<open>
  One round of each of the two loops of the client thread, and the loops as iterations of their rounds: a round tells how the loop ends, or
  that another round follows. A property of a loop that ends is shown by induction over its rounds.
\<close>

section \<open>The send loop\<close>

definition send_once :: "'o os \<Rightarrow> int \<Rightarrow> 'o srv \<Rightarrow> 'o srv \<times> bool option" where
  "send_once OS cfd s =
     (let (s1, r) = syscall (\<lambda>st. os_mutex_lock OS st Global_lock) s in
      if r = ERROR then (s1, Some False)
      else
        let (s2, n, bytes) = syscall (\<lambda>st. os_read OS st (dataFileDescriptor s1) BUF_LEN) s1 in
        if n = ERROR then (s2, Some False)
        else
          let (s3, r) = syscall (\<lambda>st. os_mutex_unlock OS st Global_lock) s2 in
          if r = ERROR then (s3, Some False)
          else
            let (s4, sent) = syscall (\<lambda>st. os_send OS st cfd (take (nat n) bytes)) s3
            in (s4, if sent = ERROR then Some False else if 0 < n then None else Some True))"

lemma send_loop_round:
  "send_loop OS cfd s = (case send_once OS cfd s of (s', Some b) \<Rightarrow> Some (s', b) | (s', None) \<Rightarrow> send_loop OS cfd s')"
  by (subst send_loop.simps) (simp add: send_once_def split: prod.splits)

lemma send_loop_induct [consumes 1, case_names last more]:
  assumes "send_loop OS cfd s = Some y"
    and "\<And>s s' b. send_once OS cfd s = (s', Some b) \<Longrightarrow> P s (s', b)"
    and "\<And>s s' y. send_once OS cfd s = (s', None) \<Longrightarrow> P s' y \<Longrightarrow> P s y"
  shows "P s y"
proof -
  have "O' = OS \<and> c = cfd \<longrightarrow> P t y" if "send_loop O' c t = Some y" for O' c t y
  proof (rule send_loop.raw_induct [where P = "\<lambda>O' c t y. O' = OS \<and> c = cfd \<longrightarrow> P t y", OF _ that], goal_cases)
    case (1 rec O' c t y)
    have "(case send_once O' c t of (s', Some b) \<Rightarrow> Some (s', b) | (s', None) \<Rightarrow> rec O' c s') = Some y"
      using 1(2) by (auto simp: send_once_def Let_def case_prod_beta split: if_splits)
    then show ?case using assms(2,3) 1(1) by (cases y) (auto split: prod.splits option.splits)
  qed
  with assms(1) show ?thesis by blast
qed

section \<open>The receive loop\<close>

definition recv_once :: "'o os \<Rightarrow> int \<Rightarrow> 'o srv \<Rightarrow> char list \<Rightarrow> 'o srv \<times> char list \<times> recv_end option" where
  "recv_once OS cfd s receive_buffer =
     (let (s1, n, bytes) = syscall (\<lambda>st. os_recv OS st cfd BUF_LEN) s in
      if n = ERROR then (s1, receive_buffer, Some Recv_null)
      else
        let buf = bytes @ drop (length bytes) receive_buffer;
            (s2, e) = handle_chunk OS s1 buf (nat n)
        in (s2, buf, case e of
              Chunk_null \<Rightarrow> Some Recv_null
            | Chunk_undefined \<Rightarrow> Some Recv_undefined
            | Chunk_done ioctl \<Rightarrow> if newline \<in> set (take (nat n) buf) then Some (Got_line ioctl) else None))"

lemma recv_loop_round:
  "recv_loop OS cfd s buf =
     (case recv_once OS cfd s buf of (s', _, Some e) \<Rightarrow> Some (s', e) | (s', buf', None) \<Rightarrow> recv_loop OS cfd s' buf')"
  by (subst recv_loop.simps) (simp add: recv_once_def Let_def split: prod.splits chunk_end.splits)

lemma recv_loop_induct [consumes 1, case_names last more]:
  assumes "recv_loop OS cfd s buf = Some y"
    and "\<And>s b s' b' e. recv_once OS cfd s b = (s', b', Some e) \<Longrightarrow> P s b (s', e)"
    and "\<And>s b s' b' y. recv_once OS cfd s b = (s', b', None) \<Longrightarrow> P s' b' y \<Longrightarrow> P s b y"
  shows "P s buf y"
proof -
  have "O' = OS \<and> c = cfd \<longrightarrow> P t b y" if "recv_loop O' c t b = Some y" for O' c t b y
  proof (rule recv_loop.raw_induct [where P = "\<lambda>O' c t b y. O' = OS \<and> c = cfd \<longrightarrow> P t b y", OF _ that], goal_cases)
    case (1 rec O' c t b y)
    have "(case recv_once O' c t b of (s', _, Some e) \<Rightarrow> Some (s', e) | (s', b', None) \<Rightarrow> rec O' c s' b') = Some y"
      using 1(2) by (auto simp: recv_once_def Let_def case_prod_beta split: if_splits chunk_end.splits)
    then show ?case using assms(2,3) 1(1) by (cases y) (auto split: prod.splits option.splits)
  qed
  with assms(1) show ?thesis by blast
qed

end
