(* ===== verification/Server_Device.thy ===== *)
theory Server_Device
  imports Server_Rounds Command_Stream "HOL-Library.Sublist"
begin

text \<open>
  The interface between the socket server, the device behind its data file and the sockets, and what the client
  thread achieves over any system that keeps to it. \<open>stored\<close> is the device's content (the commands
  and the unfinished command), \<open>fpos\<close> the position of an open descriptor, \<open>inbox\<close> the packets still to be
  received from each socket and \<open>outbox\<close> the bytes sent on each. Every call may fail with \<open>- 1\<close>; \<open>failed\<close> tells that the
  last call did, \<open>short\<close> that some \<open>send\<close> took fewer bytes than it was given, and \<open>seekres\<close> is the result of the last \<open>ioctl\<close>.
\<close>

text \<open>The receive buffer after each packet: the packet, then what earlier packets left.\<close>

fun buffers :: "char list \<Rightarrow> char list list \<Rightarrow> char list list" where
  "buffers buf [] = []"
| "buffers buf (pk # ps) = (pk @ drop (length pk) buf) # buffers (pk @ drop (length pk) buf) ps"

locale char_device =
  fixes OS :: "'o os"
    and ok :: "'o \<Rightarrow> bool"
    and stored :: "'o \<Rightarrow> char list list \<times> char list"
    and fpos :: "'o \<Rightarrow> int \<Rightarrow> nat option"
    and inbox :: "'o \<Rightarrow> int \<Rightarrow> char list list"
    and outbox :: "'o \<Rightarrow> int \<Rightarrow> char list"
    and short :: "'o \<Rightarrow> bool"
    and unwrapped :: "'o \<Rightarrow> bool"
    and failed :: "'o \<Rightarrow> bool"
    and seekres :: "'o \<Rightarrow> int"
  assumes recv_law: "ok st \<Longrightarrow> inbox st cfd = pk # ps \<Longrightarrow> length pk \<le> BUF_LEN \<Longrightarrow>
      os_recv OS st cfd BUF_LEN = (st', n, bytes) \<Longrightarrow>
      if n = - 1 then failed st' else n = int (length pk) \<and> bytes = pk \<and> ok st' \<and> stored st' = stored st \<and>
        inbox st' = (inbox st)(cfd := ps) \<and> outbox st' = outbox st \<and> short st' = short st \<and> unwrapped st' = unwrapped st"
    and recv_end_law: "ok st \<Longrightarrow> inbox st cfd = [] \<Longrightarrow> os_recv OS st cfd BUF_LEN = (st', n, bytes) \<Longrightarrow>
      if n = - 1 then failed st' else n = 0 \<and> bytes = [] \<and> ok st' \<and> stored st' = stored st \<and>
        inbox st' = inbox st \<and> outbox st' = outbox st \<and> short st' = short st"
    and open_law: "ok st \<Longrightarrow> os_open OS st DATA_FILE mode = (st', fd) \<Longrightarrow>
      ok st' \<and> stored st' = stored st \<and> inbox st' = inbox st \<and> outbox st' = outbox st \<and> short st' = short st \<and>
        unwrapped st' = unwrapped st \<and> (if fd = - 1 then failed st' else fpos st' fd = Some 0)"
    and lock_law: "ok st \<Longrightarrow> os_mutex_lock OS st Global_lock = (st', r) \<Longrightarrow>
      ok st' \<and> stored st' = stored st \<and> inbox st' = inbox st \<and> outbox st' = outbox st \<and> short st' = short st \<and> fpos st' = fpos st \<and>
        seekres st' = seekres st \<and> (r = - 1 \<longrightarrow> failed st')"
    and unlock_law: "ok st \<Longrightarrow> os_mutex_unlock OS st Global_lock = (st', r) \<Longrightarrow>
      ok st' \<and> stored st' = stored st \<and> inbox st' = inbox st \<and> outbox st' = outbox st \<and> short st' = short st \<and> fpos st' = fpos st \<and>
        seekres st' = seekres st \<and> (r = - 1 \<longrightarrow> failed st')"
    and close_law: "ok st \<Longrightarrow> os_close OS st fd = (st', r) \<Longrightarrow>
      ok st' \<and> stored st' = stored st \<and> inbox st' = inbox st \<and> outbox st' = outbox st \<and> short st' = short st \<and> seekres st' = seekres st"
    and write_law: "ok st \<Longrightarrow> os_write OS st fd data = (st', n) \<Longrightarrow> length data \<le> BUF_LEN \<Longrightarrow>
      if n = - 1 then failed st' else ok st' \<and> stored st' = spec_write (stored st) data \<and> inbox st' = inbox st \<and>
        outbox st' = outbox st \<and> short st' = short st"
    and read_law: "ok st \<Longrightarrow> fpos st fd = Some p \<Longrightarrow> os_read OS st fd BUF_LEN = (st', n, bytes) \<Longrightarrow>
      if n = - 1 then failed st' else n = int (length bytes) \<and> length bytes \<le> BUF_LEN \<and> ok st' \<and> stored st' = stored st \<and> inbox st' = inbox st \<and>
        outbox st' = outbox st \<and> short st' = short st \<and> fpos st' fd = Some (p + length bytes) \<and> seekres st' = seekres st \<and>
        (\<exists>rest. drop p (concat (fst (stored st))) = bytes @ rest) \<and>
        (bytes = [] \<longrightarrow> length (concat (fst (stored st))) \<le> p)"
    and send_law: "ok st \<Longrightarrow> os_send OS st cfd bytes = (st', n) \<Longrightarrow>
      if n = - 1 then failed st' else 0 \<le> n \<and> ok st' \<and> stored st' = stored st \<and> inbox st' = inbox st \<and>
        outbox st' = (outbox st)(cfd := outbox st cfd @ take (nat n) bytes) \<and>
        short st' = (short st \<or> nat n < length bytes) \<and> fpos st' = fpos st \<and> seekres st' = seekres st"
    and ioctl_law: "ok st \<Longrightarrow> unwrapped st \<Longrightarrow> fpos st fd = Some p \<Longrightarrow>
      os_ioctl OS st fd \<lparr>write_cmd = c, write_cmd_offset = off\<rparr> = (st', r) \<Longrightarrow>
      ok st' \<and> stored st' = stored st \<and> inbox st' = inbox st \<and> outbox st' = outbox st \<and> short st' = short st \<and> seekres st' = r \<and>
      (if r = 0 then unat c < length (fst (stored st)) \<and> unat off < length (fst (stored st) ! unat c) \<and>
         fpos st' fd = Some (length (concat (take (unat c) (fst (stored st)))) + unat off)
       else fpos st' fd = Some p)"
begin

section \<open>Sending\<close>

text \<open>
  What is sent between two states: bytes of \<open>bytes\<close>, in their order and on the socket \<open>cfd\<close> only, and all of them unless a
  \<open>send\<close> was short.
\<close>

definition answered :: "int \<Rightarrow> char list \<Rightarrow> 'o \<Rightarrow> 'o \<Rightarrow> bool" where
  "answered cfd bytes st st' \<longleftrightarrow>
     (\<exists>out. outbox st' = (outbox st)(cfd := outbox st cfd @ out) \<and> subseq out bytes \<and> short st' = (short st \<or> out \<noteq> bytes))"

lemma answered_trans:
  assumes "answered cfd xs st st1" and "answered cfd ys st1 st2"
  shows "answered cfd (xs @ ys) st st2"
proof -
  from assms obtain o1 o2 where o: "outbox st1 = (outbox st)(cfd := outbox st cfd @ o1)" "subseq o1 xs" "short st1 = (short st \<or> o1 \<noteq> xs)"
    "outbox st2 = (outbox st1)(cfd := outbox st1 cfd @ o2)" "subseq o2 ys" "short st2 = (short st1 \<or> o2 \<noteq> ys)"
    unfolding answered_def by blast
  have "o1 @ o2 = xs @ ys \<longleftrightarrow> o1 = xs \<and> o2 = ys"
  proof
    assume eq: "o1 @ o2 = xs @ ys"
    have "length o1 \<le> length xs" "length o2 \<le> length ys" using o(2,5) by (simp_all add: list_emb_length)
    moreover have "length o1 + length o2 = length xs + length ys" using eq by (metis length_append)
    ultimately show "o1 = xs \<and> o2 = ys" using eq by simp
  qed simp
  then show ?thesis using o list_emb_append_mono [OF o(2,5)] unfolding answered_def
    by (intro exI [of _ "o1 @ o2"]) auto
qed

lemma answered_Nil: "outbox st' = outbox st \<Longrightarrow> short st' = short st \<Longrightarrow> answered cfd [] st st'"
  unfolding answered_def by (intro exI [of _ "[]"]) auto

text \<open>What a round sends, unless a call failed.\<close>

definition sent_on :: "int \<Rightarrow> nat \<Rightarrow> 'o srv \<Rightarrow> 'o srv \<Rightarrow> char list \<Rightarrow> bool" where
  "sent_on cfd p s s' bytes \<longleftrightarrow> ok (os_st s') \<and> stored (os_st s') = stored (os_st s) \<and> inbox (os_st s') = inbox (os_st s) \<and>
     seekres (os_st s') = seekres (os_st s) \<and> answered cfd bytes (os_st s) (os_st s') \<and>
     fpos (os_st s') (dataFileDescriptor s') = Some (p + length bytes) \<and>
     (\<exists>rest. drop p (concat (fst (stored (os_st s)))) = bytes @ rest) \<and>
     (bytes = [] \<longrightarrow> length (concat (fst (stored (os_st s)))) \<le> p)"

lemma send_once_law:
  assumes "ok (os_st s)" and f: "fpos (os_st s) (dataFileDescriptor s) = Some p" and once: "send_once OS cfd s = (s', e)"
  shows "nodes s' = nodes s" and "e = Some False \<and> failed (os_st s') \<or>
    (\<exists>bytes. sent_on cfd p s s' bytes \<and> e = (if bytes = [] then Some True else None))"
proof -
  let ?fd = "dataFileDescriptor s"
  obtain t1 r1 where c1: "os_mutex_lock OS (os_st s) Global_lock = (t1, r1)" by force
  obtain t2 n bytes where c2: "os_read OS t1 ?fd BUF_LEN = (t2, n, bytes)" by (metis prod_cases3)
  obtain t3 r3 where c3: "os_mutex_unlock OS t2 Global_lock = (t3, r3)" by force
  obtain t4 r4 where c4: "os_send OS t3 cfd (take (nat n) bytes) = (t4, r4)" by force
  let ?s = "\<lambda>t. s\<lparr>os_st := t\<rparr>"
  have eq: "(s', e) = (if r1 = ERROR then (?s t1, Some False) else if n = ERROR then (?s t2, Some False)
       else if r3 = ERROR then (?s t3, Some False)
       else (?s t4, if r4 = ERROR then Some False else if 0 < n then None else Some True))"
    unfolding once [symmetric] send_once_def by (simp add: syscall_def c1 c2 c3 c4)
  then show "nodes s' = nodes s" by (auto split: if_splits)
  note L1 = lock_law [OF assms(1) c1]
  have f1: "fpos t1 ?fd = Some p" using L1 f by simp
  note R = read_law [OF _ f1 c2]
  have L3: "ok t3 \<and> stored t3 = stored t2 \<and> inbox t3 = inbox t2 \<and> outbox t3 = outbox t2 \<and> short t3 = short t2 \<and> fpos t3 = fpos t2 \<and>
      seekres t3 = seekres t2 \<and> (r3 = ERROR \<longrightarrow> failed t3)" if "n \<noteq> ERROR"
    using unlock_law [OF _ c3] R L1 that by simp
  show "e = Some False \<and> failed (os_st s') \<or> (\<exists>bytes. sent_on cfd p s s' bytes \<and> e = (if bytes = [] then Some True else None))"
  proof (cases "r1 = ERROR \<or> n = ERROR \<or> r3 = ERROR \<or> r4 = ERROR")
    case True
    then show ?thesis using eq L1 R L3 send_law [OF _ c4] by (auto split: if_splits)
  next
    case False
    then have n: "n = int (length bytes)" using R L1 by simp
    note S = send_law [OF _ c4, unfolded n nat_int take_all [OF le_refl]]
    have st: "s' = ?s t4" using False eq by simp
    have o: "outbox t4 = (outbox (os_st s))(cfd := outbox (os_st s) cfd @ take (nat r4) bytes)"
      "short t4 = (short (os_st s) \<or> nat r4 < length bytes)" using False L1 R L3 S by simp_all
    have "subseq (take (nat r4) bytes) bytes" "nat r4 < length bytes \<longleftrightarrow> take (nat r4) bytes \<noteq> bytes"
      by (simp_all add: prefix_imp_subseq take_is_prefix not_le)
    then have "answered cfd bytes (os_st s) t4" unfolding answered_def using o by blast
    then have "sent_on cfd p s s' bytes" using False st L1 R L3 S by (auto simp: sent_on_def)
    then show ?thesis using False eq n by (intro disjI2 exI [of _ bytes]) auto
  qed
qed

text \<open>The send loop always ends; if no call failed, everything from the position on was sent.\<close>

lemma send_loop_sends:
  "ok (os_st s) \<Longrightarrow> fpos (os_st s) (dataFileDescriptor s) = Some p \<Longrightarrow>
   \<exists>s' b. send_loop OS cfd s = Some (s', b) \<and> nodes s' = nodes s \<and> (\<not> b \<longrightarrow> failed (os_st s')) \<and>
     (b \<longrightarrow> ok (os_st s') \<and> stored (os_st s') = stored (os_st s) \<and> seekres (os_st s') = seekres (os_st s) \<and>
        inbox (os_st s') = inbox (os_st s) \<and>
        answered cfd (drop p (concat (fst (stored (os_st s))))) (os_st s) (os_st s'))"
proof (induction "length (concat (fst (stored (os_st s)))) - p" arbitrary: s p rule: less_induct)
  case less
  obtain s1 e where once: "send_once OS cfd s = (s1, e)" by force
  note L = send_once_law [OF less.prems once]
  show ?case
  proof (cases "e = Some False \<and> failed (os_st s1)")
    case True
    then show ?thesis using once L(1) by (subst send_loop_round) auto
  next
    case False
    then obtain bytes rest where b: "sent_on cfd p s s1 bytes" "e = (if bytes = [] then Some True else None)"
      and r: "drop p (concat (fst (stored (os_st s)))) = bytes @ rest"
      using L(2) by (auto simp: sent_on_def)
    let ?all = "concat (fst (stored (os_st s)))"
    show ?thesis
    proof (cases "bytes = []")
      case True
      then show ?thesis using once L(1) b by (subst send_loop_round) (auto simp: sent_on_def)
    next
      case ne: False
      have "length bytes \<le> length ?all - p" "0 < length bytes"
        using r ne by (metis le_add1 length_append length_drop, simp)
      moreover have st: "stored (os_st s1) = stored (os_st s)" using b(1) by (simp add: sent_on_def)
      ultimately have m: "length (concat (fst (stored (os_st s1)))) - (p + length bytes) < length ?all - p"
        unfolding st by linarith
      have "drop (p + length bytes) ?all = rest" using r by (metis add.commute append_eq_conv_conj drop_drop)
      moreover have "ok (os_st s1)" "fpos (os_st s1) (dataFileDescriptor s1) = Some (p + length bytes)"
        using b(1) by (simp_all add: sent_on_def)
      ultimately obtain s' b' where l: "send_loop OS cfd s1 = Some (s', b')" "nodes s' = nodes s1" "\<not> b' \<longrightarrow> failed (os_st s')"
        "b' \<longrightarrow> ok (os_st s') \<and> stored (os_st s') = stored (os_st s1) \<and> seekres (os_st s') = seekres (os_st s1) \<and>
           inbox (os_st s') = inbox (os_st s1) \<and> answered cfd rest (os_st s1) (os_st s')"
        using less.hyps [OF m] st by auto
      then have "b' \<longrightarrow> answered cfd (bytes @ rest) (os_st s) (os_st s')"
        using b(1) answered_trans [of cfd bytes "os_st s" "os_st s1" rest "os_st s'"] unfolding sent_on_def by blast
      then show ?thesis using l once b ne L(1) r
        by (subst send_loop_round) (auto simp: sent_on_def)
    qed
  qed
qed

section \<open>Receiving\<close>

text \<open>A packet that is not a seek command is written to the device, or the thread gives up.\<close>

lemma handle_chunk_data:
  assumes "ok (os_st s)" and "take (length ioctl_str) buf \<noteq> ioctl_str" and "length (take n buf) \<le> BUF_LEN"
  obtains s' where "handle_chunk OS s buf n = (s', Chunk_null)" "nodes s' = nodes s" "failed (os_st s')"
  | s' where "handle_chunk OS s buf n = (s', Chunk_done False)" "nodes s' = nodes s" "ok (os_st s')"
      "stored (os_st s') = spec_write (stored (os_st s)) (take n buf)" "inbox (os_st s') = inbox (os_st s)"
      "outbox (os_st s') = outbox (os_st s)" "short (os_st s') = short (os_st s)"
proof -
  obtain t1 fd where c1: "os_open OS (os_st s) DATA_FILE Rdwr_creat_append = (t1, fd)" by force
  note O = open_law [OF assms(1) c1]
  obtain t2 r2 where c2: "os_mutex_lock OS t1 Global_lock = (t2, r2)" by force
  have L: "ok t2" "stored t2 = stored t1" "inbox t2 = inbox t1" "outbox t2 = outbox t1" "short t2 = short t1"
    using lock_law [OF _ c2] O by auto
  obtain t3 r3 where c3: "os_write OS t2 fd (take n buf) = (t3, r3)" by force
  obtain t4 r4 where c4: "os_mutex_unlock OS t3 Global_lock = (t4, r4)" by force
  obtain t5 r5 where c5: "os_close OS t4 fd = (t5, r5)" by force
  note cs = c1 c2 c3 c4 c5
  have eq: "handle_chunk OS s buf n =
      (if r2 = ERROR then (s\<lparr>os_st := t2, dataFileDescriptor := fd\<rparr>, Chunk_null)
       else if r3 = ERROR then (s\<lparr>os_st := t3, dataFileDescriptor := fd\<rparr>, Chunk_null)
       else if r4 = ERROR then (s\<lparr>os_st := t4, dataFileDescriptor := fd\<rparr>, Chunk_null)
       else (s\<lparr>os_st := t5, dataFileDescriptor := fd\<rparr>, Chunk_done False))"
    using cs assms(2) by (simp add: handle_chunk_def syscall_def)
  have W0: "if r3 = ERROR then failed t3 else ok t3 \<and> stored t3 = spec_write (stored t2) (take n buf) \<and>
      inbox t3 = inbox t2 \<and> outbox t3 = outbox t2 \<and> short t3 = short t2"
    using write_law [OF L(1) c3 assms(3)] .
  have U0: "ok t4 \<and> stored t4 = stored t3 \<and> inbox t4 = inbox t3 \<and> outbox t4 = outbox t3 \<and> short t4 = short t3 \<and> (r4 = ERROR \<longrightarrow> failed t4)"
    if "r3 \<noteq> ERROR" using unlock_law [OF _ c4] W0 that by simp
  let ?s = "\<lambda>t. s\<lparr>os_st := t, dataFileDescriptor := fd\<rparr>"
  consider (r2) "r2 = ERROR" | (r3) "r2 \<noteq> ERROR" "r3 = ERROR" | (r4) "r2 \<noteq> ERROR" "r3 \<noteq> ERROR" "r4 = ERROR"
    | (none) "r2 \<noteq> ERROR" "r3 \<noteq> ERROR" "r4 \<noteq> ERROR" by blast
  then show thesis
  proof cases
    case r2
    then show thesis using eq lock_law [OF _ c2] O by (intro that(1) [of "?s t2"]) simp_all
  next
    case r3
    then show thesis using eq W0 by (intro that(1) [of "?s t3"]) simp_all
  next
    case r4
    then show thesis using eq U0 by (intro that(1) [of "?s t4"]) simp_all
  next
    case none
    note False = none and U = U0 [OF none(2)]
    have W: "ok t3" "stored t3 = spec_write (stored t2) (take n buf)" "inbox t3 = inbox t2" "outbox t3 = outbox t2" "short t3 = short t2"
      using W0 none by auto
    have "ok t5 \<and> stored t5 = stored t4 \<and> inbox t5 = inbox t4 \<and> outbox t5 = outbox t4 \<and> short t5 = short t4"
      using close_law [OF _ c5] U by blast
    then show thesis using eq False W U L O by (intro that(2) [of "s\<lparr>os_st := t5, dataFileDescriptor := fd\<rparr>"]) auto
  qed
qed

text \<open>One packet that is not a seek command: it is written, or the thread gives up.\<close>

lemma recv_once_data:
  assumes "ok (os_st s)" and "inbox (os_st s) cfd = pk # rest" and "length pk \<le> BUF_LEN"
    and "take (length ioctl_str) (pk @ drop (length pk) buf) \<noteq> ioctl_str"
  obtains (null) s' b where "recv_once OS cfd s buf = (s', b, Some Recv_null)" "nodes s' = nodes s" "failed (os_st s')"
  | (stored) s' where "recv_once OS cfd s buf = (s', pk @ drop (length pk) buf, if newline \<in> set pk then Some (Got_line False) else None)"
      "nodes s' = nodes s" "ok (os_st s')" "stored (os_st s') = spec_write (stored (os_st s)) pk" "inbox (os_st s') = (inbox (os_st s))(cfd := rest)"
      "outbox (os_st s') = outbox (os_st s)" "short (os_st s') = short (os_st s)"
proof -
  obtain t n bytes where c: "os_recv OS (os_st s) cfd BUF_LEN = (t, n, bytes)" by (metis prod_cases3)
  note R = recv_law [OF assms(1,2,3) c]
  show thesis
  proof (cases "n = ERROR")
    case True
    then show thesis using c R by (intro null [of "s\<lparr>os_st := t\<rparr>" buf]) (simp_all add: recv_once_def syscall_def)
  next
    case False
    then have n: "n = int (length pk)" "bytes = pk" "ok (os_st (s\<lparr>os_st := t\<rparr>))"
      "stored t = stored (os_st s)" "inbox t = (inbox (os_st s))(cfd := rest)" "outbox t = outbox (os_st s)"
      "short t = short (os_st s)" using R by simp_all
    let ?b = "pk @ drop (length pk) buf"
    have "length (take (length pk) ?b) \<le> BUF_LEN" using assms(3) by simp
    with n(3) assms(4) show thesis
    proof (cases rule: handle_chunk_data)
      case (1 s')
      then show thesis using c n(1,2) by (intro null [of s' ?b]) (simp_all add: recv_once_def syscall_def)
    next
      case (2 s')
      then show thesis using c n by (intro stored [of s']) (simp_all add: recv_once_def syscall_def)
    qed
  qed
qed

text \<open>
  A command spread over packets, none of which makes the buffer look like a seek command: the loop
  ends after the packet with the newline, and all packets are written in order.
\<close>

lemma recv_loop_data:
  assumes "\<forall>pk \<in> set front. newline \<notin> set pk" and "newline \<in> set final"
    and "\<forall>b \<in> set (buffers buf (front @ [final])). take (length ioctl_str) b \<noteq> ioctl_str"
    and "\<forall>pk \<in> set (front @ [final]). length pk \<le> BUF_LEN"
    and "ok (os_st s)" and "inbox (os_st s) cfd = front @ final # rest"
  shows "\<exists>s' e. recv_loop OS cfd s buf = Some (s', e) \<and> nodes s' = nodes s \<and> (e = Recv_null \<or> e = Got_line False) \<and>
    (e = Recv_null \<longrightarrow> failed (os_st s')) \<and> (e = Got_line False \<longrightarrow> ok (os_st s') \<and> inbox (os_st s') = (inbox (os_st s))(cfd := rest) \<and> outbox (os_st s') = outbox (os_st s) \<and>
       short (os_st s') = short (os_st s) \<and> stored (os_st s') = fold (\<lambda>data st. spec_write st data) (front @ [final]) (stored (os_st s)))"
  using assms
proof (induction front arbitrary: s buf)
  case Nil
  have pk: "inbox (os_st s) cfd = final # rest" "length final \<le> BUF_LEN" "take (length ioctl_str) (final @ drop (length final) buf) \<noteq> ioctl_str"
    using Nil(3,4,6) by simp_all
  from Nil(5) pk show ?case
    by (cases rule: recv_once_data [where cfd = cfd]) (use Nil(2) in \<open>subst recv_loop_round, simp\<close>)+
next
  case (Cons pk front)
  have pk: "inbox (os_st s) cfd = pk # front @ final # rest" "length pk \<le> BUF_LEN" "take (length ioctl_str) (pk @ drop (length pk) buf) \<noteq> ioctl_str"
    using Cons.prems by simp_all
  from Cons.prems(5) pk show ?case
  proof (cases rule: recv_once_data [where cfd = cfd])
    case (null s' b)
    then show ?thesis by (subst recv_loop_round) simp
  next
    case (stored s')
    then have "recv_loop OS cfd s buf = recv_loop OS cfd s' (pk @ drop (length pk) buf)"
      using Cons.prems(1) by (subst recv_loop_round) simp
    moreover have u: "(inbox (os_st s'))(cfd := rest) = (inbox (os_st s))(cfd := rest)"
      and i: "inbox (os_st s') cfd = front @ final # rest" using stored(5) by simp_all
    have "\<forall>pk \<in> set front. newline \<notin> set pk" "\<forall>pk \<in> set (front @ [final]). length pk \<le> BUF_LEN"
      "\<forall>b \<in> set (buffers (pk @ drop (length pk) buf) (front @ [final])). take (length ioctl_str) b \<noteq> ioctl_str"
      using Cons.prems(1,3,4) by simp_all
    note Cons.IH [OF this(1) Cons.prems(2) this(3,2) stored(3) i, unfolded u stored(2,4,6,7)]
    ultimately show ?thesis by simp
  qed
qed

section \<open>The whole thread\<close>

text \<open>Once the descriptor is open: send, close both descriptors, report completion.\<close>

lemma finish_thread:
  assumes "ok (os_st s)" and "fpos (os_st s) (dataFileDescriptor s) = Some p"
  shows "\<exists>s' x. finish_client OS cfd s a = Some (s', x) \<and> (x = Exit_NULL \<or> x = Exit_param) \<and>
    (x = Exit_NULL \<longrightarrow> failed (os_st s')) \<and> (x = Exit_param \<longrightarrow> ok (os_st s') \<and> stored (os_st s') = stored (os_st s) \<and> seekres (os_st s') = seekres (os_st s) \<and>
       inbox (os_st s') = inbox (os_st s) \<and> answered cfd (drop p (concat (fst (stored (os_st s))))) (os_st s) (os_st s') \<and>
       nodes s' = nodes (set_complete s a))"
proof -
  from send_loop_sends [OF assms, of cfd] obtain s3 b where
    l: "send_loop OS cfd s = Some (s3, b)" "nodes s3 = nodes s" "\<not> b \<Longrightarrow> failed (os_st s3)"
    and sent: "b \<Longrightarrow> ok (os_st s3) \<and> stored (os_st s3) = stored (os_st s) \<and> seekres (os_st s3) = seekres (os_st s) \<and>
        inbox (os_st s3) = inbox (os_st s) \<and> answered cfd (drop p (concat (fst (stored (os_st s))))) (os_st s) (os_st s3)" by blast
  show ?thesis
  proof (cases b)
    case True
    obtain t4 r4 where c4: "os_close OS (os_st s3) cfd = (t4, r4)" by force
    note C4 = close_law [OF _ c4]
    obtain t5 r5 where c5: "os_close OS t4 (dataFileDescriptor s3) = (t5, r5)" by force
    note C5 = close_law [OF _ c5]
    show ?thesis using l True sent [OF True] C4 C5 c4 c5
      by (simp add: finish_client_def syscall_def set_complete_def answered_def)
  next
    case False
    then show ?thesis using l by (simp add: finish_client_def)
  qed
qed

lemma handler_data:
  assumes "nodes s a = Some n"
    and "\<forall>pk \<in> set front. newline \<notin> set pk" and "newline \<in> set final"
    and "\<forall>b \<in> set (buffers (replicate BUF_LEN CHR 0x00) (front @ [final])). take (length ioctl_str) b \<noteq> ioctl_str"
    and "\<forall>pk \<in> set (front @ [final]). length pk \<le> BUF_LEN"
    and "ok (os_st s)" and cfd: "thread_clientSocketFd (thread_data n) = cfd" and "inbox (os_st s) cfd = front @ final # rest"
  shows "\<exists>s' x. client_data_handler OS s a = Some (s', x) \<and> (x = Exit_NULL \<or> x = Exit_param) \<and>
    (x = Exit_NULL \<longrightarrow> failed (os_st s')) \<and> (x = Exit_param \<longrightarrow> ok (os_st s') \<and> inbox (os_st s') = (inbox (os_st s))(cfd := rest) \<and>
       stored (os_st s') = fold (\<lambda>data st. spec_write st data) (front @ [final]) (stored (os_st s)) \<and>
       answered cfd (concat (fst (stored (os_st s')))) (os_st s) (os_st s') \<and>
       nodes s' = nodes (set_complete s a))"
proof -
  from recv_loop_data [OF assms(2-6,8)] obtain s1 e where
    r: "recv_loop OS cfd s (replicate BUF_LEN CHR 0x00) = Some (s1, e)" "nodes s1 = nodes s"
      "e = Recv_null \<or> e = Got_line False" "e = Recv_null \<Longrightarrow> failed (os_st s1)"
    and R: "e = Got_line False \<Longrightarrow> ok (os_st s1) \<and> inbox (os_st s1) = (inbox (os_st s))(cfd := rest) \<and> outbox (os_st s1) = outbox (os_st s) \<and>
       short (os_st s1) = short (os_st s) \<and> stored (os_st s1) = fold (\<lambda>data st. spec_write st data) (front @ [final]) (stored (os_st s))" by blast
  show ?thesis
  proof (cases "e = Recv_null")
    case True
    then show ?thesis using r assms(1) cfd by (simp add: client_data_handler_def)
  next
    case False
    then have e: "e = Got_line False" using r(3) by blast
    obtain t fd where c: "os_open OS (os_st s1) DATA_FILE Rdonly = (t, fd)" by force
    note O = open_law [OF _ c]
    show ?thesis
    proof (cases "fd = ERROR")
      case True
      then show ?thesis using r e assms(1) cfd c O R [OF e] by (simp add: client_data_handler_def syscall_def)
    next
      case ok_fd: False
      let ?s2 = "s1\<lparr>os_st := t, dataFileDescriptor := fd\<rparr>"
      have "ok (os_st ?s2)" "fpos (os_st ?s2) (dataFileDescriptor ?s2) = Some 0"
        using O R [OF e] ok_fd by auto
      from finish_thread [OF this, of cfd a] obtain s' x where
        f: "finish_client OS cfd ?s2 a = Some (s', x)" "x = Exit_NULL \<or> x = Exit_param" "x = Exit_NULL \<Longrightarrow> failed (os_st s')"
          "x = Exit_param \<Longrightarrow> ok (os_st s') \<and> stored (os_st s') = stored t \<and> inbox (os_st s') = inbox t \<and>
             answered cfd (concat (fst (stored t))) t (os_st s') \<and>
             nodes s' = nodes (set_complete ?s2 a)" by auto
      then have "client_data_handler OS s a = Some (s', x)"
        using r(1) e assms(1) cfd c ok_fd by (simp add: client_data_handler_def syscall_def Let_def)
      then show ?thesis using f(2-4) O R [OF e] r(2) by (auto simp: set_complete_def answered_def)
    qed
  qed
qed

text \<open>
  A seek command in one packet: nothing is stored, and the data is sent from the position it names,
  or from the beginning if the device refuses the position.
\<close>

lemma handler_seek:
  assumes "nodes s a = Some n" and "ok (os_st s)" and "unwrapped (os_st s)" and cfd: "thread_clientSocketFd (thread_data n) = cfd"
    and "inbox (os_st s) cfd = pk # rest" and "length pk < BUF_LEN" and "newline \<in> set pk"
    and cmd: "take (length ioctl_str) (pk @ drop (length pk) (replicate BUF_LEN CHR 0x00)) = ioctl_str"
    and scan: "\<And>u. scan_seekto (pk @ drop (length pk) (replicate BUF_LEN CHR 0x00)) u =
      Some \<lparr>write_cmd = c, write_cmd_offset = off\<rparr>"
  defines "log \<equiv> fst (stored (os_st s))"
  shows "\<exists>s' x. client_data_handler OS s a = Some (s', x) \<and> (x = Exit_NULL \<or> x = Exit_param) \<and>
    (x = Exit_NULL \<longrightarrow> failed (os_st s')) \<and> (x = Exit_param \<longrightarrow> ok (os_st s') \<and> stored (os_st s') = stored (os_st s) \<and> inbox (os_st s') = (inbox (os_st s))(cfd := rest) \<and>
       (if seekres (os_st s') = 0
        then unat c < length log \<and> unat off < length (log ! unat c) \<and>
          answered cfd (drop (length (concat (take (unat c) log)) + unat off) (concat log)) (os_st s) (os_st s')
        else answered cfd (concat log) (os_st s) (os_st s')))"
proof -
  let ?b = "pk @ drop (length pk) (replicate BUF_LEN CHR 0x00)"
  have z: "CHR 0x00 \<in> set ?b" using assms(6) by simp
  have le: "length pk \<le> BUF_LEN" using assms(6) by simp
  obtain t k bytes where c: "os_recv OS (os_st s) cfd BUF_LEN = (t, k, bytes)" by (metis prod_cases3)
  obtain t1 fd where c1: "os_open OS t DATA_FILE Rdwr_creat_append = (t1, fd)" by force
  obtain t2 r where c2: "os_ioctl OS t1 fd \<lparr>write_cmd = c, write_cmd_offset = off\<rparr> = (t2, r)" by force
  show ?thesis
  proof (cases "k = ERROR \<or> fd = ERROR")
    case True
    have "\<exists>s'. recv_loop OS cfd s (replicate BUF_LEN CHR 0x00) = Some (s', Recv_null) \<and> failed (os_st s')"
    proof (cases "k = ERROR")
      case True
      then show ?thesis using c recv_law [OF assms(2,5) le c] by (subst recv_loop.simps) (simp add: syscall_def)
    next
      case k: False
      then have "bytes = pk" "k = int (length pk)" "ok t" using recv_law [OF assms(2,5) le c] by auto
      then show ?thesis using c c1 True k cmd scan z open_law [OF _ c1]
        by (subst recv_loop.simps) (simp add: syscall_def handle_chunk_def)
    qed
    then show ?thesis using assms(1) cfd by (auto simp: client_data_handler_def)
  next
    case False
    have R: "bytes = pk" "k = int (length pk)" "ok t" "stored t = stored (os_st s)" "outbox t = outbox (os_st s)" "short t = short (os_st s)"
      "inbox t = (inbox (os_st s))(cfd := rest)" "unwrapped t" using recv_law [OF assms(2,5) le c] False assms(3) by auto
    have O: "ok t1" "stored t1 = stored (os_st s)" "outbox t1 = outbox (os_st s)" "unwrapped t1" "fpos t1 fd = Some 0"
      "short t1 = short (os_st s)" "inbox t1 = (inbox (os_st s))(cfd := rest)"
      using open_law [OF R(3) c1] False R by auto
    note I = ioctl_law [OF O(1,4,5) c2]
    let ?s2 = "s\<lparr>os_st := t2, dataFileDescriptor := fd\<rparr>"
    have rl: "recv_loop OS cfd s (replicate BUF_LEN CHR 0x00) = Some (?s2, Got_line True)"
      using c c1 c2 False R(1,2) cmd scan z assms(7)
      by (subst recv_loop.simps) (simp add: syscall_def handle_chunk_def)
    obtain p where p: "fpos t2 fd = Some p"
      "if seekres t2 = 0 then unat c < length log \<and> unat off < length (log ! unat c) \<and>
         p = length (concat (take (unat c) log)) + unat off else p = 0"
      using I O(2) by (auto simp: log_def split: if_splits)
    have "ok (os_st ?s2)" "fpos (os_st ?s2) (dataFileDescriptor ?s2) = Some p" using I p by auto
    from finish_thread [OF this, of cfd a] obtain s' x where
      f: "finish_client OS cfd ?s2 a = Some (s', x)" "x = Exit_NULL \<or> x = Exit_param" "x = Exit_NULL \<Longrightarrow> failed (os_st s')"
        "x = Exit_param \<Longrightarrow> ok (os_st s') \<and> stored (os_st s') = stored t2 \<and> seekres (os_st s') = seekres t2 \<and> inbox (os_st s') = inbox t2 \<and>
           answered cfd (drop p (concat (fst (stored t2)))) t2 (os_st s')" by auto
    then have "client_data_handler OS s a = Some (s', x)"
      using rl assms(1) cfd by (simp add: client_data_handler_def Let_def)
    moreover have "answered cfd bs t2 st' = answered cfd bs (os_st s) st'" for bs st'
      using I O(3,6) by (simp add: answered_def)
    ultimately show ?thesis using f(2-4) I O(2,7) p(2) by (auto simp: log_def)
  qed
qed

end

end
