(* ===== verification/Server_Driver.thy ===== *)
theory Server_Driver
  imports Server_Device Driver_Properties
begin

text \<open>
  The character driver as the device behind the server's data file, and sockets: the server's system calls on
  the data file are the operations of the driver model, on a kernel that may answer every
  call differently (\<open>kern\<close> is a sequence of kernels, one per call). Files and sockets share the descriptor numbers; each socket has
  its own packets to be received and its own bytes sent, and the network may refuse or cut short every call. The
  interface of \<open>Server_Device\<close> is interpreted on this system, so the facts about the client thread hold for
  the server on top of the driver.
\<close>

section \<open>The combined system\<close>

text \<open>
  \<open>socks\<close> are the open sockets. \<open>inq st c\<close> holds what has arrived on socket \<open>c\<close>, a list element per packet, and is empty once all
  was received and the peer has closed; \<open>outq st c\<close> is what was sent on it. \<open>net\<close> decides about the calls on sockets, one after the other: a
  negative number makes the call fail, and a \<open>send\<close> takes at most the given number of bytes; \<open>short_sent\<close> records
  that one took fewer than it was given.
\<close>

record dev_client =
  dsys :: sys
  kern :: "nat \<Rightarrow> kernel"
  tick :: nat
  layout :: "aesd_seekto \<Rightarrow> char list"
  socks :: "int set"
  inq :: "int \<Rightarrow> char list list"
  outq :: "int \<Rightarrow> char list"
  net :: "nat \<Rightarrow> int"
  net_calls :: nat
  short_sent :: bool
  erred :: bool
  seek_ret :: int

abbreviation dkst :: "dev_client \<Rightarrow> kstate" where
  "dkst st \<equiv> kst (dsys st)"

abbreviation dkern :: "dev_client \<Rightarrow> kernel" where
  "dkern st \<equiv> kern st (tick st)"

text \<open>The state after a call on descriptor \<open>fd\<close>.\<close>

definition after_call :: "dev_client \<Rightarrow> kstate \<Rightarrow> nat \<Rightarrow> file_t \<Rightarrow> dev_client" where
  "after_call st s fd f =
     st\<lparr>tick := tick st + 1, dsys := (dsys st)\<lparr>kst := s, files := (files (dsys st))(fd \<mapsto> f)\<rparr>\<rparr>"

definition open_file :: "dev_client \<Rightarrow> int \<Rightarrow> file_t option" where
  "open_file st fd = (if fd < 0 then None else files (dsys st) (nat fd))"

text \<open>\<open>recv\<close> returns at most \<open>n\<close> bytes; the rest of a longer packet stays.\<close>

definition d_recv :: "dev_client \<Rightarrow> int \<Rightarrow> nat \<Rightarrow> dev_client \<times> int \<times> char list" where
  "d_recv st cfd n =
     (let st1 = st\<lparr>net_calls := net_calls st + 1\<rparr> in
      if cfd \<notin> socks st \<or> net st (net_calls st) < 0 then (st1, - 1, [])
      else case inq st cfd of
             [] \<Rightarrow> (st1, 0, [])
           | pk # ps \<Rightarrow>
               let bytes = take n pk; more = (if length pk \<le> n then ps else drop n pk # ps)
               in (st1\<lparr>inq := (inq st)(cfd := more)\<rparr>, int (length bytes), bytes))"

text \<open>The number of descriptors a process may have; 0, 1 and 2 are the standard streams.\<close>

definition fd_range :: "nat list" where
  "fd_range = [3..<1024]"

definition d_open :: "dev_client \<Rightarrow> string \<Rightarrow> open_mode \<Rightarrow> dev_client \<times> int" where
  "d_open st path mode =
     (if path \<noteq> DATA_FILE then (st, - 1)
      else case List.find (\<lambda>fd. files (dsys st) fd = None \<and> int fd \<notin> socks st) fd_range of
             None \<Rightarrow> (st, - 1)
           | Some fd \<Rightarrow> (after_call st (dkst st) fd (fst (aesd_open fresh_file)), int fd))"

definition d_close :: "dev_client \<Rightarrow> int \<Rightarrow> dev_client \<times> int" where
  "d_close st fd =
     (if fd \<in> socks st then (st\<lparr>socks := socks st - {fd}\<rparr>, 0)
      else case open_file st fd of
        None \<Rightarrow> (st, - 1)
      | Some f \<Rightarrow> (st\<lparr>dsys := (dsys st)\<lparr>files := (files (dsys st))(nat fd := None)\<rparr>\<rparr>,
                   sint (snd (aesd_release f))))"

text \<open>A negative result of the driver becomes \<open>- 1\<close> with \<open>errno\<close> set.\<close>

definition ret_val :: "ssize_t \<Rightarrow> int" where
  "ret_val r = (if sint r < 0 then - 1 else sint r)"

definition d_write :: "dev_client \<Rightarrow> int \<Rightarrow> char list \<Rightarrow> dev_client \<times> int" where
  "d_write st fd data =
     (case open_file st fd of
        None \<Rightarrow> (st, - 1)
      | Some f \<Rightarrow>
          (case aesd_write (dkern st) (put data (dkst st)) (Some f) (Some 0) (word_of_nat (length data)) (f_pos f) of
             None \<Rightarrow> (st, - 1)
           | Some (s, pos, r) \<Rightarrow> (after_call st s (nat fd) (f\<lparr>f_pos := pos\<rparr>), ret_val r)))"

definition d_read :: "dev_client \<Rightarrow> int \<Rightarrow> nat \<Rightarrow> dev_client \<times> int \<times> char list" where
  "d_read st fd n =
     (case open_file st fd of
        None \<Rightarrow> (st, - 1, [])
      | Some f \<Rightarrow>
          (case aesd_read (dkern st) (dkst st) (Some f) (Some 0) (word_of_nat n) (f_pos f) of
             None \<Rightarrow> (st, - 1, [])
           | Some (s, pos, r) \<Rightarrow>
               (after_call st s (nat fd) (f\<lparr>f_pos := pos\<rparr>), ret_val r, umem_read (umem s) 0 (nat (ret_val r)))))"

definition d_ioctl :: "dev_client \<Rightarrow> int \<Rightarrow> aesd_seekto \<Rightarrow> dev_client \<times> int" where
  "d_ioctl st fd x =
     (case open_file st fd of
        None \<Rightarrow> (st, - 1)
      | Some f \<Rightarrow>
          (case aesd_ioctl (dkern st) (put (layout st x) (dkst st)) f (AESDCHAR_IOCSEEKTO (dkern st)) 0 of
             None \<Rightarrow> (st, - 1)
           | Some (s, f', r) \<Rightarrow> (after_call st s (nat fd) f', ret_val r)))"

definition d_send :: "dev_client \<Rightarrow> int \<Rightarrow> char list \<Rightarrow> dev_client \<times> int" where
  "d_send st cfd bytes =
     (let st1 = st\<lparr>net_calls := net_calls st + 1\<rparr>; v = net st (net_calls st) in
      if cfd \<notin> socks st \<or> v < 0 then (st1, - 1)
      else let k = min (nat v) (length bytes)
           in (st1\<lparr>outq := (outq st)(cfd := outq st cfd @ take k bytes),
                   short_sent := short_sent st \<or> k < length bytes\<rparr>, int k))"

text \<open>\<open>erred\<close> records whether the last call to open, read or write the data file or to use a socket failed, \<open>seek_ret\<close> what the last \<open>ioctl\<close> returned.\<close>

definition note_error :: "dev_client \<times> int \<Rightarrow> dev_client \<times> int" where
  "note_error = (\<lambda>(st, n). (st\<lparr>erred := (n = - 1)\<rparr>, n))"

definition note_seek :: "dev_client \<times> int \<Rightarrow> dev_client \<times> int" where
  "note_seek = (\<lambda>(st, n). (st\<lparr>seek_ret := n\<rparr>, n))"

definition note_read :: "dev_client \<times> int \<times> char list \<Rightarrow> dev_client \<times> int \<times> char list" where
  "note_read = (\<lambda>(st, n, bytes). (st\<lparr>erred := (n = - 1)\<rparr>, n, bytes))"

text \<open>The calls that play no part in serving a client succeed without effect.\<close>

definition driver_os :: "dev_client os" where
  "driver_os =
     \<lparr>os_recv = (\<lambda>st cfd n. note_read (d_recv st cfd n)), os_open = (\<lambda>st path mode. note_error (d_open st path mode)), os_ioctl = (\<lambda>st fd x. note_seek (d_ioctl st fd x)),
      os_write = (\<lambda>st fd data. note_error (d_write st fd data)), os_read = (\<lambda>st fd n. note_read (d_read st fd n)),
      os_send = (\<lambda>st cfd bytes. note_error (d_send st cfd bytes)), os_close = d_close, os_mutex_lock = (\<lambda>st _. (st, 0)), os_mutex_unlock = (\<lambda>st _. (st, 0)),
      os_mutex_init = (\<lambda>st. (st, 0)), os_mutex_destroy = (\<lambda>st. (st, 0)),
      os_stack = (\<lambda>_. \<lparr>write_cmd = 0, write_cmd_offset = 0\<rparr>), os_accept = (\<lambda>st _. (st, - 1)),
      os_malloc = (\<lambda>st _. (st, None)), os_pthread_create = (\<lambda>st _. (st, 11, 0)),
      os_pthread_join = (\<lambda>st _. (st, 0, False)), os_completed = (\<lambda>_ _. False), os_signalled = (\<lambda>_. False),
      os_getaddrinfo = (\<lambda>st. (st, 0, None)), os_freeaddrinfo = (\<lambda>st _. (st, ())), os_socket = (\<lambda>st _. (st, - 1)),
      os_setsockopt = (\<lambda>st _. (st, 0)), os_bind = (\<lambda>st _ _. (st, 0)), os_listen = (\<lambda>st _ _. (st, 0)),
      os_shutdown = (\<lambda>st _. (st, 0)), os_signal = (\<lambda>st _ _. (st, ())), os_raise = (\<lambda>st _. (st, ())),
      os_fork = (\<lambda>st. (st, - 1)), os_setsid = (\<lambda>st. (st, 0)), os_chdir = (\<lambda>st _. (st, 0)),
      os_umask = (\<lambda>st. (st, ())), os_dup2 = (\<lambda>st _ _. (st, 0)), os_openlog = (\<lambda>st. (st, ())),
      os_closelog = (\<lambda>st. (st, ())), os_getopt = (\<lambda>_. []), os_clock_gettime = (\<lambda>st. (st, 0, 0)),
      os_clock_nanosleep = (\<lambda>st _. (st, 0)), os_strftime = (\<lambda>_ _. [])\<rparr>"

section \<open>Invariant and content\<close>

definition d_ok :: "dev_client \<Rightarrow> bool" where
  "d_ok st \<longleftrightarrow> (\<forall>i. kernel_ok (kern st i)) \<and>
     (\<forall>i x. length (layout st x) = 8 \<and> seekto_of_bytes (kern st i) (layout st x) = x) \<and>
     sys_inv (dsys st) \<and> dev_inv (heap (dkst st)) (aesd_device (dkst st))"

definition d_stored :: "dev_client \<Rightarrow> char list list \<times> char list" where
  "d_stored st = dev_abs (dkst st)"

definition d_fpos :: "dev_client \<Rightarrow> int \<Rightarrow> nat option" where
  "d_fpos st fd = map_option (\<lambda>f. unat (f_pos f)) (open_file st fd)"

definition d_unwrapped :: "dev_client \<Rightarrow> bool" where
  "d_unwrapped st \<longleftrightarrow> out_offs (buffer (aesd_device (dkst st))) = 0"

lemma d_okD:
  assumes "d_ok st"
  shows "kernel_ok (kern st i)" "dev_inv (heap (dkst st)) (aesd_device (dkst st))"
    "dev_safe (heap (dkst st)) (aesd_device (dkst st))" "\<not> lock (aesd_device (dkst st))"
    "open_file st fd = Some f \<Longrightarrow> private_data f = Aesd_device_ptr"
    "length (layout st x) = 8" "seekto_of_bytes (kern st i) (layout st x) = x"
  using assms by (auto simp: d_ok_def sys_inv_def open_file_def split: if_splits)

lemma after_call_ok:
  assumes "d_ok st" and "dev_inv (heap s) (aesd_device s)" and "\<not> lock (aesd_device s)"
    and "private_data f = Aesd_device_ptr"
  shows "d_ok (after_call st s fd f)"
  using assms by (auto simp: d_ok_def sys_inv_def after_call_def dev_inv_def split: if_splits)

lemma after_call_simps [simp]:
  "kst (dsys (after_call st s fd f)) = s" "inq (after_call st s fd f) = inq st"
  "outq (after_call st s fd f) = outq st" "short_sent (after_call st s fd f) = short_sent st"
  "socks (after_call st s fd f) = socks st" "net (after_call st s fd f) = net st" "d_fpos (after_call st s fd f) (int fd) = Some (unat (f_pos f))"
  by (simp_all add: after_call_def d_fpos_def open_file_def)

lemma open_file_fd: "open_file st fd = Some f \<Longrightarrow> fd = int (nat fd)"
  by (auto simp: open_file_def split: if_splits)

section \<open>The calls\<close>

lemma d_open_law:
  assumes "d_ok st" and "d_open st path mode = (st', fd)"
  shows "d_ok st' \<and> d_stored st' = d_stored st \<and> inq st' = inq st \<and> outq st' = outq st \<and> short_sent st' = short_sent st \<and>
    d_unwrapped st' = d_unwrapped st \<and> (fd = - 1 \<or> d_fpos st' fd = Some 0)"
proof -
  have "d_ok (after_call st (dkst st) k (fst (aesd_open fresh_file)))" for k
    using d_okD [OF assms(1)] by (intro after_call_ok [OF assms(1)]) (auto simp: aesd_open_def)
  then show ?thesis using assms
    by (auto simp: d_open_def d_stored_def d_unwrapped_def aesd_open_def fresh_file_def
        split: if_splits option.splits)
qed

lemma d_close_law:
  assumes "d_ok st" and "d_close st fd = (st', r)"
  shows "d_ok st' \<and> d_stored st' = d_stored st \<and> inq st' = inq st \<and> outq st' = outq st \<and> short_sent st' = short_sent st"
  using assms by (auto simp: d_close_def d_ok_def sys_inv_def d_stored_def split: option.splits if_splits)

lemma ret_val_neq: "ret_val r \<noteq> - 1 \<Longrightarrow> 0 \<le> sint r \<and> ret_val r = sint r"
  by (auto simp: ret_val_def split: if_splits)

lemma d_write_law:
  assumes "d_ok st" and w: "d_write st fd data = (st', n)" and len: "length data \<le> BUF_LEN"
  shows "n = - 1 \<or> d_ok st' \<and> d_stored st' = spec_write (d_stored st) data \<and> inq st' = inq st \<and> outq st' = outq st \<and> short_sent st' = short_sent st"
proof (cases "n = - 1")
  case False
  note D = d_okD [OF assms(1)]
  from w False obtain f s pos r where f: "open_file st fd = Some f"
    and a: "aesd_write (dkern st) (put data (dkst st)) (Some f) (Some 0) (word_of_nat (length data)) (f_pos f) =
      Some (s, pos, r)"
    and st': "st' = after_call st s (nat fd) (f\<lparr>f_pos := pos\<rparr>)" and n: "n = ret_val r"
    by (auto simp: d_write_def split: option.splits)
  have data: "umem_read (umem (put data (dkst st))) 0 (unat (word_of_nat (length data) :: size_t)) = data"
    using len by (intro put_read) (simp add: BUF_LEN_def)
  have ok: "0 \<le> sint r" using ret_val_neq False n by blast
  have pre: "dev_inv (heap (put data (dkst st))) (aesd_device (put data (dkst st)))"
    "\<not> lock (aesd_device (put data (dkst st)))" using D by simp_all
  note S = write_ok_step [OF D(1) pre(1) D(5) [OF f] pre(2) a ok]
  have "d_ok st'" unfolding st' using S(1,2) D(5) [OF f] by (intro after_call_ok [OF assms(1)]) simp_all
  moreover have "dev_abs s = spec_write (dev_abs (dkst st)) data" using S(3) unfolding data put_inv(3) .
  ultimately show ?thesis using st' by (simp add: d_stored_def)
qed simp

lemma d_read_law:
  assumes "d_ok st" and p: "d_fpos st fd = Some p" and r: "d_read st fd BUF_LEN = (st', n, bytes)"
  shows "n = - 1 \<or> n = int (length bytes) \<and> length bytes \<le> BUF_LEN \<and> d_ok st' \<and> d_stored st' = d_stored st \<and> inq st' = inq st \<and>
    outq st' = outq st \<and> short_sent st' = short_sent st \<and> d_fpos st' fd = Some (p + length bytes) \<and>
    (\<exists>rest. drop p (concat (fst (d_stored st))) = bytes @ rest) \<and>
    (bytes = [] \<longrightarrow> length (concat (fst (d_stored st))) \<le> p)"
proof (cases "n = - 1")
  case False
  note D = d_okD [OF assms(1)]
  let ?s = "dkst st"
  let ?log = "dev_log (heap ?s) (aesd_device ?s)"
  obtain f where f: "open_file st fd = Some f" "unat (f_pos f) = p" using p by (auto simp: d_fpos_def)
  define m where "m = read_len ?log p 1024"
  define bs where "bs = take m (drop p (concat ?log))"
  have le: "m \<le> length (concat ?log) - p" unfolding m_def by (rule read_len_le(1))
  have tot: "length (concat ?log) < 2 ^ 63" using dev_log_total [OF D(3)] .
  have w: "sint (word_of_nat m :: ssize_t) = int m" using le tot by (intro sint_word_of_nat_64) linarith
  have cnt: "unat (word_of_nat BUF_LEN :: size_t) = 1024" by (simp add: BUF_LEN_def)
  from D(1) [of "tick st"] D(3) D(5) [OF f(1)] D(4)
  have rd: "aesd_read (dkern st) ?s (Some f) (Some 0) (word_of_nat BUF_LEN) (f_pos f) =
      Some (?s\<lparr>umem := umem_write (umem ?s) 0 bs\<rparr>, f_pos f + word_of_nat m, word_of_nat m)"
  proof (cases rule: aesd_read_cases [where count = "word_of_nat BUF_LEN" and ubuf = 0 and pos = "f_pos f"])
    case success
    then show ?thesis by (simp add: cnt f(2) bs_def m_def)
  qed (use r False f(1) in \<open>simp_all add: d_read_def ret_val_def split: option.splits\<close>)
  have b: "length bs = m" using le by (simp add: bs_def)
  then have "umem_read (umem_write (umem ?s) 0 bs) 0 m = bs" using umem_read_write by metis
  then have eq: "st' = after_call st (?s\<lparr>umem := umem_write (umem ?s) 0 bs\<rparr>) (nat fd) (f\<lparr>f_pos := f_pos f + word_of_nat m\<rparr>)"
      "n = int m" "bytes = bs"
    using r rd f(1) w by (auto simp: d_read_def ret_val_def)
  have un: "unat (word_of_nat m :: loff_t) = m" using le tot by (intro unat_word_of_nat) simp
  have "unat (f_pos f + word_of_nat m) = p + m"
  proof (cases "m = 0")
    case False
    then have "p + m \<le> length (concat ?log)" using le by linarith
    then have "p + m < 2 ^ 64" using tot by simp
    then show ?thesis using f(2) un by (subst unat_add_no_wrap) simp_all
  qed (simp add: f(2))
  moreover have "d_fpos st' fd = Some (unat (f_pos f + word_of_nat m))"
    unfolding eq(1) by (subst open_file_fd [OF f(1)]) (simp only: after_call_simps, simp)
  moreover have "\<exists>rest. drop p (concat ?log) = bs @ rest" unfolding bs_def by (metis append_take_drop_id)
  moreover have "bs = [] \<longrightarrow> length (concat ?log) \<le> p"
    using read_len_zero [of ?log p 1024] b by (auto simp: m_def)
  moreover have "m \<le> BUF_LEN" unfolding m_def BUF_LEN_def by (rule read_len_le(2))
  moreover have "d_ok st'" unfolding eq(1) using D(2,4) D(5) [OF f(1)] by (intro after_call_ok [OF assms(1)]) simp_all
  ultimately show ?thesis using eq b by (simp add: d_stored_def dev_abs_def)
qed simp


lemma d_ioctl_law:
  assumes "d_ok st" and u: "d_unwrapped st" and p: "d_fpos st fd = Some p"
    and i: "d_ioctl st fd \<lparr>write_cmd = c, write_cmd_offset = off\<rparr> = (st', r)"
  shows "d_ok st' \<and> d_stored st' = d_stored st \<and> inq st' = inq st \<and> outq st' = outq st \<and> short_sent st' = short_sent st \<and>
    (if r = 0 then unat c < length (fst (d_stored st)) \<and> unat off < length (fst (d_stored st) ! unat c) \<and>
       d_fpos st' fd = Some (length (concat (take (unat c) (fst (d_stored st)))) + unat off)
     else d_fpos st' fd = Some p)"
proof -
  note D = d_okD [OF assms(1)]
  let ?x = "\<lparr>write_cmd = c, write_cmd_offset = off\<rparr>"
  let ?s = "put (layout st ?x) (dkst st)"
  obtain f where f: "open_file st fd = Some f" "unat (f_pos f) = p" using p by (auto simp: d_fpos_def)
  have fd: "d_fpos (after_call st s (nat fd) g) fd = Some (unat (f_pos g))" for s g
    by (subst open_file_fd [OF f(1)]) (simp only: after_call_simps)
  have ok: "d_ok (after_call st ?s (nat fd) g)" if "private_data g = Aesd_device_ptr" for g
    using D(2,4) that by (intro after_call_ok [OF assms(1)]) simp_all
  have "umem_read (umem ?s) 0 8 = layout st ?x"
    using put_read [of "layout st ?x" "dkst st"] D(6) by (simp del: put_inv)
  then have x: "seekto_of_bytes (dkern st) (umem_read (umem ?s) 0 8) = ?x" using D(7) by simp
  have pre: "dev_safe (heap ?s) (aesd_device ?s)" "\<not> lock (aesd_device ?s)" "out_offs (buffer (aesd_device ?s)) = 0"
    using D(3,4) u by (simp_all add: d_unwrapped_def)
  have abs: "d_stored (after_call st ?s (nat fd) g) = d_stored st" for g by (simp add: d_stored_def)
  from D(1) [of "tick st"] pre(1) D(5) [OF f(1)] pre(2,3) x show ?thesis
  proof (cases rule: ioctl_unwrapped_cases)
    case (refused e)
    have st': "st' = after_call st ?s (nat fd) f" "r = ret_val e" using i refused(1) f(1) by (auto simp: d_ioctl_def)
    moreover have "r \<noteq> 0" using refused(2) st'(2) by (auto simp: ret_val_def)
    ultimately show ?thesis using fd f(2) ok [OF D(5) [OF f(1)]] abs by simp
  next
    case (moved q)
    have st': "st' = after_call st ?s (nat fd) (f\<lparr>f_pos := q\<rparr>)" "r = 0"
      using i moved(1) f(1) by (auto simp: d_ioctl_def ret_val_def)
    moreover have "d_ok st'" unfolding st'(1) using D(5) [OF f(1)] by (intro ok) simp
    ultimately show ?thesis using fd moved(2-4) abs by (simp add: d_stored_def dev_abs_def length_concat)
  qed
qed

section \<open>The interface holds\<close>

lemma d_recv_law:
  assumes "d_ok st" and "inq st cfd = pk # ps" and "length pk \<le> k" and "d_recv st cfd k = (st', n, bytes)"
  shows "n = - 1 \<or> n = int (length pk) \<and> bytes = pk \<and> d_ok st' \<and> d_stored st' = d_stored st \<and> inq st' = (inq st)(cfd := ps) \<and>
    outq st' = outq st \<and> short_sent st' = short_sent st \<and> d_unwrapped st' = d_unwrapped st"
  using assms by (auto simp: d_recv_def d_ok_def d_stored_def d_unwrapped_def Let_def split: if_splits)

lemma d_recv_end_law:
  assumes "d_ok st" and "inq st cfd = []" and "d_recv st cfd k = (st', n, bytes)"
  shows "n = - 1 \<or> n = 0 \<and> bytes = [] \<and> d_ok st' \<and> d_stored st' = d_stored st \<and> inq st' = inq st \<and>
    outq st' = outq st \<and> short_sent st' = short_sent st"
  using assms by (auto simp: d_recv_def d_ok_def d_stored_def Let_def split: if_splits)

lemma d_send_law:
  assumes "d_ok st" and "d_send st cfd bytes = (st', n)"
  shows "n = - 1 \<or> 0 \<le> n \<and> d_ok st' \<and> d_stored st' = d_stored st \<and> inq st' = inq st \<and>
    outq st' = (outq st)(cfd := outq st cfd @ take (nat n) bytes) \<and>
    short_sent st' = (short_sent st \<or> nat n < length bytes) \<and> d_fpos st' = d_fpos st"
  using assms by (auto simp: d_send_def d_ok_def d_stored_def d_fpos_def open_file_def fun_eq_iff Let_def split: if_splits)

lemma erred_upd [simp]:
  "d_ok (st\<lparr>erred := b\<rparr>) = d_ok st" "d_stored (st\<lparr>erred := b\<rparr>) = d_stored st" "d_fpos (st\<lparr>erred := b\<rparr>) = d_fpos st"
  "d_unwrapped (st\<lparr>erred := b\<rparr>) = d_unwrapped st"
  "d_ok (st\<lparr>seek_ret := r\<rparr>) = d_ok st" "d_stored (st\<lparr>seek_ret := r\<rparr>) = d_stored st"
  "d_fpos (st\<lparr>seek_ret := r\<rparr>) = d_fpos st"
  by (simp_all add: d_ok_def d_stored_def d_fpos_def d_unwrapped_def open_file_def fun_eq_iff)

text \<open>No call but the \<open>ioctl\<close> changes its last result.\<close>

lemma seek_ret_kept [simp]:
  "seek_ret (after_call st s k f) = seek_ret st"
  "d_close st fd = (st', r) \<Longrightarrow> seek_ret st' = seek_ret st"
  "d_read st fd n = (st', v, bytes) \<Longrightarrow> seek_ret st' = seek_ret st"
  "d_send st cfd bytes = (st', v) \<Longrightarrow> seek_ret st' = seek_ret st"
  by (auto simp: after_call_def d_close_def d_read_def d_send_def Let_def split: option.splits if_splits)

lemma note_seekE:
  assumes "note_seek x = (st', n)"
  obtains st where "x = (st, n)" "st' = st\<lparr>seek_ret := n\<rparr>"
  using assms by (cases x) (auto simp: note_seek_def)

lemma note_errorE:
  assumes "note_error x = (st', n)"
  obtains st where "x = (st, n)" "st' = st\<lparr>erred := (n = - 1)\<rparr>"
  using assms by (cases x) (auto simp: note_error_def)

lemma note_readE:
  assumes "note_read x = (st', n, bytes)"
  obtains st where "x = (st, n, bytes)" "st' = st\<lparr>erred := (n = - 1)\<rparr>"
  using assms by (cases x) (auto simp: note_read_def)

lemma driver_os_simps [simp]:
  "os_recv driver_os st cfd n = note_read (d_recv st cfd n)" "os_open driver_os st path mode = note_error (d_open st path mode)" "os_ioctl driver_os st fd x = note_seek (d_ioctl st fd x)"
  "os_write driver_os st fd data = note_error (d_write st fd data)" "os_read driver_os st fd n = note_read (d_read st fd n)"
  "os_send driver_os st cfd bytes = note_error (d_send st cfd bytes)"
  "os_close driver_os = d_close" "os_mutex_lock driver_os st m = (st, 0)" "os_mutex_unlock driver_os st m = (st, 0)"
  by (simp_all add: driver_os_def)

interpretation dev: char_device driver_os d_ok d_stored d_fpos inq outq short_sent d_unwrapped erred seek_ret
proof (unfold_locales, unfold driver_os_simps, goal_cases)
  case (1 st cfd pk ps st' n bytes)
  then obtain t where "d_recv st cfd BUF_LEN = (t, n, bytes)" "st' = t\<lparr>erred := (n = - 1)\<rparr>" by (elim note_readE)
  then show ?case using d_recv_law [OF 1(1-3)] by auto
next
  case (2 st cfd st' n bytes)
  then obtain t where "d_recv st cfd BUF_LEN = (t, n, bytes)" "st' = t\<lparr>erred := (n = - 1)\<rparr>" by (elim note_readE)
  then show ?case using d_recv_end_law [OF 2(1,2)] by auto
next
  case (3 st mode st' fd)
  then obtain t where "d_open st DATA_FILE mode = (t, fd)" "st' = t\<lparr>erred := (fd = - 1)\<rparr>" by (elim note_errorE)
  then show ?case using d_open_law [OF 3(1)] by auto
next
  case (6 st fd st' r)
  then show ?case using d_close_law [of st fd st' r] by simp
next
  case (7 st fd data st' n)
  then obtain t where "d_write st fd data = (t, n)" "st' = t\<lparr>erred := (n = - 1)\<rparr>" by (elim note_errorE)
  then show ?case using d_write_law [OF 7(1) _ 7(3)] by auto
next
  case (8 st fd p st' n bytes)
  then obtain t where "d_read st fd BUF_LEN = (t, n, bytes)" "st' = t\<lparr>erred := (n = - 1)\<rparr>" by (elim note_readE)
  then show ?case using d_read_law [OF 8(1,2)] by auto
next
  case (9 st cfd bytes st' n)
  then obtain t where "d_send st cfd bytes = (t, n)" "st' = t\<lparr>erred := (n = - 1)\<rparr>" by (elim note_errorE)
  then show ?case using d_send_law [OF 9(1)] by auto
next
  case (10 st fd p c off st' r)
  then obtain t where "d_ioctl st fd \<lparr>write_cmd = c, write_cmd_offset = off\<rparr> = (t, r)" "st' = t\<lparr>seek_ret := r\<rparr>"
    by (elim note_seekE)
  then show ?case using d_ioctl_law [OF 10(1-3)] by auto
qed simp_all

end
