(* ===== verification/Server_Live.thy ===== *)
theory Server_Live
  imports Server_Driver
begin

text \<open>
  When a client is really served: \<open>Server_Device\<close> shows what the client thread does unless a call fails. Here a
  device also promises that calls succeed while it has the resources for them (memory for the
  unfinished command, a free descriptor), and the character driver on a kernel with resources to spare keeps that promise.
\<close>

section \<open>A device with resources to spare\<close>

text \<open>
  \<open>ready\<close> says that a descriptor is free, \<open>held st fd\<close> that the descriptor \<open>fd\<close> is open and can be closed, \<open>conn st c\<close> that
  the socket \<open>c\<close> is open; \<open>room\<close> is the length up to which the device can hold an unfinished command.
\<close>

locale live_device = char_device OS ok stored fpos inbox outbox short unwrapped failed seekres
  for OS :: "'o os" and ok :: "'o \<Rightarrow> bool" and stored :: "'o \<Rightarrow> char list list \<times> char list"
    and fpos :: "'o \<Rightarrow> int \<Rightarrow> nat option" and inbox :: "'o \<Rightarrow> int \<Rightarrow> char list list" and outbox :: "'o \<Rightarrow> int \<Rightarrow> char list"
    and short :: "'o \<Rightarrow> bool" and unwrapped :: "'o \<Rightarrow> bool" and failed :: "'o \<Rightarrow> bool" and seekres :: "'o \<Rightarrow> int" +
  fixes ready :: "'o \<Rightarrow> bool"
    and held :: "'o \<Rightarrow> int \<Rightarrow> bool"
    and conn :: "'o \<Rightarrow> int set"
    and room :: nat
  assumes recv_live: "ready st \<Longrightarrow> cfd \<in> conn st \<Longrightarrow> os_recv OS st cfd BUF_LEN = (st', n, bytes) \<Longrightarrow>
      n \<noteq> - 1 \<and> ready st' \<and> conn st' = conn st"
    and open_live: "ready st \<Longrightarrow> os_open OS st DATA_FILE mode = (st', fd) \<Longrightarrow> fd \<noteq> - 1 \<and> held st' fd \<and> conn st' = conn st"
    and lock_live: "held st fd \<Longrightarrow> os_mutex_lock OS st Global_lock = (st', r) \<Longrightarrow> r \<noteq> - 1 \<and> held st' fd \<and> conn st' = conn st"
    and unlock_live: "held st fd \<Longrightarrow> os_mutex_unlock OS st Global_lock = (st', r) \<Longrightarrow> r \<noteq> - 1 \<and> held st' fd \<and> conn st' = conn st"
    and write_live: "ok st \<Longrightarrow> held st fd \<Longrightarrow> length (snd (stored st)) + length data \<le> room \<Longrightarrow> length data \<le> BUF_LEN \<Longrightarrow>
      os_write OS st fd data = (st', n) \<Longrightarrow> n \<noteq> - 1 \<and> held st' fd \<and> conn st' = conn st"
    and read_live: "ok st \<Longrightarrow> held st fd \<Longrightarrow> os_read OS st fd BUF_LEN = (st', n, bytes) \<Longrightarrow> n \<noteq> - 1 \<and> held st' fd \<and> conn st' = conn st"
    and send_live: "held st fd \<Longrightarrow> cfd \<in> conn st \<Longrightarrow> length bytes \<le> BUF_LEN \<Longrightarrow> os_send OS st cfd bytes = (st', n) \<Longrightarrow>
      n = int (length bytes) \<and> held st' fd \<and> conn st' = conn st"
    and ioctl_live: "ok st \<Longrightarrow> held st fd \<Longrightarrow> unwrapped st \<Longrightarrow>
      os_ioctl OS st fd \<lparr>write_cmd = c, write_cmd_offset = off\<rparr> = (st', r) \<Longrightarrow>
      held st' fd \<and> conn st' = conn st \<and>
      (unat c < length (fst (stored st)) \<and> unat off < length (fst (stored st) ! unat c) \<longrightarrow> r = 0)"
    and close_live: "held st fd \<Longrightarrow> os_close OS st fd = (st', r) \<Longrightarrow> ready st' \<and> conn st' = conn st"
    and close_conn: "held st fd \<Longrightarrow> cfd \<in> conn st \<Longrightarrow> os_close OS st cfd = (st', r) \<Longrightarrow>
      held st' fd \<and> conn st' = conn st - {cfd}"
begin

lemma chunk_live:
  assumes "ok (os_st s)" and "ready (os_st s)" and nc: "take (length ioctl_str) buf \<noteq> ioctl_str"
    and "length (take n buf) \<le> BUF_LEN" and room: "length (snd (stored (os_st s))) + length (take n buf) \<le> room"
    and run: "handle_chunk OS s buf n = (s', e)"
  shows "e = Chunk_done False \<and> ready (os_st s') \<and> conn (os_st s') = conn (os_st s)"
proof -
  obtain t1 fd where c1: "os_open OS (os_st s) DATA_FILE Rdwr_creat_append = (t1, fd)" by force
  note O = open_law [OF assms(1) c1] and h1 = open_live [OF assms(2) c1]
  have g1: "held t1 fd" using h1 by blast
  obtain t2 r2 where c2: "os_mutex_lock OS t1 Global_lock = (t2, r2)" by force
  have L: "ok t2" "stored t2 = stored (os_st s)" using lock_law [OF _ c2] O by auto
  note h2 = lock_live [OF g1 c2]
  obtain t3 r3 where c3: "os_write OS t2 fd (take n buf) = (t3, r3)" by force
  have h3: "r3 \<noteq> ERROR" "held t3 fd" "conn t3 = conn t2" using write_live [OF L(1) _ _ assms(4) c3] h2 room L(2) by simp_all
  obtain t4 r4 where c4: "os_mutex_unlock OS t3 Global_lock = (t4, r4)" by force
  note h4 = unlock_live [OF h3(2) c4]
  obtain t5 r5 where c5: "os_close OS t4 fd = (t5, r5)" by force
  have "ready t5" "conn t5 = conn t4" using close_live [OF _ c5] h4 by blast+
  then show ?thesis using run nc c1 c2 c3 c4 c5 h1 h2 h3 h4 by (auto simp: handle_chunk_def syscall_def)
qed

lemma recv_once_live:
  assumes "ok (os_st s)" and "ready (os_st s)" and "inbox (os_st s) cfd = pk # rest" and "length pk \<le> BUF_LEN"
    and "take (length ioctl_str) (pk @ drop (length pk) buf) \<noteq> ioctl_str"
    and "length (snd (stored (os_st s))) + length pk \<le> room" and con: "cfd \<in> conn (os_st s)" and once: "recv_once OS cfd s buf = (s', b, e)"
  shows "e = (if newline \<in> set pk then Some (Got_line False) else None) \<and> ready (os_st s') \<and> conn (os_st s') = conn (os_st s)"
proof -
  obtain t n bytes where c: "os_recv OS (os_st s) cfd BUF_LEN = (t, n, bytes)" by (metis prod_cases3)
  have n: "n \<noteq> ERROR" "ready t" "conn t = conn (os_st s)" using recv_live [OF assms(2) con c] by simp_all
  then have R: "n = int (length pk)" "bytes = pk" "ok t" "stored t = stored (os_st s)"
    using recv_law [OF assms(1,3,4) c] by simp_all
  obtain s1 e1 where h: "handle_chunk OS (s\<lparr>os_st := t\<rparr>) (pk @ drop (length pk) buf) (length pk) = (s1, e1)" by force
  have "e1 = Chunk_done False \<and> ready (os_st s1) \<and> conn (os_st s1) = conn t" using chunk_live [OF _ _ _ _ _ h] R(3,4) n(2) assms(4-6) by simp
  then show ?thesis using once c n(1,3) R(1,2) h by (auto simp: recv_once_def syscall_def)
qed

lemma recv_loop_live:
  assumes "\<forall>pk \<in> set front. newline \<notin> set pk" and "newline \<in> set final"
    and "\<forall>b \<in> set (buffers buf (front @ [final])). take (length ioctl_str) b \<noteq> ioctl_str"
    and "\<forall>pk \<in> set (front @ [final]). length pk \<le> BUF_LEN"
    and "ok (os_st s)" and "inbox (os_st s) cfd = front @ final # rest" and "ready (os_st s)"
    and "length (snd (stored (os_st s))) + length (concat (front @ [final])) \<le> room"
    and "cfd \<in> conn (os_st s)" and "recv_loop OS cfd s buf = Some (s', e)"
  shows "e = Got_line False \<and> ready (os_st s') \<and> conn (os_st s') = conn (os_st s)"
  using assms
proof (induction front arbitrary: s buf)
  case Nil
  obtain s1 b e1 where o: "recv_once OS cfd s buf = (s1, b, e1)" by (metis prod_cases3)
  have "e1 = Some (Got_line False) \<and> ready (os_st s1) \<and> conn (os_st s1) = conn (os_st s)"
    using recv_once_live [OF Nil(5,7) _ _ _ _ Nil(9) o] Nil(2-4,6,8) by simp
  then show ?case using Nil(10) o by (subst (asm) recv_loop_round) simp
next
  case (Cons pk front)
  obtain s1 b e1 where o: "recv_once OS cfd s buf = (s1, b, e1)" by (metis prod_cases3)
  have pk: "inbox (os_st s) cfd = pk # front @ final # rest" "length pk \<le> BUF_LEN" "newline \<notin> set pk"
    "take (length ioctl_str) (pk @ drop (length pk) buf) \<noteq> ioctl_str" using Cons.prems by simp_all
  have e1: "e1 = None" "ready (os_st s1)" "conn (os_st s1) = conn (os_st s)"
    using recv_once_live [OF Cons.prems(5,7) pk(1,2,4) _ Cons.prems(9) o] pk(3) Cons.prems(8) by simp_all
  from Cons.prems(5) pk(1,2,4) show ?case
  proof (cases rule: recv_once_data [where cfd = cfd])
    case (stored t)
    then have t: "t = s1" "b = pk @ drop (length pk) buf" using o by simp_all
    have "recv_loop OS cfd s1 b = Some (s', e)" using Cons.prems(10) o e1(1) by (subst (asm) recv_loop_round) simp
    moreover have "length (snd (stored (os_st s1))) = length (snd (stored (os_st s))) + length pk"
      using stored(4) t(1) pk(3) by (cases "stored (os_st s)") (simp add: spec_write_def consumed_all)
    moreover have "inbox (os_st s1) cfd = front @ final # rest" using stored(5) t(1) by simp
    ultimately show ?thesis using Cons.IH [of b s1] Cons.prems(1-4,8,9) stored(3) t e1(2,3) by simp
  qed (use o e1(1) in simp)
qed

text \<open>
  A peer that closes the connection before it sent a newline: \<open>recv\<close> then returns 0 at once, again and again, and the
  receive loop never ends.
\<close>

lemma recv_once_closed:
  assumes "ok (os_st s)" and "ready (os_st s)" and "inbox (os_st s) cfd = []" and "cfd \<in> conn (os_st s)"
    and nc: "take (length ioctl_str) buf \<noteq> ioctl_str" and room: "length (snd (stored (os_st s))) \<le> room"
    and once: "recv_once OS cfd s buf = (s', b, e)"
  shows "e = None \<and> b = buf \<and> ok (os_st s') \<and> ready (os_st s') \<and> inbox (os_st s') cfd = [] \<and> cfd \<in> conn (os_st s') \<and>
    stored (os_st s') = stored (os_st s)"
proof -
  obtain t n bytes where c: "os_recv OS (os_st s) cfd BUF_LEN = (t, n, bytes)" by (metis prod_cases3)
  have n: "n \<noteq> ERROR" "ready t" "conn t = conn (os_st s)" using recv_live [OF assms(2,4) c] by simp_all
  then have R: "n = 0" "bytes = []" "ok t" "stored t = stored (os_st s)" "inbox t = inbox (os_st s)"
    using recv_end_law [OF assms(1,3) c] by simp_all
  obtain s1 e1 where h: "handle_chunk OS (s\<lparr>os_st := t\<rparr>) buf 0 = (s1, e1)" by force
  have e1: "e1 = Chunk_done False" "ready (os_st s1)" "conn (os_st s1) = conn t"
    using chunk_live [OF _ _ nc _ _ h] R(3,4) n(2) room by simp_all
  have "ok (os_st (s\<lparr>os_st := t\<rparr>))" "length (take 0 buf) \<le> BUF_LEN" using R(3) by simp_all
  from this(1) nc this(2) have k: "ok (os_st s1) \<and> stored (os_st s1) = spec_write (stored t) [] \<and> inbox (os_st s1) = inbox t"
    by (cases rule: handle_chunk_data) (use h e1(1) in auto)
  moreover have "spec_write (stored t) [] = stored t" by (cases "stored t") (simp add: spec_write_def)
  ultimately show ?thesis using once c n(1,3) R h e1 assms(3,4) by (auto simp: recv_once_def syscall_def)
qed

lemma recv_loop_closed:
  assumes "ok (os_st s)" and "ready (os_st s)" and "inbox (os_st s) cfd = []" and "cfd \<in> conn (os_st s)"
    and "take (length ioctl_str) buf \<noteq> ioctl_str" and "length (snd (stored (os_st s))) \<le> room"
  shows "recv_loop OS cfd s buf = None"
proof (rule ccontr)
  assume "recv_loop OS cfd s buf \<noteq> None"
  then obtain y where "recv_loop OS cfd s buf = Some y" by blast
  then have "\<not> (ok (os_st s) \<and> ready (os_st s) \<and> inbox (os_st s) cfd = [] \<and> cfd \<in> conn (os_st s) \<and>
      take (length ioctl_str) buf \<noteq> ioctl_str \<and> length (snd (stored (os_st s))) \<le> room)"
  proof (induction rule: recv_loop_induct)
    case (last s b s' b' e)
    then show ?case using recv_once_closed [OF _ _ _ _ _ _ last] by blast
  next
    case (more s b s' b' y)
    show ?case
    proof
      assume inv: "ok (os_st s) \<and> ready (os_st s) \<and> inbox (os_st s) cfd = [] \<and> cfd \<in> conn (os_st s) \<and>
        take (length ioctl_str) b \<noteq> ioctl_str \<and> length (snd (stored (os_st s))) \<le> room"
      then have "b' = b \<and> ok (os_st s') \<and> ready (os_st s') \<and> inbox (os_st s') cfd = [] \<and> cfd \<in> conn (os_st s') \<and>
        stored (os_st s') = stored (os_st s)" using recv_once_closed [OF _ _ _ _ _ _ more(1)] by blast
      then show False using more(2) inv by simp
    qed
  qed
  then show False using assms by blast
qed

lemma recv_loop_unfinished:
  assumes "\<forall>pk \<in> set pks. newline \<notin> set pk \<and> length pk \<le> BUF_LEN"
    and "take (length ioctl_str) buf \<noteq> ioctl_str"
    and "\<forall>b \<in> set (buffers buf pks). take (length ioctl_str) b \<noteq> ioctl_str"
    and "ok (os_st s)" and "inbox (os_st s) cfd = pks" and "ready (os_st s)" and "cfd \<in> conn (os_st s)"
    and "length (snd (stored (os_st s))) + length (concat pks) \<le> room"
  shows "recv_loop OS cfd s buf = None"
  using assms
proof (induction pks arbitrary: s buf)
  case Nil
  then show ?case by (intro recv_loop_closed) simp_all
next
  case (Cons pk pks)
  obtain s1 b e1 where o: "recv_once OS cfd s buf = (s1, b, e1)" by (metis prod_cases3)
  have pk: "inbox (os_st s) cfd = pk # pks" "length pk \<le> BUF_LEN" "newline \<notin> set pk"
    "take (length ioctl_str) (pk @ drop (length pk) buf) \<noteq> ioctl_str" using Cons.prems by simp_all
  have e1: "e1 = None" "ready (os_st s1)" "conn (os_st s1) = conn (os_st s)"
    using recv_once_live [OF Cons.prems(4,6) pk(1,2,4) _ Cons.prems(7) o] pk(3) Cons.prems(8) by simp_all
  from Cons.prems(4) pk(1,2,4) show ?case
  proof (cases rule: recv_once_data [where cfd = cfd])
    case (stored t)
    then have t: "t = s1" "b = pk @ drop (length pk) buf" using o by simp_all
    have "length (snd (stored (os_st s1))) = length (snd (stored (os_st s))) + length pk"
      using stored(4) t(1) pk(3) by (cases "stored (os_st s)") (simp add: spec_write_def consumed_all)
    moreover have "inbox (os_st s1) cfd = pks" using stored(5) t(1) by simp
    ultimately have "recv_loop OS cfd s1 b = None"
      using Cons.IH [of b s1] Cons.prems(1,3,7,8) pk(4) stored(3) t e1(2,3) by simp
    then show ?thesis using o e1(1) by (subst recv_loop_round) simp
  qed (use o e1(1) in simp)
qed

text \<open>A thread that has the data file open at some position.\<close>

definition live_at :: "int \<Rightarrow> 'o srv \<Rightarrow> bool" where
  "live_at cfd s \<longleftrightarrow> ok (os_st s) \<and> cfd \<in> conn (os_st s) \<and> held (os_st s) (dataFileDescriptor s) \<and> fpos (os_st s) (dataFileDescriptor s) \<noteq> None"

lemma send_once_live:
  assumes "send_once OS cfd s = (s', e)" and "live_at cfd s"
  shows "e \<noteq> Some False \<and> live_at cfd s' \<and> conn (os_st s') = conn (os_st s) \<and> short (os_st s') = short (os_st s)"
proof -
  let ?fd = "dataFileDescriptor s"
  obtain t1 r1 where c1: "os_mutex_lock OS (os_st s) Global_lock = (t1, r1)" by force
  obtain t2 n bytes where c2: "os_read OS t1 ?fd BUF_LEN = (t2, n, bytes)" by (metis prod_cases3)
  obtain t3 r3 where c3: "os_mutex_unlock OS t2 Global_lock = (t3, r3)" by force
  obtain t4 r4 where c4: "os_send OS t3 cfd (take (nat n) bytes) = (t4, r4)" by force
  have l1: "ok t1" "r1 \<noteq> ERROR" "held t1 ?fd" "fpos t1 ?fd \<noteq> None" "conn t1 = conn (os_st s)" "short t1 = short (os_st s)"
    using lock_law [OF _ c1] lock_live [of _ ?fd, OF _ c1] assms(2) by (simp_all add: live_at_def)
  then obtain p where p: "fpos t1 ?fd = Some p" by blast
  have l2: "ok t2" "n \<noteq> ERROR" "held t2 ?fd" "fpos t2 ?fd \<noteq> None" "conn t2 = conn t1" "short t2 = short t1"
    "n = int (length bytes)" "length bytes \<le> BUF_LEN"
    using read_law [OF l1(1) p c2] read_live [OF l1(1,3) c2] by simp_all
  have l3: "ok t3" "r3 \<noteq> ERROR" "held t3 ?fd" "fpos t3 ?fd \<noteq> None" "conn t3 = conn t2" "short t3 = short t2"
    using unlock_law [OF l2(1) c3] unlock_live [OF l2(3) c3] l2(4) by simp_all
  have "cfd \<in> conn t3" using assms(2) l1(5) l2(5) l3(5) by (simp add: live_at_def)
  note S = send_live [OF l3(3) this _ c4]
  have r4: "r4 = int (length bytes)" "held t4 ?fd" "conn t4 = conn t3" using S l2(7,8) by simp_all
  have l4: "ok t4" "r4 \<noteq> ERROR" "fpos t4 ?fd \<noteq> None" "short t4 = short t3"
    using send_law [OF l3(1) c4] r4(1) l2(7) l3(4) by simp_all
  have "(s', e) = (s\<lparr>os_st := t4\<rparr>, if 0 < n then None else Some True)"
    unfolding assms(1) [symmetric] send_once_def using c1 c2 c3 c4 l1(2) l2(2) l3(2) l4(2) by (simp add: syscall_def)
  then show ?thesis using l4 r4 l1 l2 l3 assms(2) by (simp add: live_at_def)
qed

lemma send_loop_live:
  assumes "send_loop OS cfd s = Some y" and "live_at cfd s"
  shows "snd y \<and> held (os_st (fst y)) (dataFileDescriptor (fst y)) \<and> conn (os_st (fst y)) = conn (os_st s) \<and>
    short (os_st (fst y)) = short (os_st s)"
proof -
  from assms(1) have "live_at cfd s \<longrightarrow> snd y \<and> live_at cfd (fst y) \<and> conn (os_st (fst y)) = conn (os_st s) \<and>
      short (os_st (fst y)) = short (os_st s)"
    by (induction rule: send_loop_induct) (auto dest: send_once_live)
  with assms(2) show ?thesis by (simp add: live_at_def)
qed

lemma finish_live:
  assumes "ok (os_st s)" and "held (os_st s) (dataFileDescriptor s)" and "fpos (os_st s) (dataFileDescriptor s) = Some p"
    and con: "cfd \<in> conn (os_st s)" and run: "finish_client OS cfd s a = Some (s', x)"
  shows "x = Exit_param \<and> ready (os_st s') \<and> conn (os_st s') = conn (os_st s) - {cfd} \<and> short (os_st s') = short (os_st s)"
proof -
  from send_loop_sends [OF assms(1,3), of cfd] obtain s3 b where l: "send_loop OS cfd s = Some (s3, b)" "b \<longrightarrow> ok (os_st s3)" by blast
  have b: "b" "held (os_st s3) (dataFileDescriptor s3)" "conn (os_st s3) = conn (os_st s)" "short (os_st s3) = short (os_st s)"
    using send_loop_live [OF l(1)] assms(1-4) by (simp_all add: live_at_def)
  obtain t4 r4 where c4: "os_close OS (os_st s3) cfd = (t4, r4)" by force
  obtain t5 r5 where c5: "os_close OS t4 (dataFileDescriptor s3) = (t5, r5)" by force
  have k: "held t4 (dataFileDescriptor s3)" "conn t4 = conn (os_st s) - {cfd}" using close_conn [OF b(2) _ c4] con b(3) by simp_all
  have "ok t4" "short t4 = short (os_st s3)" using close_law [OF _ c4] l(2) b(1) by simp_all
  then have "short t5 = short (os_st s)" using close_law [OF _ c5] b(4) by simp
  moreover have "ready t5" "conn t5 = conn (os_st s) - {cfd}" using close_live [OF k(1) c5] k(2) by simp_all
  moreover have "os_st s' = t5" "x = Exit_param"
    using run l(1) b(1) c4 c5 by (auto simp: finish_client_def syscall_def set_complete_def)
  ultimately show ?thesis by simp
qed

lemma handler_live:
  assumes node: "nodes s a = Some n"
    and "\<forall>pk \<in> set front. newline \<notin> set pk" and "newline \<in> set final"
    and "\<forall>b \<in> set (buffers (replicate BUF_LEN CHR 0x00) (front @ [final])). take (length ioctl_str) b \<noteq> ioctl_str"
    and "\<forall>pk \<in> set (front @ [final]). length pk \<le> BUF_LEN"
    and "ok (os_st s)" and cfd: "thread_clientSocketFd (thread_data n) = cfd"
    and "inbox (os_st s) cfd = front @ final # rest" and "ready (os_st s)"
    and "length (snd (stored (os_st s))) + length (concat (front @ [final])) \<le> room" and con: "cfd \<in> conn (os_st s)"
    and run: "client_data_handler OS s a = Some (s', x)"
  shows "x = Exit_param \<and> ready (os_st s') \<and> conn (os_st s') = conn (os_st s) - {cfd} \<and> short (os_st s') = short (os_st s)"
proof -
  from recv_loop_data [OF assms(2-6,8)] obtain s1 e where
    r: "recv_loop OS cfd s (replicate BUF_LEN CHR 0x00) = Some (s1, e)"
    and R: "e = Got_line False \<Longrightarrow> ok (os_st s1) \<and> short (os_st s1) = short (os_st s)" by blast
  note e = recv_loop_live [OF assms(2-6,8-11) r]
  obtain t fd where c: "os_open OS (os_st s1) DATA_FILE Rdonly = (t, fd)" by force
  have h: "fd \<noteq> ERROR" "held t fd" "ok t" "fpos t fd = Some 0" "conn t = conn (os_st s)" "short t = short (os_st s)"
    using open_live [OF _ c] open_law [OF _ c] e R by auto
  have "finish_client OS cfd (s1\<lparr>os_st := t, dataFileDescriptor := fd\<rparr>) a = Some (s', x)"
    using run node cfd r e c h(1) by (auto simp: client_data_handler_def syscall_def Let_def)
  from finish_live [OF _ _ _ _ this] h con show ?thesis by simp
qed

text \<open>A seek command is carried out if it names a stored byte.\<close>

lemma seek_live:
  assumes node: "nodes s a = Some n" and "ok (os_st s)" and "unwrapped (os_st s)"
    and cfd: "thread_clientSocketFd (thread_data n) = cfd"
    and "inbox (os_st s) cfd = pk # rest" and "length pk < BUF_LEN" and "newline \<in> set pk"
    and cmd: "take (length ioctl_str) (pk @ drop (length pk) (replicate BUF_LEN CHR 0x00)) = ioctl_str"
    and scan: "\<And>u. scan_seekto (pk @ drop (length pk) (replicate BUF_LEN CHR 0x00)) u =
      Some \<lparr>write_cmd = c, write_cmd_offset = off\<rparr>"
    and "ready (os_st s)" and con: "cfd \<in> conn (os_st s)" and run: "client_data_handler OS s a = Some (s', x)"
  defines "log \<equiv> fst (stored (os_st s))"
  shows "x = Exit_param \<and> ready (os_st s') \<and> conn (os_st s') = conn (os_st s) - {cfd} \<and> short (os_st s') = short (os_st s) \<and> (unat c < length log \<and> unat off < length (log ! unat c) \<longrightarrow> seekres (os_st s') = 0)"
proof -
  let ?b = "pk @ drop (length pk) (replicate BUF_LEN CHR 0x00)"
  have z: "CHR 0x00 \<in> set ?b" using assms(6) by simp
  have le: "length pk \<le> BUF_LEN" using assms(6) by simp
  obtain t k bytes where c: "os_recv OS (os_st s) cfd BUF_LEN = (t, k, bytes)" by (metis prod_cases3)
  have R: "k \<noteq> ERROR" "ready t" "bytes = pk" "k = int (length pk)" "ok t" "stored t = stored (os_st s)" "unwrapped t"
    "conn t = conn (os_st s)" "short t = short (os_st s)"
    using recv_live [OF assms(10) con c] recv_law [OF assms(2,5) le c] assms(3) by auto
  obtain t1 fd where c1: "os_open OS t DATA_FILE Rdwr_creat_append = (t1, fd)" by force
  have O: "fd \<noteq> ERROR" "held t1 fd" "ok t1" "stored t1 = stored (os_st s)" "unwrapped t1" "fpos t1 fd = Some 0"
    "conn t1 = conn (os_st s)" "short t1 = short (os_st s)"
    using open_live [OF R(2) c1] open_law [OF R(5) c1] R by auto
  obtain t2 r where c2: "os_ioctl OS t1 fd \<lparr>write_cmd = c, write_cmd_offset = off\<rparr> = (t2, r)" by force
  note I = ioctl_law [OF O(3,5,6) c2] and J = ioctl_live [OF O(3,2,5) c2]
  have r: "ok t2" "seekres t2 = r" "short t2 = short t1" using I by blast+
  have "fpos t2 fd \<noteq> None" using I by (cases "r = 0") simp_all
  then obtain p where p: "fpos t2 fd = Some p" by blast
  let ?s2 = "s\<lparr>os_st := t2, dataFileDescriptor := fd\<rparr>"
  have "recv_loop OS cfd s (replicate BUF_LEN CHR 0x00) = Some (?s2, Got_line True)"
    using c c1 c2 R(1,3,4) O(1) cmd scan z assms(7) by (subst recv_loop.simps) (simp add: syscall_def handle_chunk_def)
  then have f: "finish_client OS cfd ?s2 a = Some (s', x)" using run node cfd by (simp add: client_data_handler_def Let_def)
  have pre: "ok (os_st ?s2)" "held (os_st ?s2) (dataFileDescriptor ?s2)" "fpos (os_st ?s2) (dataFileDescriptor ?s2) = Some p"
    "cfd \<in> conn (os_st ?s2)"
    using r(1) conjunct1 [OF J] p conjunct1 [OF conjunct2 [OF J]] con O(7) by simp_all
  note L = finish_live [OF pre f]
  then have "seekres (os_st s') = r" using finish_thread [OF pre(1,3), of cfd a] f r(2) by auto
  then show ?thesis using L J O(4,7,8) r(3) by (simp add: log_def)
qed

end

section \<open>The driver on a kernel with resources to spare\<close>

definition d_live :: "nat \<Rightarrow> dev_client \<Rightarrow> bool" where
  "d_live R st \<longleftrightarrow> (\<forall>i. grants R (kern st i)) \<and> no_leak (heap (dkst st)) (aesd_device (dkst st))"

text \<open>The network neither fails nor takes less than a buffer.\<close>

definition net_fine :: "dev_client \<Rightarrow> bool" where
  "net_fine st \<longleftrightarrow> (\<forall>i. int BUF_LEN \<le> net st i)"

definition d_ready :: "nat \<Rightarrow> dev_client \<Rightarrow> bool" where
  "d_ready R st \<longleftrightarrow> d_live R st \<and> net_fine st \<and> (\<exists>fd \<in> set fd_range. files (dsys st) fd = None \<and> int fd \<notin> socks st)"

definition d_held :: "nat \<Rightarrow> dev_client \<Rightarrow> int \<Rightarrow> bool" where
  "d_held R st fd \<longleftrightarrow> d_live R st \<and> net_fine st \<and> 0 \<le> fd \<and> nat fd \<in> set fd_range \<and> fd \<notin> socks st \<and> files (dsys st) (nat fd) \<noteq> None"

lemma live_upd [simp]:
  "d_ready R (st\<lparr>erred := b\<rparr>) = d_ready R st" "d_held R (st\<lparr>erred := b\<rparr>) fd = d_held R st fd"
  "d_held R (st\<lparr>seek_ret := r\<rparr>) fd = d_held R st fd"
  by (simp_all add: d_ready_def d_held_def d_live_def net_fine_def)

lemma d_recv_live:
  assumes "d_ready R st" and "cfd \<in> socks st" and "d_recv st cfd BUF_LEN = (st', n, bytes)"
  shows "n \<noteq> - 1 \<and> d_ready R st' \<and> socks st' = socks st"
proof -
  have "0 \<le> net st (net_calls st)" using assms(1) by (simp add: d_ready_def net_fine_def) (metis of_nat_0_le_iff order_trans)
  then show ?thesis using assms
    by (auto simp: d_recv_def d_ready_def d_live_def net_fine_def Let_def split: list.splits if_splits)
qed

lemma d_send_live:
  assumes "d_held R st fd" and "cfd \<in> socks st" and "length bytes \<le> BUF_LEN" and "d_send st cfd bytes = (st', n)"
  shows "n = int (length bytes) \<and> d_held R st' fd \<and> socks st' = socks st"
proof -
  have "int BUF_LEN \<le> net st (net_calls st)" using assms(1) by (simp add: d_held_def net_fine_def)
  then show ?thesis using assms by (auto simp: d_send_def d_held_def d_live_def net_fine_def Let_def)
qed

lemma d_heldE:
  assumes "d_held R st fd"
  obtains f where "open_file st fd = Some f" "grants R (dkern st)"
    "no_leak (heap (dkst st)) (aesd_device (dkst st))"
  using assms by (auto simp: d_held_def d_live_def open_file_def)

lemma d_open_live:
  assumes "d_ready R st" and "d_open st DATA_FILE mode = (st', fd)"
  shows "fd \<noteq> - 1 \<and> d_held R st' fd \<and> socks st' = socks st"
proof -
  from assms(1) have "List.find (\<lambda>fd. files (dsys st) fd = None \<and> int fd \<notin> socks st) fd_range \<noteq> None"
    by (auto simp: d_ready_def find_None_iff)
  then obtain k where k: "List.find (\<lambda>fd. files (dsys st) fd = None \<and> int fd \<notin> socks st) fd_range = Some k" by blast
  then have "k \<in> set fd_range \<and> int k \<notin> socks st" by (auto simp: find_Some_iff)
  moreover have "st' = after_call st (dkst st) k (fst (aesd_open fresh_file))" "fd = int k"
    using assms(2) k by (simp_all add: d_open_def)
  ultimately show ?thesis using assms(1)
    by (auto simp: d_held_def d_live_def d_ready_def net_fine_def after_call_def split: if_splits)
qed

lemma d_close_live:
  assumes "d_held R st fd"
  shows "d_close st fd = (st', r) \<Longrightarrow> d_ready R st' \<and> socks st' = socks st"
    and "cfd \<in> socks st \<Longrightarrow> d_close st cfd = (st', r) \<Longrightarrow> d_held R st' fd \<and> socks st' = socks st - {cfd}"
  using assms by (auto simp: d_close_def d_held_def d_ready_def d_live_def net_fine_def open_file_def split: option.splits if_splits)

lemma after_call_held:
  assumes "d_held R st fd" and "no_leak (heap s) (aesd_device s)"
  shows "d_held R (after_call st s (nat fd) f) fd"
  using assms by (simp add: d_held_def d_live_def net_fine_def after_call_def)

lemma d_write_granted:
  assumes "d_ok st" and live: "d_live R st" and f: "open_file st fd = Some f"
    and room: "length (snd (d_stored st)) + length data \<le> R" and len: "length data \<le> BUF_LEN"
  obtains s pos n where "d_write st fd data = (after_call st s (nat fd) (f\<lparr>f_pos := pos\<rparr>), n)" "0 \<le> n"
    "no_leak (heap s) (aesd_device s)"
proof -
  note D = d_okD [OF assms(1)]
  let ?s = "put data (dkst st)" and ?n = "word_of_nat (length data) :: size_t"
  have pre: "dev_inv (heap ?s) (aesd_device ?s)" "no_leak (heap ?s) (aesd_device ?s)" "\<not> lock (aesd_device ?s)" "grants R (dkern st)"
    using D live by (simp_all add: d_live_def)
  have "length (dev_pending (heap ?s) (aesd_device ?s)) + unat ?n \<le> R"
    using room len by (simp add: unat_word_of_nat BUF_LEN_def d_stored_def dev_abs_def)
  from write_granted [OF D(1) pre(4,1,2) D(5) [OF f] pre(3) this, of 0 "f_pos f"]
  obtain s pos r where a: "aesd_write (dkern st) ?s (Some f) (Some 0) ?n (f_pos f) = Some (s, pos, r)" and r: "0 \<le> sint r" by blast
  have "no_leak (heap s) (aesd_device s)"
    using write_ok_step(6) [OF D(1) pre(1) D(5) [OF f] pre(3) a r pre(2)] .
  with a r f show thesis by (intro that [of s pos "sint r"]) (simp_all add: d_write_def ret_val_def)
qed

lemma d_write_live:
  assumes "d_ok st" and held: "d_held R st fd" and "length (snd (d_stored st)) + length data \<le> R"
    and "length data \<le> BUF_LEN" and w: "d_write st fd data = (st', n)"
  shows "n \<noteq> - 1 \<and> d_held R st' fd \<and> socks st' = socks st"
proof -
  from held obtain f where f: "open_file st fd = Some f" by (rule d_heldE)
  have "d_live R st" using held by (simp add: d_held_def)
  from d_write_granted [OF assms(1) this f assms(3,4)] obtain s pos where
    "st' = after_call st s (nat fd) (f\<lparr>f_pos := pos\<rparr>)" "0 \<le> n" "no_leak (heap s) (aesd_device s)" using w by (metis prod.inject)
  then show ?thesis using after_call_held [OF held] by simp
qed

lemma d_read_live:
  assumes "d_ok st" and held: "d_held R st fd" and rd: "d_read st fd BUF_LEN = (st', n, bytes)"
  shows "n \<noteq> - 1 \<and> d_held R st' fd \<and> socks st' = socks st"
proof -
  note D = d_okD [OF assms(1)]
  from held obtain f where f: "open_file st fd = Some f" "grants R (dkern st)"
    "no_leak (heap (dkst st)) (aesd_device (dkst st))" by (rule d_heldE)
  let ?s = "dkst st"
  have "\<exists>m pos r. aesd_read (dkern st) ?s (Some f) (Some 0) (word_of_nat BUF_LEN) (f_pos f) =
      Some (?s\<lparr>umem := m\<rparr>, pos, r) \<and> 0 \<le> sint r"
    using D(1) [of "tick st"] D(3) D(5) [OF f(1)] D(4)
  proof (cases rule: aesd_read_cases [where count = "word_of_nat BUF_LEN" and ubuf = 0 and pos = "f_pos f"])
    case success
    let ?log = "dev_log (heap ?s) (aesd_device ?s)"
    let ?m = "read_len ?log (unat (f_pos f)) (unat (word_of_nat BUF_LEN :: size_t))"
    have "sint (word_of_nat ?m :: ssize_t) = int ?m" by (rule read_len_word(1) [OF D(3)])
    then show ?thesis using success by auto
  qed (use f(2) in \<open>auto simp: grants_def\<close>)
  then show ?thesis using rd f(1,3) after_call_held [OF held] by (auto simp: d_read_def ret_val_def)
qed

lemma d_ioctl_live:
  assumes "d_ok st" and held: "d_held R st fd" and u: "d_unwrapped st"
    and i: "d_ioctl st fd \<lparr>write_cmd = c, write_cmd_offset = off\<rparr> = (st', r)"
  shows "d_held R st' fd \<and> socks st' = socks st \<and> (unat c < length (fst (d_stored st)) \<and> unat off < length (fst (d_stored st) ! unat c) \<longrightarrow> r = 0)"
proof -
  note D = d_okD [OF assms(1)]
  from held obtain f where f: "open_file st fd = Some f" "grants R (dkern st)"
    "no_leak (heap (dkst st)) (aesd_device (dkst st))" by (rule d_heldE)
  let ?x = "\<lparr>write_cmd = c, write_cmd_offset = off\<rparr>"
  let ?s = "put (layout st ?x) (dkst st)"
  have "umem_read (umem ?s) 0 8 = layout st ?x"
    using put_read [of "layout st ?x" "dkst st"] D(6) by (simp del: put_inv)
  then have x: "seekto_of_bytes (dkern st) (umem_read (umem ?s) 0 8) = ?x" using D(7) by simp
  have pre: "dev_safe (heap ?s) (aesd_device ?s)" "\<not> lock (aesd_device ?s)" "out_offs (buffer (aesd_device ?s)) = 0"
    using D(3,4) u by (simp_all add: d_unwrapped_def)
  from D(1) [of "tick st"] pre(1) D(5) [OF f(1)] pre(2,3) x show ?thesis
  proof (cases rule: ioctl_unwrapped_cases)
    case (refused e)
    moreover have "\<not> (unat c < length (fst (d_stored st)) \<and> unat off < length (fst (d_stored st) ! unat c))"
      using refused(2) f(2) by (auto simp: grants_def d_stored_def dev_abs_def)
    ultimately show ?thesis using i f(1,3) after_call_held [OF held] by (auto simp: d_ioctl_def)
  next
    case (moved q)
    then show ?thesis using i f(1,3) after_call_held [OF held] by (auto simp: d_ioctl_def ret_val_def)
  qed
qed

interpretation live: live_device driver_os d_ok d_stored d_fpos inq outq short_sent d_unwrapped erred seek_ret
    "d_ready R" "d_held R" socks R
  for R
proof (unfold_locales, unfold driver_os_simps, goal_cases)
  case (1 st cfd st' n bytes)
  then obtain t where "d_recv st cfd BUF_LEN = (t, n, bytes)" "st' = t\<lparr>erred := (n = - 1)\<rparr>" by (elim note_readE)
  then show ?case using d_recv_live [OF 1(1,2)] by auto
next
  case (2 st mode st' fd)
  then obtain t where "d_open st DATA_FILE mode = (t, fd)" "st' = t\<lparr>erred := (fd = - 1)\<rparr>" by (elim note_errorE)
  then show ?case using d_open_live [OF 2(1)] by auto
next
  case (5 st fd data st' n)
  then obtain t where "d_write st fd data = (t, n)" "st' = t\<lparr>erred := (n = - 1)\<rparr>" by (elim note_errorE)
  then show ?case using d_write_live [OF 5(1-4)] by auto
next
  case (6 st fd st' n bytes)
  then obtain t where "d_read st fd BUF_LEN = (t, n, bytes)" "st' = t\<lparr>erred := (n = - 1)\<rparr>" by (elim note_readE)
  then show ?case using d_read_live [OF 6(1,2)] by auto
next
  case (7 st fd cfd bytes st' n)
  then obtain t where "d_send st cfd bytes = (t, n)" "st' = t\<lparr>erred := (n = - 1)\<rparr>" by (elim note_errorE)
  then show ?case using d_send_live [OF 7(1-3)] by auto
next
  case (8 st fd c off st' r)
  then obtain t where "d_ioctl st fd \<lparr>write_cmd = c, write_cmd_offset = off\<rparr> = (t, r)" "st' = t\<lparr>seek_ret := r\<rparr>"
    by (elim note_seekE)
  then show ?case using d_ioctl_live [OF 8(1-3)] by auto
next
  case (9 st fd st' r)
  then show ?case using d_close_live(1) by blast
next
  case (10 st fd cfd st' r)
  then show ?case using d_close_live(2) by blast
qed simp_all

end
