(* ===== verification/Server_Properties.thy ===== *)
theory Server_Properties
  imports Server_Live
begin

text \<open>
  The properties of the thread that serves one client: what the client gets from it, with the
  character driver behind the data file, and reading the text form of the seek command.
\<close>

section \<open>A client that sends a command\<close>

lemma fold_pending:
  "\<forall>pk \<in> set ps. newline \<notin> set pk \<Longrightarrow>
   fold (\<lambda>data st. spec_write st data) ps (log, pend) = (log, pend @ concat ps)"
  by (induction ps arbitrary: pend) (simp_all add: spec_write_def consumed_all)

text \<open>
  C4. A client whose packets hold one command (only the last packet contains a newline, no
  packet is longer than the receive buffer, and none makes it start like a seek command) is always served by a thread that ends: either a system call
  failed and the thread returned a null pointer directly after it, or the command, up to the first newline, follows the bytes of the unfinished command in the device,
  only the last ten commands are kept, and exactly the concatenation of the commands then stored was sent on the client's own socket, unless a
  \<open>send\<close> took fewer bytes than it was given: the code does not send the rest again, so bytes are missing then. Nothing is sent on another
  socket, and nothing is received from one. The thread ends regularly and no \<open>send\<close> is short if the socket is open, the network takes every call in full, a
  descriptor is free, the kernel has resources to spare for commands of \<open>R\<close> bytes, and the command is not longer than that.
\<close>

theorem client_served:
  assumes "nodes s a = Some n" and "thread_clientSocketFd (thread_data n) = cfd"
    and "d_ok (os_st s)" and "inq (os_st s) cfd = front @ final # rest"
    and "\<forall>pk \<in> set front. newline \<notin> set pk" and "newline \<in> set final"
    and "\<forall>b \<in> set (buffers (replicate BUF_LEN CHR 0x00) (front @ [final])). take (length ioctl_str) b \<noteq> ioctl_str"
    and "\<forall>pk \<in> set (front @ [final]). length pk \<le> BUF_LEN"
    and "d_stored (os_st s) = (log, pend)"
  shows "\<exists>s' x. client_data_handler driver_os s a = Some (s', x) \<and> (x = Exit_NULL \<and> erred (os_st s') \<or> x = Exit_param) \<and>
    (x = Exit_param \<longrightarrow>
       d_stored (os_st s') = (last_n 10 (log @ [pend @ concat front @ consumed final]), []) \<and>
       inq (os_st s') = (inq (os_st s))(cfd := rest) \<and>
       (\<exists>out. outq (os_st s') = (outq (os_st s))(cfd := outq (os_st s) cfd @ out) \<and>
          subseq out (concat (fst (d_stored (os_st s')))) \<and>
          short_sent (os_st s') = (short_sent (os_st s) \<or> out \<noteq> concat (fst (d_stored (os_st s'))))) \<and>
       nodes s' = nodes (set_complete s a)) \<and>
    (d_ready R (os_st s) \<and> cfd \<in> socks (os_st s) \<and> length (pend @ concat front @ final) \<le> R \<longrightarrow>
       x = Exit_param \<and> short_sent (os_st s') = short_sent (os_st s))"
proof -
  have "fold (\<lambda>data st. spec_write st data) (front @ [final]) (log, pend) =
      (last_n 10 (log @ [pend @ concat front @ consumed final]), [])"
    using fold_pending [OF assms(5)] assms(6) by (simp add: spec_write_def)
  moreover note H = dev.handler_data [OF assms(1,5-8,3,2,4), unfolded dev.answered_def]
  moreover from H obtain s' x where h: "client_data_handler driver_os s a = Some (s', x)" by blast
  have "x = Exit_param \<and> short_sent (os_st s') = short_sent (os_st s)"
    if "d_ready R (os_st s)" "cfd \<in> socks (os_st s)" "length (pend @ concat front @ final) \<le> R"
    using live.handler_live [OF assms(1,5-8,3,2,4) that(1) _ that(2) h] that(3) assms(9) by simp
  ultimately show ?thesis using h H assms(9) by auto
qed

section \<open>A client that sends a seek command\<close>

text \<open>Decimal notation.\<close>

definition digit :: "nat \<Rightarrow> char" where
  "digit d = char_of (48 + d)"

fun dec :: "nat \<Rightarrow> char list" where
  "dec n = (if n < 10 then [digit n] else dec (n div 10) @ [digit (n mod 10)])"

declare dec.simps [simp del]

lemma digit_value: "d < 10 \<Longrightarrow> (of_char (digit d) :: nat) = 48 + d"
  by (simp add: digit_def)

lemma digit_isdigit: "d < 10 \<Longrightarrow> isdigit_c (digit d)"
  by (simp add: isdigit_c_def digit_value)

lemma scan_digits_dec:
  "\<not> isdigit_c c \<Longrightarrow> scan_digits (dec n @ ds @ c # rest) v =
     scan_digits (ds @ c # rest) (v * 10 ^ length (dec n) + int n)"
proof (induction n arbitrary: ds v rule: dec.induct)
  case (1 n)
  show ?case
  proof (cases "n < 10")
    case True
    then show ?thesis by (subst (1 2) dec.simps) (simp add: digit_isdigit digit_value mult.commute)
  next
    case False
    then have d: "dec n = dec (n div 10) @ [digit (n mod 10)]" by (subst dec.simps) simp
    have split: "int n = 10 * int (n div 10) + int (n mod 10)" by (simp add: zdiv_int zmod_int)
    have "scan_digits (dec n @ ds @ c # rest) v =
        scan_digits ([digit (n mod 10)] @ ds @ c # rest) (v * 10 ^ length (dec (n div 10)) + int (n div 10))"
      using 1(1) [OF False 1(2), of "digit (n mod 10) # ds" v] by (simp add: d)
    also have "\<dots> = scan_digits (ds @ c # rest) (10 * (v * 10 ^ length (dec (n div 10)) + int (n div 10)) + int (n mod 10))"
      by (simp add: digit_isdigit digit_value)
    also have "10 * (v * 10 ^ length (dec (n div 10)) + int (n div 10)) + int (n mod 10) =
        v * 10 ^ length (dec n) + int n"
      using split by (simp add: d algebra_simps)
    finally show ?thesis .
  qed
qed

lemma dec_hd: "\<exists>d ds. d < 10 \<and> dec n = digit d # ds"
proof (induction n rule: dec.induct)
  case (1 n)
  show ?case
  proof (cases "n < 10")
    case True
    then show ?thesis by (subst dec.simps) auto
  next
    case False
    then show ?thesis using 1 by (subst dec.simps) auto
  qed
qed

lemma scan_d_dec:
  assumes "\<not> isdigit_c c"
  shows "scan_d (dec n @ c # rest) = Matched (int n, c # rest)"
proof -
  obtain d ds where d: "d < 10" "dec n = digit d # ds" using dec_hd by blast
  have v: "(of_char (digit d) :: nat) = 48 + d" using d(1) by (rule digit_value)
  have "\<not> isspace_c (digit d)" "digit d \<noteq> CHR ''-''" "digit d \<noteq> CHR ''+''"
    using v d(1) by (auto simp: isspace_c_def)
  moreover have "scan_digits (dec n @ c # rest) 0 = Some (int n, c # rest)"
    using scan_digits_dec [OF assms, of n "[]" rest 0] assms by simp
  ultimately show ?thesis using d digit_isdigit [OF d(1)] by (simp add: scan_d_def scan_number_def)
qed

text \<open>The packet a client sends to seek.\<close>

definition seek_packet :: "nat \<Rightarrow> nat \<Rightarrow> char list" where
  "seek_packet x y = ioctl_str @ dec x @ CHR '','' # dec y @ [newline]"

lemma scan_seek_packet:
  assumes "x < 2 ^ 31" and "y < 2 ^ 31"
  shows "scan_seekto (seek_packet x y @ rest) uninit = Some \<lparr>write_cmd = word_of_nat x, write_cmd_offset = word_of_nat y\<rparr>"
proof -
  have nd: "\<not> isdigit_c (CHR '','')" "\<not> isdigit_c newline" by (simp_all add: isdigit_c_def)
  have "store_int (int x) = Some (word_of_nat x)" "store_int (int y) = Some (word_of_nat y)"
    using assms by (auto simp: store_int_def)
  then show ?thesis
    using scan_d_dec [OF nd(1), of x] scan_d_dec [OF nd(2), of y]
    by (cases uninit) (simp add: scan_seekto_def seek_packet_def)
qed

text \<open>
  C21. Printing and scanning a seek command: for numbers below \<open>2 ^ 31\<close>, the packet
  \<open>AESDCHAR_IOCSEEKTO:x,y\<close> with a newline behind it scans to the pair \<open>(x, y)\<close>, whatever the local variable held
  before and whatever follows the newline in the buffer.
\<close>

theorem seek_command_roundtrip:
  assumes "x < 2 ^ 31" and "y < 2 ^ 31"
  shows "scan_seekto (ioctl_str @ dec x @ CHR '','' # dec y @ newline # rest) uninit =
    Some \<lparr>write_cmd = word_of_nat x, write_cmd_offset = word_of_nat y\<rparr>"
  using scan_seek_packet [OF assms, of rest uninit] by (simp add: seek_packet_def)

lemma dec_example: "dec 12 = ''12''" "dec 3 = ''3''" "dec 0 = ''0''" "dec 1 = ''1''"
  using char_of_char [of "CHR ''0''", where 'a = nat] char_of_char [of "CHR ''1''", where 'a = nat]
    char_of_char [of "CHR ''2''", where 'a = nat] char_of_char [of "CHR ''3''", where 'a = nat]
  by (simp_all add: dec.simps digit_def)

theorem seek_command_roundtrip_witness:
  "scan_seekto ''AESDCHAR_IOCSEEKTO:12,3\<newline>'' \<lparr>write_cmd = 7, write_cmd_offset = 7\<rparr> =
     Some \<lparr>write_cmd = 12, write_cmd_offset = 3\<rparr>"
  using seek_command_roundtrip [of 12 3 "[]" "\<lparr>write_cmd = 7, write_cmd_offset = 7\<rparr>"]
  by (simp add: dec_example ioctl_str_def)

lemma length_dec: "n < 10 ^ k \<Longrightarrow> 0 < k \<Longrightarrow> length (dec n) \<le> k"
proof (induction k arbitrary: n)
  case (Suc k)
  show ?case
  proof (cases "n < 10")
    case True
    then show ?thesis by (subst dec.simps) simp
  next
    case False
    have "k \<noteq> 0" using False Suc.prems(1) by (cases k) simp_all
    moreover have "n div 10 < 10 ^ k" using Suc.prems(1) by (simp add: less_mult_imp_div_less mult.commute)
    ultimately have "length (dec (n div 10)) \<le> k" using Suc.IH by simp
    then show ?thesis using False by (subst dec.simps) simp
  qed
qed simp

lemma seek_packet_short:
  assumes "x < 2 ^ 31" and "y < 2 ^ 31"
  shows "length (seek_packet x y) < BUF_LEN"
proof -
  have "length (dec x) \<le> 10" "length (dec y) \<le> 10" using assms by (auto intro!: length_dec)
  then show ?thesis by (simp add: seek_packet_def ioctl_str_def BUF_LEN_def)
qed

text \<open>
  C10. A client that sends the seek command for byte \<open>y\<close> of command \<open>x\<close>, on a device that has not displaced a command,
  changes nothing in the device, and unless the thread returns a null pointer directly after a failed system call, the stored
  bytes from that byte on are sent on the client's own socket if the driver accepted the position, which it does only for a byte of a stored command, and
  all stored bytes otherwise; bytes are missing only if a \<open>send\<close> was short, and nothing is sent on another socket. The thread ends
  regularly, no \<open>send\<close> is short and the driver accepts the position of every byte of a stored command, if the socket is open, the network takes
  every call in full, a descriptor is free and the kernel has resources to spare.
\<close>

theorem client_seeks:
  assumes "nodes s a = Some n" and "thread_clientSocketFd (thread_data n) = cfd"
    and "d_ok (os_st s)" and "d_unwrapped (os_st s)"
    and "inq (os_st s) cfd = seek_packet x y # rest" and "x < 2 ^ 31" and "y < 2 ^ 31"
    and "d_stored (os_st s) = (log, pend)"
  shows "\<exists>s' e. client_data_handler driver_os s a = Some (s', e) \<and> (e = Exit_NULL \<and> erred (os_st s') \<or> e = Exit_param) \<and>
    (e = Exit_param \<longrightarrow> d_stored (os_st s') = (log, pend) \<and> inq (os_st s') = (inq (os_st s))(cfd := rest) \<and>
       (seek_ret (os_st s') = 0 \<longrightarrow> x < length log \<and> y < length (log ! x)) \<and>
       (\<exists>out. outq (os_st s') = (outq (os_st s))(cfd := outq (os_st s) cfd @ out) \<and>
          (let reply = (if seek_ret (os_st s') = 0 then drop y (log ! x) @ concat (drop (Suc x) log) else concat log)
           in subseq out reply \<and> short_sent (os_st s') = (short_sent (os_st s) \<or> out \<noteq> reply)))) \<and>
    (d_ready R (os_st s) \<and> cfd \<in> socks (os_st s) \<longrightarrow> e = Exit_param \<and> short_sent (os_st s') = short_sent (os_st s) \<and>
       (x < length log \<and> y < length (log ! x) \<longrightarrow> seek_ret (os_st s') = 0))"
proof -
  let ?b = "seek_packet x y @ drop (length (seek_packet x y)) (replicate BUF_LEN CHR 0x00)"
  have u: "unat (word_of_nat x :: u32) = x" "unat (word_of_nat y :: u32) = y"
    using assms(6,7) by (simp_all add: unat_word_of_nat)
  have b: "take (length ioctl_str) ?b = ioctl_str" "newline \<in> set (seek_packet x y)" by (simp_all add: seek_packet_def)
  note pre = seek_packet_short [OF assms(6,7)] b(2,1) scan_seek_packet [OF assms(6,7)]
  note H = dev.handler_seek [OF assms(1,3,4,2,5) pre, unfolded assms(8) u fst_conv]
    and L = live.seek_live [OF assms(1,3,4,2,5) pre, unfolded assms(8) u fst_conv]
  have d: "drop (length (concat (take x log)) + y) (concat log) = drop y (log ! x) @ concat (drop (Suc x) log)"
    if "x < length log" "y < length (log ! x)"
  proof -
    have "concat log = concat (take x log) @ log ! x @ concat (drop (Suc x) log)"
      using that(1) by (metis concat.simps(2) concat_append id_take_nth_drop)
    then show ?thesis using that(2) by (simp add: drop_append)
  qed
  from H obtain s' e where h: "client_data_handler driver_os s a = Some (s', e)" "e = Exit_NULL \<or> e = Exit_param"
      "e = Exit_NULL \<longrightarrow> erred (os_st s')"
    and p: "e = Exit_param \<longrightarrow> d_stored (os_st s') = (log, pend) \<and> inq (os_st s') = (inq (os_st s))(cfd := rest) \<and>
      (if seek_ret (os_st s') = 0 then x < length log \<and> y < length (log ! x) \<and>
         dev.answered cfd (drop (length (concat (take x log)) + y) (concat log)) (os_st s) (os_st s')
       else dev.answered cfd (concat log) (os_st s) (os_st s'))" by blast
  define reply where "reply = (if seek_ret (os_st s') = 0 then drop y (log ! x) @ concat (drop (Suc x) log) else concat log)"
  have a: "dev.answered cfd reply (os_st s) (os_st s')" "seek_ret (os_st s') = 0 \<longrightarrow> x < length log \<and> y < length (log ! x)"
    if "e = Exit_param"
    using p that d by (auto simp: reply_def split: if_splits)
  show ?thesis
  proof (intro exI [of _ s'] exI [of _ e] conjI impI)
    assume "e = Exit_param"
    then show "\<exists>out. outq (os_st s') = (outq (os_st s))(cfd := outq (os_st s) cfd @ out) \<and>
       (let reply = (if seek_ret (os_st s') = 0 then drop y (log ! x) @ concat (drop (Suc x) log) else concat log)
        in subseq out reply \<and> short_sent (os_st s') = (short_sent (os_st s) \<or> out \<noteq> reply))"
      using a(1) unfolding dev.answered_def reply_def Let_def by blast
  qed (use h p a(2) L [OF _ _ h(1)] in \<open>auto\<close>)
qed

section \<open>A concrete server\<close>

definition sim_byte :: "u32 \<Rightarrow> nat \<Rightarrow> char" where
  "sim_byte w i = char_of (unat w div 256 ^ i mod 256)"

definition sim_layout :: "aesd_seekto \<Rightarrow> char list" where
  "sim_layout x = map (sim_byte (write_cmd x)) [0, 1, 2, 3] @ map (sim_byte (write_cmd_offset x)) [0, 1, 2, 3]"

lemma bytes_sum: "(n :: nat) < 2 ^ 32 \<Longrightarrow> n mod 256 + 256 * (n div 256 mod 256) + 65536 * (n div 65536 mod 256) +
    16777216 * (n div 16777216 mod 256) = n"
proof -
  assume n: "n < 2 ^ 32"
  let ?q = "n div 256" and ?q2 = "n div 65536" and ?q3 = "n div 16777216"
  have "n = n mod 256 + 256 * ?q" "?q = ?q mod 256 + 256 * (?q div 256)" "?q2 = ?q2 mod 256 + 256 * (?q2 div 256)"
    by simp_all
  moreover have "?q div 256 = ?q2" "?q2 div 256 = ?q3" by (simp_all flip: div_mult2_eq)
  moreover have "?q3 mod 256 = ?q3" using n by simp
  ultimately show ?thesis by linarith
qed

lemma sim_layout_ok: "length (sim_layout x) = 8" "seekto_of_bytes (sim_kernel fails r) (sim_layout x) = x"
proof -
  show "length (sim_layout x) = 8" by (simp add: sim_layout_def)
  have "word_of_nat (unat w mod 256 + 256 * (unat w div 256 mod 256) + 65536 * (unat w div 65536 mod 256) +
      16777216 * (unat w div 16777216 mod 256)) = w" for w :: u32
    using bytes_sum [of "unat w"] unat_32_less [of w] by (metis word_of_unat)
  then show "seekto_of_bytes (sim_kernel fails r) (sim_layout x) = x"
    by (simp add: sim_kernel_def sim_u32_def sim_layout_def sim_byte_def)
qed

text \<open>Two sockets, 8 and 9, on a network that takes everything.\<close>

definition demo_dev :: "kstate \<Rightarrow> (int \<Rightarrow> char list list) \<Rightarrow> dev_client" where
  "demo_dev k packets = \<lparr>dsys = \<lparr>kst = k, files = Map.empty\<rparr>, kern = (\<lambda>_. sim_kernel False 0), tick = 0,
     layout = sim_layout, socks = {8, 9}, inq = packets, outq = (\<lambda>_. []), net = (\<lambda>_. int BUF_LEN), net_calls = 0,
     short_sent = False, erred = False, seek_ret = 0\<rparr>"

definition no_flags :: status_flags where
  "no_flags = \<lparr>file_open = False, log_open = False, socket_open = False, client_fd_open = False,
     signal_caught = False, daemon_mode = False, command_status_success = False\<rparr>"

definition demo_srv :: "'o \<Rightarrow> 'o srv" where
  "demo_srv st = \<lparr>os_st = st, fatal_error_in_progress = False, dataFileDescriptor = 0, sock_fd = 0, clientSocketFd = 0,
     head = Some 0, nodes = [0 \<mapsto> new_node 9], s_flags = no_flags, result = None,
     TS_data = \<lparr>ts_threadId = 0, ts_pMutex = Global_lock, timeIntervalSecs = 0\<rparr>\<rparr>"

lemma demo_dev_simps [simp]: "inq (demo_dev k packets) = packets" "outq (demo_dev k packets) = (\<lambda>_. [])"
  "socks (demo_dev k packets) = {8, 9}" "short_sent (demo_dev k packets) = False"
  "d_stored (demo_dev k packets) = dev_abs k"
  "d_unwrapped (demo_dev k packets) = (out_offs (buffer (aesd_device k)) = 0)"
  by (simp_all add: demo_dev_def d_stored_def d_unwrapped_def)

lemma demo_dev_ok:
  "dev_inv (heap k) (aesd_device k) \<Longrightarrow> \<not> lock (aesd_device k) \<Longrightarrow> d_ok (demo_dev k packets)"
  using sim_kernel_ok sim_layout_ok by (simp add: d_ok_def demo_dev_def sys_inv_def dev_inv_def)

lemmas demo_devs = demo_dev_ok [OF demo_start(1,3)] demo_dev_ok [OF demo_written_facts(1,3)]

lemma demo_stored: "dev_abs demo_state = ([], [])" "dev_abs demo_written = ([''ab\<newline>''], [])"
  using demo_written_facts(4,5) by (simp_all add: dev_abs_def zero_dev_simps)

lemma demo_srv_simps [simp]: "os_st (demo_srv st) = st" "nodes (demo_srv st) 0 = Some (new_node 9)"
  by (simp_all add: demo_srv_def)

lemma demo_ready: "d_ready 64 (demo_dev demo_written pks)"
proof -
  have "3 \<in> set fd_range" by (simp only: fd_range_def set_upt) simp
  then show ?thesis using sim_kernel_grants demo_written_facts(6) by (auto simp: d_ready_def d_live_def net_fine_def demo_dev_def intro!: bexI [of _ 3])
qed

theorem client_served_witness:
  "\<exists>s'. client_data_handler driver_os (demo_srv (demo_dev demo_written ((\<lambda>_. [])(9 := [''c'', ''d\<newline>e''])))) 0 = Some (s', Exit_param) \<and>
     d_stored (os_st s') = ([''ab\<newline>'', ''cd\<newline>''], []) \<and> outq (os_st s') 9 = ''ab\<newline>cd\<newline>'' \<and> outq (os_st s') 8 = []"
proof -
  let ?s = "demo_srv (demo_dev demo_written ((\<lambda>_. [])(9 := [''c'', ''d\<newline>e''])))"
  have h: "d_ok (os_st ?s)" "inq (os_st ?s) 9 = [''c''] @ ''d\<newline>e'' # []" "\<forall>pk \<in> set [''c'']. newline \<notin> set pk"
    "newline \<in> set ''d\<newline>e''" "d_stored (os_st ?s) = ([''ab\<newline>''], [])" "d_ready 64 (os_st ?s)"
    "thread_clientSocketFd (thread_data (new_node 9)) = 9"
    using demo_devs demo_stored demo_ready by (simp_all add: new_node_def)
  have b: "\<forall>b \<in> set (buffers (replicate BUF_LEN CHR 0x00) ([''c''] @ [''d\<newline>e''])). take (length ioctl_str) b \<noteq> ioctl_str"
    "\<forall>pk \<in> set ([''c''] @ [''d\<newline>e'']). length pk \<le> BUF_LEN"
    by (simp_all add: ioctl_str_def BUF_LEN_def)
  from client_served [OF demo_srv_simps(2) h(7,1-4) b h(5), of 64] h(6) show ?thesis by (auto simp: last_n_def)
qed

theorem client_seeks_witness:
  "\<exists>s'. client_data_handler driver_os (demo_srv (demo_dev demo_written ((\<lambda>_. [])(9 := [seek_packet 0 1])))) 0 = Some (s', Exit_param) \<and>
     d_stored (os_st s') = ([''ab\<newline>''], []) \<and> outq (os_st s') 9 = ''b\<newline>''"
proof -
  let ?s = "demo_srv (demo_dev demo_written ((\<lambda>_. [])(9 := [seek_packet 0 1])))"
  have h: "d_ok (os_st ?s)" "d_unwrapped (os_st ?s)" "inq (os_st ?s) 9 = seek_packet 0 1 # []"
    "d_stored (os_st ?s) = ([''ab\<newline>''], [])" "(0 :: nat) < 2 ^ 31" "(1 :: nat) < 2 ^ 31" "d_ready 64 (os_st ?s)"
    "thread_clientSocketFd (thread_data (new_node 9)) = 9"
    using demo_devs demo_stored demo_written_eq(2) demo_ready by (simp_all add: new_node_def)
  from client_seeks [OF demo_srv_simps(2) h(8,1-3,5,6,4), of 64] h(7) show ?thesis by (auto simp: Let_def)
qed

end
