(* ===== verification/Server_Sessions.thy ===== *)
theory Server_Sessions
  imports Server_Properties
begin

text \<open>
  Clients that are served one after another on the character driver: what the device holds in the end and
  what each client is sent on its socket.
\<close>

section \<open>Clients served one after another\<close>

text \<open>The threads of the nodes in a list, each run to its end before the next one starts.\<close>

fun serve_in_turn :: "'o os \<Rightarrow> 'o srv \<Rightarrow> nat list \<Rightarrow> ('o srv \<times> thread_exit list) option" where
  "serve_in_turn OS s [] = Some (s, [])"
| "serve_in_turn OS s (a # as) = do {
     (s1, x) \<leftarrow> client_data_handler OS s a;
     (s2, xs) \<leftarrow> serve_in_turn OS s1 as;
     Some (s2, x # xs)
   }"

text \<open>
  What a client sends: the packets before the last one, and the last one, which holds the newline. The command has at most \<open>R\<close> bytes, no
  packet is longer than the receive buffer, and none makes the buffer look like a seek command.
\<close>

type_synonym session = "char list list \<times> char list"

definition packets :: "session \<Rightarrow> char list list" where
  "packets c = fst c @ [snd c]"

definition command :: "session \<Rightarrow> char list" where
  "command c = concat (fst c) @ consumed (snd c)"

definition sends_command :: "nat \<Rightarrow> session \<Rightarrow> bool" where
  "sends_command R c \<longleftrightarrow> list_all (\<lambda>pk. newline \<notin> set pk) (fst c) \<and> newline \<in> set (snd c) \<and>
     list_all (\<lambda>b. take (length ioctl_str) b \<noteq> ioctl_str) (buffers (replicate BUF_LEN CHR 0x00) (packets c)) \<and>
     list_all (\<lambda>pk. length pk \<le> BUF_LEN) (packets c) \<and> length (concat (packets c)) \<le> R"

definition complete_at :: "'o srv \<Rightarrow> nat \<Rightarrow> bool" where
  "complete_at s a \<longleftrightarrow> (case nodes s a of None \<Rightarrow> False | Some n \<Rightarrow> isThreadComplete (thread_data n))"

lemma complete_kept:
  "nodes s' = nodes (set_complete s a) \<Longrightarrow> complete_at s b \<Longrightarrow> complete_at s' b"
  "nodes s' = nodes (set_complete s a) \<Longrightarrow> nodes s a \<noteq> None \<Longrightarrow> complete_at s' a"
  "nodes s' = nodes (set_complete s a) \<Longrightarrow> (nodes s' b = None) = (nodes s b = None)"
  by (auto simp: complete_at_def set_complete_def split: option.splits if_splits)

text \<open>The socket of a thread.\<close>

definition sock :: "'o srv \<Rightarrow> nat \<Rightarrow> int" where
  "sock s a = thread_clientSocketFd (thread_data (the (nodes s a)))"

lemma sock_kept:
  "nodes s' = nodes (set_complete s a) \<Longrightarrow> nodes s b \<noteq> None \<Longrightarrow> sock s' b = sock s b"
  by (auto simp: sock_def set_complete_def)

text \<open>One client: its command is stored, all the commands then stored are sent on its socket, and the server is ready again.\<close>

lemma client_done:
  assumes "nodes s a \<noteq> None" and "d_ok (os_st s)" and "d_ready R (os_st s)" and "sends_command R c"
    and inq: "inq (os_st s) (sock s a) = packets c" and "d_stored (os_st s) = (log, [])"
    and con: "sock s a \<in> socks (os_st s)" and short: "\<not> short_sent (os_st s)"
  obtains s' where "client_data_handler driver_os s a = Some (s', Exit_param)" "d_ok (os_st s')" "d_ready R (os_st s')"
    "inq (os_st s') = (inq (os_st s))(sock s a := [])" "d_stored (os_st s') = (last_n 10 (log @ [command c]), [])"
    "outq (os_st s') = (outq (os_st s))(sock s a := outq (os_st s) (sock s a) @ concat (last_n 10 (log @ [command c])))"
    "socks (os_st s') = socks (os_st s) - {sock s a}" "\<not> short_sent (os_st s')" "nodes s' = nodes (set_complete s a)"
proof -
  obtain n where n: "nodes s a = Some n" using assms(1) by blast
  have cfd: "thread_clientSocketFd (thread_data n) = sock s a" using n by (simp add: sock_def)
  have c: "\<forall>pk \<in> set (fst c). newline \<notin> set pk" "newline \<in> set (snd c)"
    "\<forall>b \<in> set (buffers (replicate BUF_LEN CHR 0x00) (fst c @ [snd c])). take (length ioctl_str) b \<noteq> ioctl_str"
    "\<forall>pk \<in> set (fst c @ [snd c]). length pk \<le> BUF_LEN" "length (concat (fst c @ [snd c])) \<le> R"
    using assms(4) by (simp_all add: sends_command_def packets_def list_all_iff)
  have q: "inq (os_st s) (sock s a) = fst c @ snd c # []" using inq by (simp add: packets_def)
  from dev.handler_data [OF n c(1-4) assms(2) cfd q] obtain s' x where
    h: "client_data_handler driver_os s a = Some (s', x)" and H: "x = Exit_param \<Longrightarrow> d_ok (os_st s') \<and> inq (os_st s') = (inq (os_st s))(sock s a := []) \<and>
       d_stored (os_st s') = fold (\<lambda>data st. spec_write st data) (fst c @ [snd c]) (log, []) \<and>
       dev.answered (sock s a) (concat (fst (d_stored (os_st s')))) (os_st s) (os_st s') \<and> nodes s' = nodes (set_complete s a)"
    unfolding assms(6) by blast
  have "length (snd (d_stored (os_st s))) + length (concat (fst c @ [snd c])) \<le> R" using c(5) assms(6) by simp
  from live.handler_live [OF n c(1-4) assms(2) cfd q assms(3) this con h]
  have x: "x = Exit_param" "d_ready R (os_st s')" "socks (os_st s') = socks (os_st s) - {sock s a}" "\<not> short_sent (os_st s')"
    using short by auto
  have "fold (\<lambda>data st. spec_write st data) (fst c @ [snd c]) (log, []) = (last_n 10 (log @ [command c]), [])"
    using fold_pending [OF c(1)] c(2) by (simp add: spec_write_def command_def)
  then show thesis using that [of s'] h x H [OF x(1)] by (auto simp: dev.answered_def)
qed

text \<open>What the clients are sent in turn: the \<open>k\<close>-th one the last ten of the commands stored before and those of the clients up to it.\<close>

definition answers :: "char list list \<Rightarrow> session list \<Rightarrow> char list list" where
  "answers log cs = map (\<lambda>k. concat (last_n 10 (log @ map command (take (Suc k) cs)))) [0..<length cs]"

lemma answers_Cons:
  "answers log (c # cs) = concat (last_n 10 (log @ [command c])) # answers (last_n 10 (log @ [command c])) cs"
proof -
  have "last_n 10 (last_n 10 (log @ [command c]) @ xs) = last_n 10 (log @ command c # xs)" for xs
    by (simp add: last_n_append_absorb)
  then show ?thesis by (simp add: answers_def map_upt_Suc del: upt_Suc)
qed

text \<open>What is sent on the sockets of the threads \<open>as\<close>, one after the other.\<close>

definition add_answers :: "int list \<Rightarrow> char list list \<Rightarrow> (int \<Rightarrow> char list) \<Rightarrow> int \<Rightarrow> char list" where
  "add_answers fds ans q = fold (\<lambda>(fd, bs) q. q(fd := q fd @ bs)) (zip fds ans) q"

lemma add_answers_Cons: "add_answers (fd # fds) (bs # ans) q = add_answers fds ans (q(fd := q fd @ bs))"
  by (simp add: add_answers_def)

lemma add_answers_other: "c \<notin> set fds \<Longrightarrow> add_answers fds ans q c = q c"
proof (induction fds arbitrary: ans q)
  case (Cons fd fds)
  then show ?case by (cases ans) (simp_all add: add_answers_def)
qed (simp add: add_answers_def)

lemma add_answers_nth:
  "distinct fds \<Longrightarrow> length fds = length ans \<Longrightarrow> k < length fds \<Longrightarrow> add_answers fds ans q (fds ! k) = q (fds ! k) @ ans ! k"
proof (induction fds arbitrary: ans q k)
  case (Cons fd fds)
  then obtain bs bss where ans: "ans = bs # bss" by (cases ans) simp_all
  show ?case
  proof (cases k)
    case 0
    then show ?thesis using Cons.prems(1) add_answers_other [of fd fds bss] by (simp add: ans add_answers_Cons)
  next
    case (Suc j)
    then have "fds ! j \<noteq> fd" using Cons.prems(1,3) by auto
    then show ?thesis using Suc Cons.prems Cons.IH [of bss j] by (simp add: ans add_answers_Cons)
  qed
qed simp

lemma length_answers [simp]: "length (answers log cs) = length cs"
  by (simp add: answers_def)

text \<open>The clients of the threads \<open>as\<close> have sent the sessions \<open>cs\<close>, each on a socket of its own that is open.\<close>

definition connected :: "dev_client srv \<Rightarrow> nat list \<Rightarrow> session list \<Rightarrow> bool" where
  "connected s as cs \<longleftrightarrow> list_all (\<lambda>a. nodes s a \<noteq> None \<and> sock s a \<in> socks (os_st s)) as \<and> distinct (map (sock s) as) \<and>
     map (\<lambda>a. inq (os_st s) (sock s a)) as = map packets cs"

lemma connected_Cons:
  "connected s (a # as) (c # cs) \<longleftrightarrow> nodes s a \<noteq> None \<and> sock s a \<in> socks (os_st s) \<and> sock s a \<notin> sock s ` set as \<and>
     inq (os_st s) (sock s a) = packets c \<and> connected s as cs"
  by (auto simp: connected_def)

lemma connected_rest:
  assumes "connected s as cs" and "c \<notin> sock s ` set as" and "nodes s' = nodes (set_complete s a)"
    and "inq (os_st s') = (inq (os_st s))(c := [])" and "socks (os_st s') = socks (os_st s) - {c}"
  shows "connected s' as cs" and "map (sock s') as = map (sock s) as"
proof -
  have k: "nodes s' b \<noteq> None" "sock s' b = sock s b" "sock s b \<noteq> c" if "b \<in> set as" for b
    using that assms(1,2) sock_kept [OF assms(3), of b] complete_kept(3) [OF assms(3), of b]
    by (auto simp: connected_def list_all_iff)
  then show m: "map (sock s') as = map (sock s) as" by simp
  have "map (\<lambda>a. inq (os_st s') (sock s' a)) as = map (\<lambda>a. inq (os_st s) (sock s a)) as"
    using k by (simp add: assms(4))
  then show "connected s' as cs" using assms(1) k m unfolding connected_def assms(5) list_all_iff m by auto
qed

lemma serve_in_turn_all:
  assumes "length as = length cs" and "\<forall>c \<in> set cs. sends_command R c" and "connected s as cs"
    and "d_ok (os_st s)" and "d_ready R (os_st s)" and "\<not> short_sent (os_st s)"
    and "d_stored (os_st s) = (log, [])" and "length log \<le> 10"
  shows "\<exists>s'. serve_in_turn driver_os s as = Some (s', map (\<lambda>_. Exit_param) as) \<and>
    d_stored (os_st s') = (last_n 10 (log @ map command cs), []) \<and>
    outq (os_st s') = add_answers (map (sock s) as) (answers log cs) (outq (os_st s)) \<and>
    (\<forall>a. a \<in> set as \<or> complete_at s a \<longrightarrow> complete_at s' a)"
  using assms
proof (induction as cs arbitrary: s log rule: list_induct2)
  case Nil
  then show ?case by (simp add: last_n_all answers_def add_answers_def)
next
  case (Cons a as c cs)
  have pre: "nodes s a \<noteq> None" "sends_command R c" "inq (os_st s) (sock s a) = packets c" "sock s a \<in> socks (os_st s)"
    "sock s a \<notin> sock s ` set as" "connected s as cs"
    using Cons.prems(1,2) by (simp_all add: connected_Cons)
  from client_done [OF pre(1) Cons.prems(3,4) pre(2,3) Cons.prems(6) pre(4) Cons.prems(5)] obtain s1 where
    h: "client_data_handler driver_os s a = Some (s1, Exit_param)" "d_ok (os_st s1)" "d_ready R (os_st s1)"
      "inq (os_st s1) = (inq (os_st s))(sock s a := [])" "d_stored (os_st s1) = (last_n 10 (log @ [command c]), [])"
      "outq (os_st s1) = (outq (os_st s))(sock s a := outq (os_st s) (sock s a) @ concat (last_n 10 (log @ [command c])))"
      "socks (os_st s1) = socks (os_st s) - {sock s a}" "\<not> short_sent (os_st s1)" "nodes s1 = nodes (set_complete s a)" by metis
  note con = connected_rest [OF pre(6,5) h(9,4,7)]
  from Cons.IH [OF _ con(1) h(2,3,8,5)] Cons.prems(1) obtain s' where
    s': "serve_in_turn driver_os s1 as = Some (s', map (\<lambda>_. Exit_param) as)"
      "d_stored (os_st s') = (last_n 10 (last_n 10 (log @ [command c]) @ map command cs), [])"
      "outq (os_st s') = add_answers (map (sock s1) as) (answers (last_n 10 (log @ [command c])) cs) (outq (os_st s1))"
      "\<forall>b. b \<in> set as \<or> complete_at s1 b \<longrightarrow> complete_at s' b" by auto
  have "complete_at s' b" if "b \<in> set (a # as) \<or> complete_at s b" for b
    using that s'(4) complete_kept(1,2) [OF h(9)] pre(1) by auto
  then show ?case using s' h(1,6) con(2) by (simp add: last_n_append_absorb answers_Cons add_answers_Cons)
qed

text \<open>
  C5. Clients served one after another, each on an open socket of its own, are all served if the network takes every call in full, the kernel has resources to spare, a
  descriptor is free and there is no unfinished command: every thread ends regularly and is marked complete, the
  device holds the last ten commands of those stored before and those the clients sent, and on the socket of client number \<open>k\<close> exactly
  the last ten commands up to its own are sent; nothing is sent on any other socket.
\<close>

theorem clients_served_in_turn:
  assumes "length as = length cs" and "\<forall>c \<in> set cs. sends_command R c"
    and "\<forall>a \<in> set as. nodes s a \<noteq> None \<and> sock s a \<in> socks (os_st s)" and "distinct (map (sock s) as)"
    and "\<forall>k < length as. inq (os_st s) (sock s (as ! k)) = packets (cs ! k)"
    and "d_ok (os_st s)" and "d_ready R (os_st s)" and "\<not> short_sent (os_st s)"
    and "d_stored (os_st s) = (log, [])"
  shows "\<exists>s'. serve_in_turn driver_os s as = Some (s', map (\<lambda>_. Exit_param) as) \<and>
    d_stored (os_st s') = (last_n 10 (log @ map command cs), []) \<and>
    (\<forall>k < length as. outq (os_st s') (sock s (as ! k)) =
       outq (os_st s) (sock s (as ! k)) @ concat (last_n 10 (log @ map command (take (Suc k) cs)))) \<and>
    (\<forall>c. c \<notin> sock s ` set as \<longrightarrow> outq (os_st s') c = outq (os_st s) c) \<and> (\<forall>a \<in> set as. complete_at s' a)"
proof -
  have l: "length log \<le> 10" using assms(9) length_dev_log by (auto simp: d_stored_def dev_abs_def)
  have "map (\<lambda>a. inq (os_st s) (sock s a)) as = map packets cs"
    using assms(1,5) by (intro nth_equalityI) simp_all
  then have "connected s as cs" using assms(3,4) by (simp add: connected_def list_all_iff)
  from serve_in_turn_all [OF assms(1,2) this assms(6-9) l] obtain s' where
    s': "serve_in_turn driver_os s as = Some (s', map (\<lambda>_. Exit_param) as)" "d_stored (os_st s') = (last_n 10 (log @ map command cs), [])"
      "outq (os_st s') = add_answers (map (sock s) as) (answers log cs) (outq (os_st s))" "\<forall>a \<in> set as. complete_at s' a" by auto
  have "outq (os_st s') (sock s (as ! k)) = outq (os_st s) (sock s (as ! k)) @ concat (last_n 10 (log @ map command (take (Suc k) cs)))"
    if "k < length as" for k
    using add_answers_nth [OF assms(4), of "answers log cs" k] that assms(1) by (simp add: s'(3)) (simp add: answers_def)
  moreover have "outq (os_st s') c = outq (os_st s) c" if "c \<notin> sock s ` set as" for c
    using that by (simp add: s'(3) add_answers_other)
  ultimately show ?thesis using s'(1,2,4) by blast
qed

definition demo_two :: "(int \<Rightarrow> char list list) \<Rightarrow> dev_client srv" where
  "demo_two pks = (demo_srv (demo_dev demo_written pks))\<lparr>nodes := [0 \<mapsto> new_node 9, 1 \<mapsto> new_node 8]\<rparr>"

lemma demo_two_sock [simp]: "sock (demo_two pks) 0 = 9" "sock (demo_two pks) (Suc 0) = 8"
  by (simp_all add: sock_def demo_two_def new_node_def)

theorem clients_served_in_turn_witness:
  "\<exists>s'. serve_in_turn driver_os (demo_two ((\<lambda>_. [])(9 := [''c'', ''d\<newline>e''], 8 := [''f\<newline>'']))) [0, 1] = Some (s', [Exit_param, Exit_param]) \<and>
     d_stored (os_st s') = ([''ab\<newline>'', ''cd\<newline>'', ''f\<newline>''], []) \<and>
     outq (os_st s') 9 = ''ab\<newline>cd\<newline>'' \<and> outq (os_st s') 8 = ''ab\<newline>cd\<newline>f\<newline>'' \<and> complete_at s' 0 \<and> complete_at s' 1"
proof -
  let ?s = "demo_two ((\<lambda>_. [])(9 := [''c'', ''d\<newline>e''], 8 := [''f\<newline>'']))" and ?cs = "[([''c''], ''d\<newline>e''), ([], ''f\<newline>'')]"
  have "sends_command 64 c" if "c \<in> set ?cs" for c
    using that by (auto simp: sends_command_def packets_def ioctl_str_def BUF_LEN_def)
  then have c: "\<forall>c \<in> set ?cs. sends_command 64 c" by blast
  have n: "length [0, 1 :: nat] = length ?cs" "\<forall>a \<in> set [0, 1]. nodes ?s a \<noteq> None \<and> sock ?s a \<in> socks (os_st ?s)"
    "distinct (map (sock ?s) [0, 1])" by (auto simp: demo_two_def sock_def new_node_def)
  have "\<forall>k < length [0, 1 :: nat]. inq (os_st ?s) (sock ?s ([0, 1] ! k)) = packets (?cs ! k)"
    by (auto simp: packets_def demo_two_def sock_def new_node_def less_Suc_eq)
  moreover have "d_ok (os_st ?s)" "d_ready 64 (os_st ?s)" "\<not> short_sent (os_st ?s)" "d_stored (os_st ?s) = ([''ab\<newline>''], [])"
    using demo_devs demo_stored demo_ready by (simp_all add: demo_two_def)
  moreover have "outq (os_st ?s) = (\<lambda>_. [])" by (simp add: demo_two_def)
  ultimately show ?thesis using clients_served_in_turn [OF n(1) c n(2,3), of "[''ab\<newline>'']"]
    by (auto simp: command_def last_n_def less_Suc_eq all_conj_distrib)
qed

end
