(* ===== verification/Server_Lifecycle.thy ===== *)
theory Server_Lifecycle
  imports Server_Properties
begin

text \<open>
  The life of the server process: connections that are closed too early, the list of client
  threads, clean-up, signals, becoming a daemon, and the exit status.
\<close>

section \<open>Closed connections\<close>

text \<open>
  C25. A client that closes its connection before it sent a newline is served forever, over the character driver: whatever packets without
  newline it sent before (as long as none makes the receive buffer start like a seek command), once they are received every \<open>recv\<close>
  returns 0, which the thread takes for an empty packet. If no resource is short, the thread does not end.
\<close>

theorem closed_peer_never_ends:
  assumes "nodes s a = Some n" and "thread_clientSocketFd (thread_data n) = cfd"
    and "d_ok (os_st s)" and "d_ready R (os_st s)" and "cfd \<in> socks (os_st s)"
    and "\<forall>pk \<in> set (inq (os_st s) cfd). newline \<notin> set pk \<and> length pk \<le> BUF_LEN"
    and "\<forall>b \<in> set (buffers (replicate BUF_LEN CHR 0x00) (inq (os_st s) cfd)). take (length ioctl_str) b \<noteq> ioctl_str"
    and "length (snd (d_stored (os_st s))) + length (concat (inq (os_st s) cfd)) \<le> R"
  shows "client_data_handler driver_os s a = None"
proof -
  have "take (length ioctl_str) (replicate BUF_LEN CHR 0x00) \<noteq> ioctl_str"
    by (simp add: ioctl_str_def BUF_LEN_def numeral_eq_Suc)
  from live.recv_loop_unfinished [OF assms(6) this assms(7,3) refl assms(4,5,8)] assms(1,2) show ?thesis
    by (simp add: client_data_handler_def)
qed

theorem closed_peer_never_ends_witness:
  "client_data_handler driver_os (demo_srv (demo_dev demo_written ((\<lambda>_. [])(9 := [''c'', ''d''])))) 0 = None"
proof -
  let ?s = "demo_srv (demo_dev demo_written ((\<lambda>_. [])(9 := [''c'', ''d''])))"
  have h: "thread_clientSocketFd (thread_data (new_node 9)) = 9" "d_ok (os_st ?s)" "d_ready 64 (os_st ?s)" "9 \<in> socks (os_st ?s)"
    using demo_devs demo_ready by (simp_all add: new_node_def)
  show ?thesis
    by (rule closed_peer_never_ends [OF demo_srv_simps(2) h])
      (simp_all add: demo_stored ioctl_str_def BUF_LEN_def)
qed

section \<open>The list of client threads\<close>

lemma join_body_total:
  "nodes s a \<noteq> None \<Longrightarrow> \<exists>s' r. join_body OS a s = Some (s', r) \<and> nodes s' = nodes s \<and> head s' = head s \<and> s_flags s' = s_flags s"
  by (auto simp: join_body_def syscall_simps Let_def case_prod_beta)

lemma join_loop:
  assumes "slist (nodes s) (head s) xs"
  shows "\<exists>s' r. SLIST_FOREACH nodes (join_body OS) (SLIST_FIRST (head s)) s = Some (s', r) \<and>
    nodes s' = nodes s \<and> head s' = head s \<and> s_flags s' = s_flags s"
proof -
  let ?I = "\<lambda>t. nodes t = nodes s \<and> head t = head s \<and> s_flags t = s_flags s"
  have "\<exists>s' r. join_body OS a t = Some (s', r) \<and> ?I s'" if "a \<in> set xs" "?I t" for a t
    using join_body_total [of t a OS] slist_alloc [OF assms that(1)] that(2) by auto
  then show ?thesis
    using foreach_slist [where I = ?I and heap_of = nodes and H = "nodes s", OF _ assms, of s "join_body OS"]
    by (auto simp: SLIST_FIRST_def)
qed

text \<open>
  C13. Serving an accepted connection never leaves the list of threads broken: either a node for the new client,
  carrying its descriptor and thread, is put in front of the list, or the call returns \<open>ERROR\<close> and
  the list and the allocated nodes are as before. No node is taken out, even if its thread has completed.
\<close>

theorem serve_client_list:
  assumes "slist (nodes s) (head s) xs" and "\<And>st H t a. os_malloc OS st H = (t, Some a) \<Longrightarrow> H a = None"
  shows "\<exists>s' r. serve_client OS s = Some (s', r) \<and>
    ((\<exists>a nd. nodes s a = None \<and> slist (nodes s') (head s') (a # xs) \<and> nodes s' a = Some nd \<and>
        thread_clientSocketFd (thread_data nd) = clientSocketFd s \<and> \<not> isThreadComplete (thread_data nd)) \<or>
     r = Some ERROR \<and> slist (nodes s') (head s') xs \<and> nodes s' = nodes s)"
proof -
  obtain t fresh where m: "os_malloc OS (os_st s) (nodes s) = (t, fresh)" by force
  show ?thesis
  proof (cases fresh)
    case None
    then show ?thesis using m assms(1) by (simp add: serve_client_def syscall_def)
  next
    case (Some a)
    have free: "nodes s a = None" using assms(2) m Some by blast
    then have ax: "a \<notin> set xs" using slist_alloc [OF assms(1)] by blast
    obtain t2 r tid where p: "os_pthread_create OS t a = (t2, r, tid)" by (metis prod_cases3)
    let ?H = "(nodes s)(a \<mapsto> new_node (clientSocketFd s))"
    show ?thesis
    proof (cases "r = ERROR")
      case True
      have "(nodes s)(a := None) = nodes s" using free by auto
      then show ?thesis using m p Some True assms(1) by (simp add: serve_client_def syscall_def free_node_def)
    next
      case False
      define s4 where "s4 = set_threadId (s\<lparr>nodes := ?H, os_st := t2\<rparr>) a tid"
      obtain nd where nd: "nodes s4 a = Some nd" "thread_clientSocketFd (thread_data nd) = clientSocketFd s"
        "\<not> isThreadComplete (thread_data nd)" by (simp add: s4_def set_threadId_def new_node_def)
      have h4: "head s4 = head s" "slist (nodes s4) (head s) xs"
        using ax assms(1) by (simp_all add: s4_def set_threadId_def)
      from insert_head_slist [OF h4(2) nd(1) ax] obtain H' where
        i: "SLIST_INSERT_HEAD (nodes s4) (head s) (Some a) = Some (H', Some a)" "slist H' (Some a) (a # xs)"
          "node_data H' = node_data (nodes s4)" by blast
      obtain nd' where nd': "H' a = Some nd'" "thread_data nd' = thread_data nd"
        using i(3) nd(1) by (auto simp: node_data_def fun_eq_iff dest!: spec [of _ a])
      let ?s5 = "s4\<lparr>nodes := H', head := Some a\<rparr>"
      obtain s6 r6 where j: "SLIST_FOREACH nodes (join_body OS) (SLIST_FIRST (head ?s5)) ?s5 = Some (s6, r6)"
        "nodes s6 = H'" "head s6 = Some a"
        using join_loop [of ?s5 "a # xs" OS] i(2) by auto
      have "serve_client OS s = Some (s6, r6)"
        using m p Some False i(1) j(1) h4(1) by (simp add: serve_client_def syscall_def s4_def Let_def)
      then show ?thesis using free i(2) j(2,3) nd nd' by auto
    qed
  qed
qed

theorem serve_client_list_witness:
  "\<exists>s' r. serve_client idle_os (demo_srv ()) = Some (s', r)"
proof -
  have "slist (nodes (demo_srv ())) (head (demo_srv ())) [0]" by (simp add: demo_srv_def new_node_def)
  moreover have "H a = None" if "os_malloc idle_os st H = (t, Some a)" for st H t a
    using that by (auto simp: idle_os_def split: if_splits)
  ultimately show ?thesis using serve_client_list [of "demo_srv ()" "[0]" idle_os] by blast
qed

section \<open>Clean-up and signals\<close>

text \<open>What clean-up looks at of the server state: the later stages keep the list, the signal flag and the shutdown mark.\<close>

definition kept :: "'o srv \<Rightarrow> node_ptr \<times> ClientThreadData_t node_heap \<times> bool \<times> bool" where
  "kept s = (head s, nodes s, signal_caught (s_flags s), fatal_error_in_progress s)"

lemma kept_syscall [simp]: "kept (fst (syscall f s)) = kept s" "s_flags (fst (syscall f s)) = s_flags s" "result (fst (syscall f s)) = result s"
  by (simp_all add: kept_def syscall_simps)

lemma kept_free_result [simp]: "kept (free_and_nullify_result OS s) = kept s"
  "s_flags (free_and_nullify_result OS s) = s_flags s" "result (free_and_nullify_result OS s) = None"
  by (simp_all add: kept_def free_and_nullify_result_def syscall_simps split: option.splits)

lemma kept_flags [simp]: "signal_caught fl = signal_caught (s_flags s) \<Longrightarrow> kept (s\<lparr>s_flags := fl\<rparr>) = kept s"
  by (simp add: kept_def)

lemma cleanup_run:
  assumes "slist (nodes s) (head s) xs"
  shows "\<exists>s'. cleanup_on_exit OS s = Some s' \<and> head s' = None \<and> dom (nodes s') = dom (nodes s) - set xs \<and>
    result s' = None \<and> \<not> socket_open (s_flags s') \<and> \<not> client_fd_open (s_flags s') \<and> \<not> log_open (s_flags s') \<and>
    signal_caught (s_flags s') = signal_caught (s_flags s) \<and> fatal_error_in_progress s' = fatal_error_in_progress s"
proof -
  from sl.drain_all [OF assms] obtain H where
    d: "drain SLIST_REMOVE free_node (nodes s) (head s) = Some (H, None)" "dom H = dom (nodes s) - set xs" by blast
  obtain s1 ret where c: "syscall (\<lambda>st. os_close OS st (dataFileDescriptor s)) s = (s1, ret)" by force
  define s2 where "s2 = (if ret = - 1 then s1\<lparr>s_flags := (s_flags s1)\<lparr>command_status_success := False\<rparr>\<rparr> else s1)"
  have "kept s1 = kept s" using kept_syscall(1) [of "\<lambda>st. os_close OS st (dataFileDescriptor s)" s] c by simp
  then have k2: "kept s2 = kept s" by (simp add: s2_def)
  define s3 where "s3 = s2\<lparr>nodes := H, head := None\<rparr>"
  have q: "free_queue s2 = Some s3" using d(1) k2 by (simp add: free_queue_def s3_def kept_def)
  have k3: "kept s3 = (None, H, signal_caught (s_flags s), fatal_error_in_progress s)" using k2 by (simp add: kept_def s3_def)
  define s4 where "s4 = (if \<not> signal_caught (s_flags s3) then fst (syscall (os_mutex_destroy OS) s3) else s3)"
  define t5 where "t5 = fst (syscall (\<lambda>st. os_close OS st (sock_fd s4)) s4)"
  define s5 where "s5 = (if socket_open (s_flags s4) then t5\<lparr>s_flags := (s_flags t5)\<lparr>socket_open := False\<rparr>\<rparr> else s4)"
  define t6 where "t6 = fst (syscall (\<lambda>st. os_close OS st (clientSocketFd s5)) s5)"
  define s6 where "s6 = (if client_fd_open (s_flags s5) then t6\<lparr>s_flags := (s_flags t6)\<lparr>client_fd_open := False\<rparr>\<rparr> else s5)"
  define s7 where "s7 = free_and_nullify_result OS s6"
  define t8 where "t8 = fst (syscall (os_closelog OS) s7)"
  define s8 where "s8 = (if log_open (s_flags s7) then t8\<lparr>s_flags := (s_flags t8)\<lparr>log_open := False\<rparr>\<rparr> else s7)"
  have 5: "kept s5 = kept s3" "\<not> socket_open (s_flags s5)" by (simp_all add: s5_def t5_def s4_def)
  have 6: "kept s6 = kept s3" "\<not> socket_open (s_flags s6)" "\<not> client_fd_open (s_flags s6)"
    using 5 by (simp_all add: s6_def t6_def)
  have 8: "kept s8 = kept s3" "\<not> socket_open (s_flags s8)" "\<not> client_fd_open (s_flags s8)" "\<not> log_open (s_flags s8)" "result s8 = None"
    using 6 by (simp_all add: s8_def t8_def s7_def)
  have "cleanup_on_exit OS s = Some s8"
    unfolding cleanup_on_exit_def c Let_def case_prod_conv s2_def [symmetric] q bind.bind_lunit
      s4_def [symmetric] t5_def [symmetric] s5_def [symmetric] t6_def [symmetric] s6_def [symmetric] s7_def [symmetric]
      t8_def [symmetric] s8_def [symmetric] ..
  then show ?thesis using 8 k3 d(2) by (auto simp: kept_def)
qed

lemma termination_run:
  assumes "slist (nodes s) (head s) xs" and "\<not> fatal_error_in_progress s"
  shows "\<exists>s'. handle_termination OS s sig = Some s' \<and> fatal_error_in_progress s' \<and> signal_caught (s_flags s') \<and>
    head s' = None \<and> dom (nodes s') = dom (nodes s) - set xs \<and> result s' = None \<and>
    \<not> socket_open (s_flags s') \<and> \<not> client_fd_open (s_flags s') \<and> \<not> log_open (s_flags s') \<and>
    (\<exists>s4. cleanup_on_exit OS (s\<lparr>fatal_error_in_progress := True, os_st := fst (os_shutdown OS (os_st s) (sock_fd s)),
        s_flags := (s_flags s)\<lparr>signal_caught := True\<rparr>\<rparr>) = Some s4 \<and>
      s' = s4\<lparr>os_st := fst (os_raise OS (fst (os_signal OS (os_st s4) sig False)) sig)\<rparr>)"
proof -
  let ?s2 = "fst (syscall (\<lambda>st. os_shutdown OS st (sock_fd s)) (s\<lparr>fatal_error_in_progress := True\<rparr>))"
  let ?s3 = "?s2\<lparr>s_flags := (s_flags ?s2)\<lparr>signal_caught := True\<rparr>\<rparr>"
  have s3: "slist (nodes ?s3) (head ?s3) xs" "nodes ?s3 = nodes s" "signal_caught (s_flags ?s3)" "fatal_error_in_progress ?s3"
    using assms(1) by (simp_all add: syscall_simps)
  from cleanup_run [OF s3(1), of OS] obtain s4 where
    s4: "cleanup_on_exit OS ?s3 = Some s4" "head s4 = None" "dom (nodes s4) = dom (nodes ?s3) - set xs" "result s4 = None"
      "signal_caught (s_flags s4) = signal_caught (s_flags ?s3)" "fatal_error_in_progress s4 = fatal_error_in_progress ?s3"
      "\<not> socket_open (s_flags s4)" "\<not> client_fd_open (s_flags s4)" "\<not> log_open (s_flags s4)" by blast
  have "handle_termination OS s sig =
      Some (fst (syscall (\<lambda>st. os_raise OS st sig) (fst (syscall (\<lambda>st. os_signal OS st sig False) s4))))"
    unfolding handle_termination_def using assms(2) s4(1) by (simp add: Let_def)
  moreover have "?s3 = s\<lparr>fatal_error_in_progress := True, os_st := fst (os_shutdown OS (os_st s) (sock_fd s)),
      s_flags := (s_flags s)\<lparr>signal_caught := True\<rparr>\<rparr>" by (simp add: syscall_simps)
  ultimately show ?thesis using s4 s3(2-4) by (simp add: syscall_simps)
qed

text \<open>
  C22. The first termination signal shuts the socket down, marks the shutdown, cleans up, restores the default action of the signal and then, as its last
  call, raises the signal again; clean-up ends, releases every node of the
  thread list and the address information, and leaves no descriptor marked as open. A
  signal that arrives after that only raises itself and changes nothing else. The nodes it releases belong to threads that
  may not have run yet: a thread of the list that starts after the handler has cleaned up dereferences a released node.
\<close>

theorem handle_termination_correct:
  assumes "slist (nodes s) (head s) xs"
  shows "if fatal_error_in_progress s
    then handle_termination OS s sig = Some (s\<lparr>os_st := fst (os_raise OS (os_st s) sig)\<rparr>)
    else \<exists>s'. handle_termination OS s sig = Some s' \<and> fatal_error_in_progress s' \<and> signal_caught (s_flags s') \<and>
      head s' = None \<and> dom (nodes s') = dom (nodes s) - set xs \<and> result s' = None \<and>
      \<not> socket_open (s_flags s') \<and> \<not> client_fd_open (s_flags s') \<and> \<not> log_open (s_flags s') \<and>
      (\<exists>s4. cleanup_on_exit OS (s\<lparr>fatal_error_in_progress := True, os_st := fst (os_shutdown OS (os_st s) (sock_fd s)),
          s_flags := (s_flags s)\<lparr>signal_caught := True\<rparr>\<rparr>) = Some s4 \<and>
        s' = s4\<lparr>os_st := fst (os_raise OS (fst (os_signal OS (os_st s4) sig False)) sig)\<rparr>) \<and>
      (\<forall>a \<in> set xs. nodes s a \<noteq> None \<and> client_data_handler OS' s' a = Some (s', Exit_undefined))"
proof (cases "fatal_error_in_progress s")
  case True
  then show ?thesis by (simp add: handle_termination_def syscall_simps)
next
  case False
  have "client_data_handler OS' s' a = Some (s', Exit_undefined)"
    if "dom (nodes s') = dom (nodes s) - set xs" "a \<in> set xs" for s' a
  proof -
    have "nodes s' a = None" using that by blast
    then show ?thesis by (simp add: client_data_handler_def)
  qed
  then show ?thesis using termination_run [OF assms False, of OS sig] False slist_alloc [OF assms] by fastforce
qed

theorem handle_termination_correct_witness:
  "\<exists>s'. handle_termination idle_os (demo_srv ()) 15 = Some s' \<and> fatal_error_in_progress s' \<and> head s' = None \<and>
     client_data_handler idle_os s' 0 = Some (s', Exit_undefined)"
proof -
  have "slist (nodes (demo_srv ())) (head (demo_srv ())) [0]" by (simp add: demo_srv_def new_node_def)
  from handle_termination_correct [OF this, of idle_os 15] show ?thesis by (auto simp: demo_srv_def)
qed

section \<open>Flags and exit status\<close>

lemma foreach_keeps:
  assumes body: "\<And>a s s' r. body a s = Some (s', r) \<Longrightarrow> g s' = g s"
    and run: "SLIST_FOREACH heap_of body p s = Some (s', r)"
  shows "g s' = g s"
proof -
  have "ho = heap_of \<and> bo = body \<longrightarrow> g (fst y) = g t" if "SLIST_FOREACH ho bo q t = Some y" for ho bo q t y
    by (rule SLIST_FOREACH.raw_induct [where P = "\<lambda>ho bo q t y. ho = heap_of \<and> bo = body \<longrightarrow> g (fst y) = g t", OF _ that])
      (auto split: option.splits bind_splits if_splits prod.splits dest: body; metis body fst_conv)
  from this [OF run] show ?thesis by simp
qed

lemma join_body_flags: "join_body OS a s = Some (s', r) \<Longrightarrow> s_flags s' = s_flags s"
  by (auto simp: join_body_def syscall_simps Let_def case_prod_beta split: bind_splits if_splits)

lemma join_loop_flags: "SLIST_FOREACH nodes (join_body OS) p s = Some (s', r) \<Longrightarrow> s_flags s' = s_flags s"
  by (rule foreach_keeps [where g = s_flags, OF join_body_flags])

lemma serve_client_flags: "serve_client OS s = Some (s', r) \<Longrightarrow> s_flags s' = s_flags s"
  by (auto simp: serve_client_def syscall_simps Let_def case_prod_beta set_threadId_def
      split: bind_splits if_splits option.splits) (drule join_loop_flags, simp)+

lemma accept_flags:
  assumes "accept_and_log_client OS s = Some (s', v)"
  shows "s_flags s' = s_flags s"
proof -
  have "s_flags (fst y) = s_flags t" if "accept_and_log_client O' t = Some y" for O' t y
    by (rule accept_and_log_client.raw_induct [where P = "\<lambda>_ t y. s_flags (fst y) = s_flags t", OF _ that])
      (auto simp: syscall_simps Let_def split: option.splits bind_splits if_splits dest!: serve_client_flags; metis)
  from this [OF assms] show ?thesis by simp
qed

text \<open>The flags that the program never sets.\<close>

definition unset :: "status_flags \<Rightarrow> bool" where
  "unset fl \<longleftrightarrow> \<not> command_status_success fl \<and> \<not> socket_open fl \<and> \<not> client_fd_open fl \<and> \<not> log_open fl"

lemma cleanup_unset:
  "cleanup_on_exit OS s = Some s' \<Longrightarrow> unset (s_flags s) \<Longrightarrow> unset (s_flags s')"
  by (auto simp: cleanup_on_exit_def free_queue_def free_and_nullify_result_def syscall_simps Let_def unset_def
      split: option.splits bind_splits if_splits)

lemma bind_socket_flags: "s_flags (fst (bind_socket OS s)) = s_flags s"
  by (simp add: bind_socket_def syscall_simps Let_def case_prod_beta free_and_nullify_result_def split: option.splits)

lemma run_daemon_srv: "fst (run_daemon OS s) = s\<lparr>os_st := os_st (fst (run_daemon OS s))\<rparr>"
  by (simp add: run_daemon_def syscall_simps Let_def)

lemma run_daemon_flags: "s_flags (fst (run_daemon OS s)) = s_flags s"
  by (subst run_daemon_srv) simp

lemma application_unset:
  assumes run: "main_socket_application OS s = Some (s', e)" and un: "unset (s_flags s)"
  shows "unset (s_flags s')"
proof -
  let ?s2 = "fst (syscall (\<lambda>st. os_signal OS st 15 True) (fst (syscall (\<lambda>st. os_signal OS st 2 True) s)))"
  obtain s3 bound where b: "bind_socket OS ?s2 = (s3, bound)" by force
  have u3: "unset (s_flags s3)" using bind_socket_flags [of OS ?s2] b un by (simp add: syscall_simps)
  obtain s4 x where d: "(if daemon_mode (s_flags s3) then run_daemon OS s3 else (s3, Returned 0)) = (s4, x)" by force
  have u4: "unset (s_flags s4)" using run_daemon_flags [of OS s3] d u3 by (auto split: if_splits)
  obtain s5 r where l: "syscall (\<lambda>st. os_listen OS st (sock_fd s4) BACKLOG_CONNECTIONS) s4 = (s5, r)" by force
  have u5: "unset (s_flags s5)" using l u4 by (auto simp: syscall_simps)
  show ?thesis
    using run b d l u3 u4 u5
    by (auto simp: main_socket_application_def Let_def split: bind_splits if_splits process_end.splits prod.splits
        dest!: accept_flags intro: cleanup_unset)
qed

text \<open>
  C24. The program never reports success: started with its flags cleared, \<open>main\<close> either ends in the
  parent process of the daemon or returns \<open>-1\<close>, whatever the system calls do, because no code sets
  \<open>command_status_success\<close>; and the flags that tell the clean-up to close the sockets and the log are never set either.
\<close>

theorem main_never_succeeds:
  assumes "main OS s argv = Some (s', e)" and "unset (s_flags s)"
  shows "(e = Returned (- 1) \<or> (\<exists>code. e = Exited code)) \<and> unset (s_flags s')"
proof -
  have "unset (s_flags (if b then t\<lparr>s_flags := (s_flags t)\<lparr>daemon_mode := True\<rparr>\<rparr> else t))"
    if "s_flags t = s_flags s" for b and t :: "'a srv"
    using that assms(2) by (simp add: unset_def)
  with assms show ?thesis
    by (auto simp: main_def syscall_simps Let_def split: bind_splits if_splits process_end.splits
        dest!: application_unset) (auto simp: unset_def)
qed

lemma idle_simps [simp]:
  "os_mutex_init idle_os st = (st, 0)" "os_mutex_destroy idle_os st = (st, 0)" "os_openlog idle_os st = (st, ())"
  "os_closelog idle_os st = (st, ())" "os_getopt idle_os argv = []" "os_signal idle_os st i b = (st, ())"
  "os_getaddrinfo idle_os st = (st, 0, Some 1)" "os_freeaddrinfo idle_os st a = (st, ())"
  "os_socket idle_os st a = (st, 4)" "os_setsockopt idle_os st i = (st, 0)" "os_bind idle_os st i a = (st, 0)"
  "os_listen idle_os st i k = (st, 0)" "os_accept idle_os st i = (st, - 1)" "os_close idle_os st i = (st, 0)"
  "os_signalled idle_os st = False"
  by (simp_all add: idle_os_def)

lemma accept_idle: "\<not> fatal_error_in_progress s \<Longrightarrow>
    accept_and_log_client idle_os s = Some (s\<lparr>clientSocketFd := - 1\<rparr>, ERROR)"
  by (subst accept_and_log_client.simps) (simp add: fatal_now_def syscall_def)

lemma drain_demo: "drain SLIST_REMOVE free_node [0 \<mapsto> new_node 9] (Some 0) = Some (Map.empty, None)"
  by (subst drain.simps, simp add: SLIST_EMPTY_def SLIST_FIRST_def SLIST_REMOVE_def SLIST_REMOVE_HEAD_def SLIST_NEXT_def
      new_node_def free_node_def, subst drain.simps, simp add: SLIST_EMPTY_def)

lemma main_idle: "\<exists>s' e. main idle_os (demo_srv ()) [] = Some (s', e)"
  by (simp add: main_def main_socket_application_def bind_socket_def syscall_def demo_srv_def no_flags_def
      free_and_nullify_result_def cleanup_on_exit_def free_queue_def drain_demo accept_idle)

theorem main_never_succeeds_witness:
  "\<exists>s' e. main idle_os (demo_srv ()) [] = Some (s', e) \<and> e \<noteq> Returned 0"
proof -
  obtain s' e where m: "main idle_os (demo_srv ()) [] = Some (s', e)" using main_idle by blast
  have "unset (s_flags (demo_srv ()))" by (simp add: unset_def demo_srv_def no_flags_def)
  from main_never_succeeds [OF m this] m show ?thesis by auto
qed

text \<open>
  With the flags that the program leaves unset, clean-up closes the data file and, unless a signal started it,
  destroys the mutex, and then only releases the address information: neither the listening
  socket nor a client descriptor is closed.
\<close>

lemma cleanup_leaves_sockets:
  assumes "slist (nodes s) (head s) xs" and "unset (s_flags s)" and "result s = None"
  shows "\<exists>s'. cleanup_on_exit OS s = Some s' \<and>
    os_st s' = (let t = fst (os_close OS (os_st s) (dataFileDescriptor s))
                in if signal_caught (s_flags s) then t else fst (os_mutex_destroy OS t))"
proof -
  from sl.drain_all [OF assms(1)] obtain H where
    "drain SLIST_REMOVE free_node (nodes s) (head s) = Some (H, None)" by blast
  then show ?thesis using assms(2,3)
    by (simp add: cleanup_on_exit_def free_queue_def free_and_nullify_result_def syscall_simps Let_def unset_def)
qed

section \<open>Becoming a daemon\<close>

text \<open>The child: the first call that fails ends it.\<close>

lemma run_daemon_child:
  assumes "os_fork OS (os_st s) = (t, 0)" and "os_umask OS t = (u, ())" and "os_setsid OS u = (v, r1)"
    and "os_chdir OS v ''/'' = (w, r2)" and "os_close OS w 0 = (c0, x0)" and "os_close OS c0 1 = (c1, x1)"
    and "os_close OS c1 2 = (c2, x2)" and "os_open OS c2 ''/dev/null'' Rdwr = (n, fd)" and "os_dup2 OS n fd 0 = (d0, y0)"
    and "os_dup2 OS d0 fd 1 = (d1, y1)" and "os_dup2 OS d1 fd 2 = (d2, y2)"
  shows "run_daemon OS s =
    (if r1 < 0 then (s\<lparr>os_st := v\<rparr>, Returned ERROR) else if r2 = ERROR then (s\<lparr>os_st := w\<rparr>, Returned ERROR)
     else if fd = ERROR then (s\<lparr>os_st := n\<rparr>, Returned ERROR) else if y0 = ERROR then (s\<lparr>os_st := d0\<rparr>, Returned ERROR)
     else if y1 = ERROR then (s\<lparr>os_st := d1\<rparr>, Returned ERROR) else if y2 = ERROR then (s\<lparr>os_st := d2\<rparr>, Returned ERROR)
     else (s\<lparr>os_st := fst (os_close OS d2 fd)\<rparr>, Returned 0))"
  using assms by (simp add: run_daemon_def syscall_def case_prod_beta)

text \<open>
  C23. Becoming a daemon: the parent of a successful fork exits with status 0 and does nothing else; a failed
  fork returns \<open>ERROR\<close>; the child returns 0 exactly if the new session, the change to the root directory, opening the null
  device and the redirection of all three standard streams succeeded, and then has closed the extra descriptor; otherwise it
  returns \<open>ERROR\<close>. No server state other than the system's changes.
\<close>

theorem run_daemon_correct:
  "case os_fork OS (os_st s) of (t, pid) \<Rightarrow>
     if pid < 0 then run_daemon OS s = (s\<lparr>os_st := t\<rparr>, Returned ERROR)
     else if 0 < pid then run_daemon OS s = (s\<lparr>os_st := t\<rparr>, Exited 0)
     else
       let v = os_setsid OS (fst (os_umask OS t)); w = os_chdir OS (fst v) ''/'';
           c = fst (os_close OS (fst (os_close OS (fst (os_close OS (fst w) 0)) 1)) 2);
           null = os_open OS c ''/dev/null'' Rdwr;
           d0 = os_dup2 OS (fst null) (snd null) 0; d1 = os_dup2 OS (fst d0) (snd null) 1; d2 = os_dup2 OS (fst d1) (snd null) 2
       in if 0 \<le> snd v \<and> - 1 \<notin> {snd w, snd null, snd d0, snd d1, snd d2}
          then run_daemon OS s = (s\<lparr>os_st := fst (os_close OS (fst d2) (snd null))\<rparr>, Returned 0)
          else \<exists>t'. run_daemon OS s = (s\<lparr>os_st := t'\<rparr>, Returned ERROR)"
proof -
  obtain t pid where f: "os_fork OS (os_st s) = (t, pid)" by force
  show ?thesis
  proof (cases "pid = 0")
    case True
    obtain u where um: "os_umask OS t = (u, ())" by (cases "os_umask OS t") simp
    obtain v r1 where se: "os_setsid OS u = (v, r1)" by force
    obtain w r2 where ch: "os_chdir OS v ''/'' = (w, r2)" by force
    obtain c0 x0 where c0: "os_close OS w 0 = (c0, x0)" by force
    obtain c1 x1 where c1: "os_close OS c0 1 = (c1, x1)" by force
    obtain c2 x2 where c2: "os_close OS c1 2 = (c2, x2)" by force
    obtain n fd where op: "os_open OS c2 ''/dev/null'' Rdwr = (n, fd)" by force
    obtain d0 y0 where d0: "os_dup2 OS n fd 0 = (d0, y0)" by force
    obtain d1 y1 where d1: "os_dup2 OS d0 fd 1 = (d1, y1)" by force
    obtain d2 y2 where d2: "os_dup2 OS d1 fd 2 = (d2, y2)" by force
    note calls = f um se ch c0 c1 c2 op d0 d1 d2
    note eq = run_daemon_child [OF f [unfolded True] um se ch c0 c1 c2 op d0 d1 d2]
    have "\<exists>t'. run_daemon OS s = (s\<lparr>os_st := t'\<rparr>, Returned ERROR)"
      if bad: "\<not> (0 \<le> r1 \<and> - 1 \<notin> {r2, fd, y0, y1, y2})"
    proof -
      let ?t = "if r1 < 0 then v else if r2 = ERROR then w else if fd = ERROR then n else if y0 = ERROR then d0
        else if y1 = ERROR then d1 else d2"
      have "run_daemon OS s = (s\<lparr>os_st := ?t\<rparr>, Returned ERROR)"
        unfolding eq using bad by (cases "r1 < 0"; cases "r2 = ERROR"; cases "fd = ERROR"; cases "y0 = ERROR"; cases "y1 = ERROR") simp_all
      then show ?thesis by blast
    qed
    moreover have "run_daemon OS s = (s\<lparr>os_st := fst (os_close OS d2 fd)\<rparr>, Returned 0)"
      if "0 \<le> r1 \<and> - 1 \<notin> {r2, fd, y0, y1, y2}" using that by (auto simp: eq)
    ultimately have "if 0 \<le> r1 \<and> - 1 \<notin> {r2, fd, y0, y1, y2}
        then run_daemon OS s = (s\<lparr>os_st := fst (os_close OS d2 fd)\<rparr>, Returned 0)
        else \<exists>t'. run_daemon OS s = (s\<lparr>os_st := t'\<rparr>, Returned ERROR)"
      unfolding if_bool_eq_conj by blast
    then show ?thesis by (simp only: calls True Let_def fst_conv snd_conv case_prod_conv less_irrefl if_False)
  next
    case False
    then show ?thesis using f by (simp add: run_daemon_def syscall_simps)
  qed
qed

section \<open>Time stamps\<close>

text \<open>
  The time-stamp thread runs for ever unless a call fails: if reading the clock, sleeping, the mutex and the write always
  succeed, it does not return.
\<close>

lemma log_timestamps_never_ends:
  assumes "\<And>st. fst (snd (os_clock_gettime OS st)) = 0" and "\<And>st i. snd (os_clock_nanosleep OS st i) = 0"
    and "\<And>st. snd (os_mutex_lock OS st Global_lock) \<noteq> ERROR" and "\<And>st fd d. snd (os_write OS st fd d) \<noteq> ERROR"
    and "\<And>st. snd (os_mutex_unlock OS st Global_lock) \<noteq> ERROR"
  shows "log_timestamps OS s = None"
proof -
  have "O' = OS \<longrightarrow> False" if "log_timestamps O' s = Some y" for O' s y
    by (rule log_timestamps.raw_induct [where P = "\<lambda>O' _ _. O' = OS \<longrightarrow> False", OF _ that])
      (use assms in \<open>auto simp: syscall_simps Let_def case_prod_beta split: if_splits\<close>)
  then show ?thesis by (cases "log_timestamps OS s") blast+
qed

end
