(* ===== verification/Lock_Discipline.thy ===== *)
theory Lock_Discipline
  imports Aesd_Prelude
begin

text \<open>
  Threads that share one mutex. A program of a thread is given by what a thread can do next at a program
  counter and shared data: a list of actions, each with the counter and the data behind it. A step of a pool of threads is
  one action of one thread; acquiring the mutex waits until it is free. The interfaces \<open>lock_program\<close>, \<open>ranked_program\<close> and
  \<open>ending_lock_program\<close> say what a program has to keep so that the pool has mutual exclusion
  and always comes to an end. The threads of \<open>examples/threading\<close> and of the socket server provide them.
\<close>

section \<open>Pools of threads\<close>

datatype action = Local | Acquire | Release

record ('pc, 'd) pool =
  owner :: "nat option"
  pcs :: "nat \<Rightarrow> 'pc"
  shared :: 'd

type_synonym ('pc, 'd) program = "nat \<Rightarrow> 'pc \<Rightarrow> 'd \<Rightarrow> (action \<times> 'pc \<times> 'd) list"

definition advance :: "nat \<Rightarrow> 'pc \<Rightarrow> 'd \<Rightarrow> ('pc, 'd) pool \<Rightarrow> ('pc, 'd) pool" where
  "advance i p d s = s\<lparr>pcs := (pcs s)(i := p), shared := d\<rparr>"

lemma advance_simps [simp]:
  "owner (advance i p d s) = owner s" "pcs (advance i p d s) = (pcs s)(i := p)" "shared (advance i p d s) = d"
  by (simp_all add: advance_def)

inductive pool_step :: "('pc, 'd) program \<Rightarrow> ('pc, 'd) pool \<Rightarrow> ('pc, 'd) pool \<Rightarrow> bool"
  for prog :: "('pc, 'd) program" where
  act_local: "(Local, p, d) \<in> set (prog i (pcs s i) (shared s)) \<Longrightarrow> pool_step prog s (advance i p d s)"
| act_acquire: "(Acquire, p, d) \<in> set (prog i (pcs s i) (shared s)) \<Longrightarrow> owner s = None \<Longrightarrow>
    pool_step prog s ((advance i p d s)\<lparr>owner := Some i\<rparr>)"
| act_release: "(Release, p, d) \<in> set (prog i (pcs s i) (shared s)) \<Longrightarrow> owner s = Some i \<Longrightarrow>
    pool_step prog s ((advance i p d s)\<lparr>owner := None\<rparr>)"

inductive_cases pool_stepE: "pool_step prog s s'"

lemma run_0: "(pool_step prog ^^ 0) s s"
  by simp

lemma run_Suc: "(pool_step prog ^^ k) s t \<Longrightarrow> pool_step prog t u \<Longrightarrow> (pool_step prog ^^ Suc k) s u"
  by auto

text \<open>
  One thread on its own: its place, the shared data and the owner of the mutex. Such a run is a run of the pool in which no
  other thread moves.
\<close>

inductive solo :: "('pc, 'd) program \<Rightarrow> nat \<Rightarrow> 'pc \<times> 'd \<times> nat option \<Rightarrow> 'pc \<times> 'd \<times> nat option \<Rightarrow> bool"
  for prog :: "('pc, 'd) program" and i :: nat where
  solo_local: "(Local, p', d') \<in> set (prog i p d) \<Longrightarrow> solo prog i (p, d, ow) (p', d', ow)"
| solo_acquire: "(Acquire, p', d') \<in> set (prog i p d) \<Longrightarrow> solo prog i (p, d, None) (p', d', Some i)"
| solo_release: "(Release, p', d') \<in> set (prog i p d) \<Longrightarrow> solo prog i (p, d, Some i) (p', d', None)"

inductive_cases soloE: "solo prog i (p, d, ow) (p', d', ow')"

lemma solo_pool_step:
  assumes "solo prog i (pcs Q i, shared Q, owner Q) (p', d', ow')"
  shows "pool_step prog Q ((advance i p' d' Q)\<lparr>owner := ow'\<rparr>)"
proof -
  have eq: "(advance i p' d' Q)\<lparr>owner := owner Q\<rparr> = advance i p' d' Q" by (simp add: advance_def)
  from assms show ?thesis by (rule soloE) (simp_all add: eq pool_step.intros)
qed

lemma solo_pool:
  assumes "(solo prog i)\<^sup>*\<^sup>* (pcs Q i, shared Q, owner Q) (p', d', ow')"
  shows "\<exists>Q'. (pool_step prog)\<^sup>*\<^sup>* Q Q' \<and> pcs Q' = (pcs Q)(i := p') \<and> shared Q' = d' \<and> owner Q' = ow'"
  using assms
proof (induction "(p', d', ow')" arbitrary: p' d' ow' rule: rtranclp_induct)
  case base
  then show ?case by auto
next
  case (step y)
  obtain p1 d1 ow1 where y: "y = (p1, d1, ow1)" by (cases y)
  from step.hyps(3) [OF y] obtain Q1 where
    1: "(pool_step prog)\<^sup>*\<^sup>* Q Q1" "pcs Q1 = (pcs Q)(i := p1)" "shared Q1 = d1" "owner Q1 = ow1" by blast
  then have "pool_step prog Q1 ((advance i p' d' Q1)\<lparr>owner := ow'\<rparr>)"
    using step.hyps(2) y by (intro solo_pool_step) simp
  with 1 show ?case by (intro exI [of _ "(advance i p' d' Q1)\<lparr>owner := ow'\<rparr>"]) auto
qed

text \<open>The runs of one step where the thread has one possible action.\<close>

lemma solo_one:
  "prog i p d = [(Local, p1, d1)] \<Longrightarrow> (solo prog i)\<^sup>*\<^sup>* (p, d, ow) (p1, d1, ow)"
  "prog i p d = [(Acquire, p1, d1)] \<Longrightarrow> (solo prog i)\<^sup>*\<^sup>* (p, d, None) (p1, d1, Some i)"
  "prog i p d = [(Release, p1, d1)] \<Longrightarrow> (solo prog i)\<^sup>*\<^sup>* (p, d, Some i) (p1, d1, None)"
  by (rule r_into_rtranclp, auto intro: solo.intros)+

text \<open>A thread is about to release a mutex that it does not own: undefined behaviour.\<close>

definition bad_release :: "('pc, 'd) program \<Rightarrow> ('pc, 'd) pool \<Rightarrow> bool" where
  "bad_release prog s \<longleftrightarrow>
     (\<exists>i. (\<exists>p d. (Release, p, d) \<in> set (prog i (pcs s i) (shared s))) \<and> owner s \<noteq> Some i)"

section \<open>Mutual exclusion\<close>

locale lock_program =
  fixes prog :: "('pc, 'd) program" and inside :: "'pc \<Rightarrow> bool"
  assumes local_keeps: "(Local, p', d') \<in> set (prog i p d) \<Longrightarrow> inside p' = inside p"
    and acquire_enters: "(Acquire, p', d') \<in> set (prog i p d) \<Longrightarrow> \<not> inside p \<and> inside p'"
    and release_leaves: "(Release, p', d') \<in> set (prog i p d) \<Longrightarrow> inside p \<and> \<not> inside p'"
begin

text \<open>The owner of the mutex is the one thread inside the critical section.\<close>

definition owner_inside :: "('pc, 'd) pool \<Rightarrow> bool" where
  "owner_inside s \<longleftrightarrow> (\<forall>i. inside (pcs s i) \<longleftrightarrow> owner s = Some i)"

lemma owner_inside_step: "pool_step prog s s' \<Longrightarrow> owner_inside s \<Longrightarrow> owner_inside s'"
  by (cases rule: pool_step.cases)
    (auto simp: owner_inside_def dest: local_keeps acquire_enters release_leaves split: if_splits)

lemma owner_inside_run: "(pool_step prog)\<^sup>*\<^sup>* s s' \<Longrightarrow> owner_inside s \<Longrightarrow> owner_inside s'"
  by (induction rule: rtranclp_induct) (auto intro: owner_inside_step)

lemma mutual_exclusion:
  assumes "(pool_step prog)\<^sup>*\<^sup>* s s'" and "owner_inside s"
  shows "inside (pcs s' i) \<Longrightarrow> inside (pcs s' j) \<Longrightarrow> i = j" and "\<not> bad_release prog s'"
  using owner_inside_run [OF assms] release_leaves
  by (auto simp: owner_inside_def bad_release_def)

text \<open>A thread that stopped inside the critical section keeps every other thread out forever.\<close>

lemma stopped_inside_step:
  assumes "pool_step prog s s'" and "owner_inside s" and "inside (pcs s i)" and "\<And>d. prog i (pcs s i) d = []"
  shows "pcs s' i = pcs s i \<and> owner s' = Some i"
  using assms by (cases rule: pool_step.cases) (auto simp: owner_inside_def)

lemma stopped_inside:
  assumes "(pool_step prog)\<^sup>*\<^sup>* s s'" and "owner_inside s" and "inside (pcs s i)" and "\<And>d. prog i (pcs s i) d = []"
  shows "owner s' = Some i \<and> (\<forall>j. j \<noteq> i \<longrightarrow> \<not> inside (pcs s' j))"
proof -
  have "owner_inside s' \<and> pcs s' i = pcs s i" using assms(1)
  proof (induction rule: rtranclp_induct)
    case (step t u)
    then have t: "inside (pcs t i)" "\<And>d. prog i (pcs t i) d = []" "owner_inside t" using assms(3,4) by simp_all
    from stopped_inside_step [OF step.hyps(2) t(3,1,2)] owner_inside_step [OF step.hyps(2) t(3)] step.IH
    show ?case by simp
  qed (simp add: assms(2))
  then have "inside (pcs s' j) \<longleftrightarrow> owner s' = Some j" "inside (pcs s' i)" for j
    using assms(3) by (simp_all add: owner_inside_def)
  then show ?thesis by simp
qed

end

section \<open>Progress\<close>

text \<open>A program whose every action lowers a rank: its runs are bounded, with or without mutual exclusion.\<close>

locale ranked_program =
  fixes prog :: "('a, 'b) program" and rank :: "'a \<Rightarrow> nat"
  assumes rank_less: "(a, p', d') \<in> set (prog i p d) \<Longrightarrow> rank p' < rank p"
begin

definition total :: "nat set \<Rightarrow> ('a, 'b) pool \<Rightarrow> nat" where
  "total T s = (\<Sum>i\<in>T. rank (pcs s i))"

lemma total_advance:
  assumes "finite T" and "i \<in> T" and "(a, p, d) \<in> set (prog i (pcs s i) (shared s))"
  shows "total T (advance i p d s) < total T s"
  unfolding total_def
proof (rule sum_strict_mono_ex1 [OF assms(1)])
  show "\<forall>j\<in>T. rank (pcs (advance i p d s) j) \<le> rank (pcs s j)"
    using rank_less [OF assms(3)] by simp
  show "\<exists>j\<in>T. rank (pcs (advance i p d s) j) < rank (pcs s j)"
    using rank_less [OF assms(3)] assms(2) by auto
qed

text \<open>Threads outside \<open>T\<close> have nothing to do.\<close>

definition idle_outside :: "nat set \<Rightarrow> ('a, 'b) pool \<Rightarrow> bool" where
  "idle_outside T s \<longleftrightarrow> (\<forall>i. i \<notin> T \<longrightarrow> rank (pcs s i) = 0)"

lemma total_owner [simp]: "total T (s\<lparr>owner := x\<rparr>) = total T s"
  by (simp add: total_def)

lemma step_total:
  assumes "pool_step prog s s'" and "finite T" and "idle_outside T s"
  shows "total T s' < total T s \<and> idle_outside T s'"
  using assms(1)
proof cases
  case (act_local p d i)
  then have "i \<in> T" using assms(3) rank_less by (fastforce simp: idle_outside_def)
  then show ?thesis using act_local total_advance [OF assms(2)] assms(3) by (auto simp: idle_outside_def)
next
  case (act_acquire p d i)
  then have "i \<in> T" using assms(3) rank_less by (fastforce simp: idle_outside_def)
  then show ?thesis using act_acquire total_advance [OF assms(2)] assms(3) by (auto simp: idle_outside_def)
next
  case (act_release p d i)
  then have "i \<in> T" using assms(3) rank_less by (fastforce simp: idle_outside_def)
  then show ?thesis using act_release total_advance [OF assms(2)] assms(3) by (auto simp: idle_outside_def)
qed

lemma run_length:
  assumes "(pool_step prog ^^ k) s s'" and "finite T" and "idle_outside T s"
  shows "k + total T s' \<le> total T s \<and> idle_outside T s'"
  using assms(1)
proof (induction k arbitrary: s')
  case (Suc k)
  then obtain t where t: "(pool_step prog ^^ k) s t" "pool_step prog t s'" by auto
  with Suc.IH [OF t(1)] step_total [OF t(2) assms(2)] show ?case by auto
qed (simp add: assms(3))

end

text \<open>A program with both, which stops only outside the critical section, at rank 0, does not deadlock.\<close>

locale ending_lock_program = lock_program prog inside + ranked_program prog rank
  for prog :: "('a, 'b) program" and inside :: "'a \<Rightarrow> bool" and rank :: "'a \<Rightarrow> nat" +
  assumes stops: "prog i p d = [] \<Longrightarrow> rank p = 0"
    and rank_0: "rank p = 0 \<Longrightarrow> \<not> inside p"
begin

lemma can_act:
  assumes "0 < rank p"
  shows "\<exists>a p' d'. (a, p', d') \<in> set (prog i p d)"
proof -
  have "prog i p d \<noteq> []" using stops assms by auto
  then have "hd (prog i p d) \<in> set (prog i p d)" by (rule hd_in_set)
  then show ?thesis by (metis prod_cases3)
qed

lemma progress:
  assumes "owner_inside s" and "0 < rank (pcs s i)"
  shows "\<exists>s'. pool_step prog s s'"
proof (cases "owner s")
  case None
  obtain a p d where a: "(a, p, d) \<in> set (prog i (pcs s i) (shared s))"
    using can_act [OF assms(2)] by blast
  have "a \<noteq> Release" using a assms(1) None by (auto simp: owner_inside_def dest: release_leaves)
  with a None show ?thesis by (cases a) (auto intro: pool_step.intros)
next
  case (Some j)
  then have j: "inside (pcs s j)" using assms(1) by (simp add: owner_inside_def)
  then have "0 < rank (pcs s j)" using rank_0 by blast
  then obtain a p d where a: "(a, p, d) \<in> set (prog j (pcs s j) (shared s))"
    using can_act by blast
  have "a \<noteq> Acquire" using a acquire_enters j by blast
  with a Some show ?thesis by (cases a) (auto intro: pool_step.intros)
qed

text \<open>A pool that cannot go on has finished: no thread is left waiting, and the mutex is free.\<close>

lemma stuck_finished:
  assumes "owner_inside s" and "\<nexists>s'. pool_step prog s s'"
  shows "rank (pcs s i) = 0" and "owner s = None"
proof -
  show r: "rank (pcs s i) = 0" for i using progress [OF assms(1)] assms(2) by auto
  then show "owner s = None" using assms(1) rank_0 by (cases "owner s") (auto simp: owner_inside_def)
qed

end

end
