(* ===== verification/Server_Race.thy ===== *)
theory Server_Race
  imports Server_Rounds Lock_Discipline
begin

text \<open>
  Client threads of the socket server side by side. The whole of \<open>client_data_handler\<close> is cut at its system calls and at its
  accesses to the thread's list element, so that other threads can run between any two of them; the mutex is the
  one of the pool, and the server state, with the global \<open>dataFileDescriptor\<close> and the list elements, is shared.
  \<open>client_data_handler\<close> is the run in which no other thread comes between.
\<close>

section \<open>The steps of a client\<close>

text \<open>
  The place of a thread, with its local variables: the receive buffer, the number of received bytes, the
  scanned seek command, and the bytes read from the file. \<open>C_null\<close> is a thread that returned a null
  pointer, \<open>C_undef\<close> one whose behaviour is undefined, with \<open>True\<close> between its lock and its unlock call.
\<close>

datatype cpc =
    C_recv "char list"
  | C_packet "char list" nat
  | C_ioctl aesd_seekto "char list" nat
  | C_lock "char list" nat
  | C_write "char list" nat
  | C_unlock "char list" nat
  | C_close "char list" nat
  | C_open_read
  | C_read_lock
  | C_read
  | C_read_unlock int "char list"
  | C_send int "char list"
  | C_close_client
  | C_complete
  | C_close_data
  | C_done
  | C_null bool
  | C_undef bool

definition in_file :: "cpc \<Rightarrow> bool" where
  "in_file p = (case p of C_write _ _ \<Rightarrow> True | C_unlock _ _ \<Rightarrow> True | C_read \<Rightarrow> True | C_read_unlock _ _ \<Rightarrow> True
     | C_null held \<Rightarrow> held | C_undef held \<Rightarrow> held | _ \<Rightarrow> False)"

text \<open>The places whose next step reads or writes the thread's list element through \<open>thread_data_ptr\<close>.\<close>

definition uses_node :: "cpc \<Rightarrow> bool" where
  "uses_node p = (case p of C_recv _ \<Rightarrow> True | C_lock _ _ \<Rightarrow> True | C_unlock _ _ \<Rightarrow> True | C_read_lock \<Rightarrow> True
     | C_read_unlock _ _ \<Rightarrow> True | C_send _ _ \<Rightarrow> True | C_close_client \<Rightarrow> True | C_complete \<Rightarrow> True | _ \<Rightarrow> False)"

text \<open>
  The mutex functions return 0 or a positive error number; the code only looks for \<open>ERROR\<close>, which is \<open>- 1\<close>. After a positive result it goes on, without the mutex
  or still with it. \<open>mutex_fine\<close> is the absence of such results.
\<close>

definition mutex_fine :: "'o os \<Rightarrow> bool" where
  "mutex_fine OS \<longleftrightarrow> (\<forall>st m. snd (os_mutex_lock OS st m) \<in> {SUCCESS, ERROR} \<and> snd (os_mutex_unlock OS st m) \<in> {SUCCESS, ERROR})"

text \<open>The end of the body of the receive loop.\<close>

definition after_packet :: "bool \<Rightarrow> char list \<Rightarrow> nat \<Rightarrow> cpc" where
  "after_packet ioctl buf n =
     (if newline \<in> set (take n buf) then (if \<not> ioctl then C_open_read else C_read_lock) else C_recv buf)"

definition client_prog :: "'o os \<Rightarrow> (cpc, 'o srv) program" where
  "client_prog OS i p s =
     (if uses_node p \<and> nodes s i = None then [(Local, C_undef (in_file p), s)]
      else case p of
        C_recv receive_buffer \<Rightarrow>
          let (s1, n, bytes) = syscall (\<lambda>st. os_recv OS st (thread_clientSocketFd (thread_data (the (nodes s i)))) BUF_LEN) s
          in if n = ERROR then [(Local, C_null False, s1)]
             else [(Local, C_packet (bytes @ drop (length bytes) receive_buffer) (nat n), s1)]
      | C_packet buf n \<Rightarrow>
          if take (length ioctl_str) buf = ioctl_str then
            if CHR 0x00 \<notin> set buf then [(Local, C_undef False, s)]
            else case scan_seekto buf (os_stack OS (os_st s)) of
              None \<Rightarrow> [(Local, C_undef False, s)]
            | Some aesd_seekto_data \<Rightarrow>
                let (s1, fd) = syscall (\<lambda>st. os_open OS st DATA_FILE Rdwr_creat_append) s
                in [(Local, if fd = ERROR then C_null False else C_ioctl aesd_seekto_data buf n, s1\<lparr>dataFileDescriptor := fd\<rparr>)]
          else
            let (s1, fd) = syscall (\<lambda>st. os_open OS st DATA_FILE Rdwr_creat_append) s
            in [(Local, C_lock buf n, s1\<lparr>dataFileDescriptor := fd\<rparr>)]
      | C_ioctl aesd_seekto_data buf n \<Rightarrow>
          let (s1, _) = syscall (\<lambda>st. os_ioctl OS st (dataFileDescriptor s) aesd_seekto_data) s
          in [(Local, after_packet True buf n, s1)]
      | C_lock buf n \<Rightarrow>
          let (s1, r) = syscall (\<lambda>st. os_mutex_lock OS st Global_lock) s
          in if r = ERROR then [(Local, C_null False, s1)]
             else if r = SUCCESS then [(Acquire, C_write buf n, s1)] else [(Local, C_write buf n, s1)]
      | C_write buf n \<Rightarrow>
          let (s1, r) = syscall (\<lambda>st. os_write OS st (dataFileDescriptor s) (take n buf)) s
          in [(Local, if r = ERROR then C_null True else C_unlock buf n, s1)]
      | C_unlock buf n \<Rightarrow>
          let (s1, r) = syscall (\<lambda>st. os_mutex_unlock OS st Global_lock) s
          in if r = ERROR then [(Local, C_null True, s1)]
             else if r = SUCCESS then [(Release, C_close buf n, s1)] else [(Local, C_close buf n, s1)]
      | C_close buf n \<Rightarrow>
          let (s1, _) = syscall (\<lambda>st. os_close OS st (dataFileDescriptor s)) s
          in [(Local, after_packet False buf n, s1)]
      | C_open_read \<Rightarrow>
          let (s1, fd) = syscall (\<lambda>st. os_open OS st DATA_FILE Rdonly) s
          in [(Local, if fd = ERROR then C_null False else C_read_lock, s1\<lparr>dataFileDescriptor := fd\<rparr>)]
      | C_read_lock \<Rightarrow>
          let (s1, r) = syscall (\<lambda>st. os_mutex_lock OS st Global_lock) s
          in if r = ERROR then [(Local, C_null False, s1)]
             else if r = SUCCESS then [(Acquire, C_read, s1)] else [(Local, C_read, s1)]
      | C_read \<Rightarrow>
          let (s1, n, bytes) = syscall (\<lambda>st. os_read OS st (dataFileDescriptor s) BUF_LEN) s
          in [(Local, if n = ERROR then C_null True else C_read_unlock n bytes, s1)]
      | C_read_unlock n bytes \<Rightarrow>
          let (s1, r) = syscall (\<lambda>st. os_mutex_unlock OS st Global_lock) s
          in if r = ERROR then [(Local, C_null True, s1)]
             else if r = SUCCESS then [(Release, C_send n bytes, s1)] else [(Local, C_send n bytes, s1)]
      | C_send n bytes \<Rightarrow>
          let (s1, sent) = syscall (\<lambda>st. os_send OS st (thread_clientSocketFd (thread_data (the (nodes s i)))) (take (nat n) bytes)) s
          in [(Local, if sent = ERROR then C_null False else if 0 < n then C_read_lock else C_close_client, s1)]
      | C_close_client \<Rightarrow>
          let (s1, _) = syscall (\<lambda>st. os_close OS st (thread_clientSocketFd (thread_data (the (nodes s i))))) s
          in [(Local, C_complete, s1)]
      | C_complete \<Rightarrow> [(Local, C_close_data, set_complete s i)]
      | C_close_data \<Rightarrow>
          let (s1, _) = syscall (\<lambda>st. os_close OS st (dataFileDescriptor s)) s in [(Local, C_done, s1)]
      | C_done \<Rightarrow> []
      | C_null _ \<Rightarrow> []
      | C_undef _ \<Rightarrow> [])"

text \<open>Every system with the other results of the mutex functions replaced by \<open>ERROR\<close>, which keeps a system without such results.\<close>

definition fine_result :: "'o \<times> int \<Rightarrow> 'o \<times> int" where
  "fine_result = (\<lambda>(st, r). (st, if r = SUCCESS then SUCCESS else ERROR))"

definition fine :: "'o os \<Rightarrow> 'o os" where
  "fine OS = OS\<lparr>os_mutex_lock := \<lambda>st m. fine_result (os_mutex_lock OS st m), os_mutex_unlock := \<lambda>st m. fine_result (os_mutex_unlock OS st m)\<rparr>"

lemma fine_result_same: "snd x \<in> {SUCCESS, ERROR} \<Longrightarrow> fine_result x = x"
  by (cases x) (auto simp: fine_result_def)

lemma fine_same: "mutex_fine OS \<Longrightarrow> fine OS = OS"
  by (intro os.equality) (simp_all add: fine_def mutex_fine_def fine_result_same)

lemma mutex_fineD:
  assumes "mutex_fine OS"
  shows "syscall (\<lambda>st. os_mutex_lock OS st m) s = (s', r) \<Longrightarrow> r = SUCCESS \<or> r = ERROR"
    and "syscall (\<lambda>st. os_mutex_unlock OS st m) s = (s', r) \<Longrightarrow> r = SUCCESS \<or> r = ERROR"
  using assms by (auto simp: mutex_fine_def syscall_simps)

lemma fine_locks:
  shows "os_mutex_lock (fine OS) st m = (st', r) \<Longrightarrow> r = SUCCESS \<or> r = ERROR"
    and "os_mutex_unlock (fine OS) st m = (st', r) \<Longrightarrow> r = SUCCESS \<or> r = ERROR"
  by (auto simp: fine_def fine_result_def split: prod.splits if_splits)

interpretation cl: lock_program "client_prog (fine OS)" in_file for OS :: "'o os"
  by unfold_locales (auto simp: client_prog_def in_file_def after_packet_def Let_def syscall_def
    split: cpc.splits if_splits option.splits prod.splits dest: fine_locks)

definition clients :: "(nat \<Rightarrow> cpc) \<Rightarrow> 'o srv \<Rightarrow> (cpc, 'o srv) pool" where
  "clients pcs0 s = \<lparr>owner = None, pcs = pcs0, shared = s\<rparr>"

section \<open>One client alone\<close>

abbreviation alone :: "'o os \<Rightarrow> nat \<Rightarrow> cpc \<times> 'o srv \<times> nat option \<Rightarrow> cpc \<times> 'o srv \<times> nat option \<Rightarrow> bool" where
  "alone OS i \<equiv> (solo (client_prog OS) i)\<^sup>*\<^sup>*"

lemmas alone_one = solo_one [of "client_prog OS"] for OS :: "'o os"

lemma syscall_nodes [simp]: "nodes (fst (syscall f s)) = nodes s"
  by (simp add: syscall_simps)

text \<open>The list elements of the threads do not change while a packet is handled.\<close>

lemma handle_chunk_nodes: "handle_chunk OS s buf n = (t, e) \<Longrightarrow> nodes t = nodes s"
  by (auto simp: handle_chunk_def syscall_simps Let_def split: if_splits option.splits)

text \<open>How a thread stops, and how the handling of a packet ends.\<close>

definition stopped_as :: "thread_exit \<Rightarrow> cpc \<Rightarrow> bool" where
  "stopped_as e p = (case e of Exit_param \<Rightarrow> p = C_done | Exit_NULL \<Rightarrow> p = C_null True \<or> p = C_null False | Exit_undefined \<Rightarrow> p = C_undef False)"

definition packet_end :: "chunk_end \<Rightarrow> char list \<Rightarrow> nat \<Rightarrow> cpc \<Rightarrow> nat option \<Rightarrow> bool" where
  "packet_end e buf n p ow = (case e of Chunk_done ioctl \<Rightarrow> p = after_packet ioctl buf n \<and> ow = None
     | Chunk_null \<Rightarrow> stopped_as Exit_NULL p | Chunk_undefined \<Rightarrow> stopped_as Exit_undefined p)"

lemma stopped_as_simps [simp]:
  "stopped_as Exit_NULL (C_null h)" "stopped_as Exit_undefined (C_undef False)" "stopped_as Exit_param C_done"
  by (cases h; simp add: stopped_as_def)+

lemma null_run: "alone OS i c (C_null h, t, ow) \<Longrightarrow> \<exists>p. (\<exists>ow. alone OS i c (p, t, ow)) \<and> stopped_as Exit_NULL p"
  by (rule exI [of _ "C_null h"]) auto

lemma seek_packet_alone:
  assumes "handle_chunk OS s buf n = (t, e)" and ioctl: "take (length ioctl_str) buf = ioctl_str"
  shows "\<exists>p ow. alone OS i (C_packet buf n, s, None) (p, t, ow) \<and> packet_end e buf n p ow"
proof (cases "CHR 0x00 \<notin> set buf \<or> scan_seekto buf (os_stack OS (os_st s)) = None")
  case True
  then have "client_prog OS i (C_packet buf n) s = [(Local, C_undef False, s)]" "(t, e) = (s, Chunk_undefined)"
    using assms by (auto simp: handle_chunk_def client_prog_def uses_node_def split: if_splits)
  then show ?thesis using alone_one(1) [of OS i "C_packet buf n" s "C_undef False" s None]
    by (intro exI [of _ "C_undef False"] exI [of _ None]) (simp add: packet_end_def)
next
  case False
  then obtain sd where Some: "CHR 0x00 \<in> set buf" "scan_seekto buf (os_stack OS (os_st s)) = Some sd" by blast
  obtain s1 fd where o1: "syscall (\<lambda>st. os_open OS st DATA_FILE Rdwr_creat_append) s = (s1, fd)" by force
  let ?s2 = "s1\<lparr>dataFileDescriptor := fd\<rparr>"
  obtain s3 r3 where c: "syscall (\<lambda>st. os_ioctl OS st fd sd) ?s2 = (s3, r3)" by force
  have p: "client_prog OS i (C_packet buf n) s = [(Local, if fd = ERROR then C_null False else C_ioctl sd buf n, ?s2)]"
    "client_prog OS i (C_ioctl sd buf n) ?s2 = [(Local, after_packet True buf n, s3)]"
    using Some ioctl o1 c by (simp_all add: client_prog_def uses_node_def)
  have te: "(t, e) = (if fd = ERROR then (?s2, Chunk_null) else (s3, Chunk_done True))"
    using assms Some o1 c by (simp add: handle_chunk_def Let_def split: if_splits)
  have "alone OS i (C_packet buf n, s, None) (if fd = ERROR then C_null False else C_ioctl sd buf n, ?s2, None)"
    using p(1) by (rule alone_one(1))
  moreover have "alone OS i (C_ioctl sd buf n, ?s2, None) (after_packet True buf n, s3, None)" using p(2) by (rule alone_one(1))
  ultimately show ?thesis using te by (cases "fd = ERROR") (auto simp: packet_end_def intro: rtranclp_trans)
qed

lemma data_packet_alone:
  assumes mf: "mutex_fine OS" and "handle_chunk OS s buf n = (t, e)" and no_ioctl: "take (length ioctl_str) buf \<noteq> ioctl_str" and node: "nodes s i \<noteq> None"
  shows "\<exists>p ow. alone OS i (C_packet buf n, s, None) (p, t, ow) \<and> packet_end e buf n p ow"
proof -
  obtain s1 fd where o1: "syscall (\<lambda>st. os_open OS st DATA_FILE Rdwr_creat_append) s = (s1, fd)" by force
  let ?s2 = "s1\<lparr>dataFileDescriptor := fd\<rparr>"
  obtain s3 r3 where l: "syscall (\<lambda>st. os_mutex_lock OS st Global_lock) ?s2 = (s3, r3)" by force
  obtain s4 r4 where w: "syscall (\<lambda>st. os_write OS st (dataFileDescriptor s3) (take n buf)) s3 = (s4, r4)" by force
  obtain s5 r5 where u: "syscall (\<lambda>st. os_mutex_unlock OS st Global_lock) s4 = (s5, r5)" by force
  obtain s6 r6 where c: "syscall (\<lambda>st. os_close OS st (dataFileDescriptor s5)) s5 = (s6, r6)" by force
  have te: "(t, e) = (if r3 = ERROR then (s3, Chunk_null) else if r4 = ERROR then (s4, Chunk_null)
      else if r5 = ERROR then (s5, Chunk_null) else (s6, Chunk_done False))"
    using assms(2) no_ioctl o1 l w u c by (simp add: handle_chunk_def split: if_splits)
  have "nodes ?s2 i = nodes s i" "nodes s4 i = nodes s i"
    using o1 l w by (auto simp: syscall_simps)
  then have p: "client_prog OS i (C_packet buf n) s = [(Local, C_lock buf n, ?s2)]"
    "client_prog OS i (C_lock buf n) ?s2 = (if r3 = ERROR then [(Local, C_null False, s3)] else [(Acquire, C_write buf n, s3)])"
    "client_prog OS i (C_write buf n) s3 = [(Local, if r4 = ERROR then C_null True else C_unlock buf n, s4)]"
    "client_prog OS i (C_unlock buf n) s4 = (if r5 = ERROR then [(Local, C_null True, s5)] else [(Release, C_close buf n, s5)])"
    "client_prog OS i (C_close buf n) s5 = [(Local, after_packet False buf n, s6)]"
    using no_ioctl node o1 l w u c mutex_fineD(1) [OF mf l] mutex_fineD(2) [OF mf u]
    by (auto simp: client_prog_def uses_node_def)
  have open_step: "alone OS i (C_packet buf n, s, None) (C_lock buf n, ?s2, None)" using p(1) by (rule alone_one(1))
  have lock: "if r3 = ERROR then alone OS i (C_lock buf n, ?s2, None) (C_null False, s3, None)
      else alone OS i (C_lock buf n, ?s2, None) (C_write buf n, s3, Some i)"
    using p(2) by (auto intro: alone_one)
  have written: "alone OS i (C_write buf n, s3, Some i) (if r4 = ERROR then C_null True else C_unlock buf n, s4, Some i)"
    using p(3) by (rule alone_one(1))
  have unlock: "if r5 = ERROR then alone OS i (C_unlock buf n, s4, Some i) (C_null True, s5, Some i)
      else alone OS i (C_unlock buf n, s4, Some i) (C_close buf n, s5, None)"
    using p(4) by (auto intro: alone_one)
  have close: "alone OS i (C_close buf n, s5, None) (after_packet False buf n, s6, None)" using p(5) by (rule alone_one(1))
  show ?thesis
  proof (cases "r3 = ERROR")
    case True
    note rtranclp_trans [OF open_step lock [unfolded if_P [OF True]]]
    with te True show ?thesis by (auto simp: packet_end_def)
  next
    case r3: False
    note w = rtranclp_trans [OF rtranclp_trans [OF open_step lock [unfolded if_not_P [OF r3]]] written]
    show ?thesis
    proof (cases "r4 = ERROR")
      case True
      with te r3 w show ?thesis by (auto simp: packet_end_def)
    next
      case r4: False
      note u = rtranclp_trans [OF w [unfolded if_not_P [OF r4]]]
      show ?thesis using te r3 r4 unlock u rtranclp_trans [OF _ close]
        by (cases "r5 = ERROR") (auto simp: packet_end_def intro: null_run)
    qed
  qed
qed

lemma packet_alone:
  assumes "mutex_fine OS" and "handle_chunk OS s buf n = (t, e)" and "nodes s i \<noteq> None"
  shows "\<exists>p ow. alone OS i (C_packet buf n, s, None) (p, t, ow) \<and> packet_end e buf n p ow"
  using seek_packet_alone [OF assms(2)] data_packet_alone [OF assms(1,2) _ assms(3)] by blast

text \<open>The receive loop of a thread that has the socket \<open>cfd\<close> in its list element.\<close>

definition has_socket :: "'o srv \<Rightarrow> nat \<Rightarrow> int \<Rightarrow> bool" where
  "has_socket s i cfd \<longleftrightarrow> (case nodes s i of None \<Rightarrow> False | Some n \<Rightarrow> thread_clientSocketFd (thread_data n) = cfd)"

lemma has_socketD: "has_socket s i cfd \<Longrightarrow> nodes s i \<noteq> None \<and> thread_clientSocketFd (thread_data (the (nodes s i))) = cfd"
  by (auto simp: has_socket_def split: option.splits)

definition recv_stop :: "recv_end \<Rightarrow> cpc \<Rightarrow> nat option \<Rightarrow> bool" where
  "recv_stop e p ow = (case e of Got_line ioctl \<Rightarrow> p = (if \<not> ioctl then C_open_read else C_read_lock) \<and> ow = None
     | Recv_null \<Rightarrow> stopped_as Exit_NULL p | Recv_undefined \<Rightarrow> stopped_as Exit_undefined p)"

lemma recv_once_alone:
  assumes mf: "mutex_fine OS" and once: "recv_once OS cfd s buf = (s', buf', e)" and h: "has_socket s i cfd"
  shows "has_socket s' i cfd \<and> (\<exists>p ow. alone OS i (C_recv buf, s, None) (p, s', ow) \<and>
    (case e of None \<Rightarrow> p = C_recv buf' \<and> ow = None | Some e' \<Rightarrow> recv_stop e' p ow))"
proof -
  obtain s1 n bytes where r: "syscall (\<lambda>st. os_recv OS st cfd BUF_LEN) s = (s1, n, bytes)" by (metis prod_cases3)
  have s1: "nodes s1 = nodes s" using r by (auto simp: syscall_simps)
  let ?b = "bytes @ drop (length bytes) buf"
  have recv: "alone OS i (C_recv buf, s, None) (if n = ERROR then C_null False else C_packet ?b (nat n), s1, None)"
    by (rule alone_one(1)) (use has_socketD [OF h] r in \<open>simp add: client_prog_def\<close>)
  show ?thesis
  proof (cases "n = ERROR")
    case True
    with once r recv s1 h show ?thesis by (auto simp: recv_once_def recv_stop_def has_socket_def intro: null_run)
  next
    case False
    obtain s2 c where c: "handle_chunk OS s1 ?b (nat n) = (s2, c)" by force
    have s2: "has_socket s2 i cfd" using handle_chunk_nodes [OF c] s1 h by (simp add: has_socket_def)
    from packet_alone [OF mf c, of i] has_socketD [OF h] s1 obtain p ow where
      p: "alone OS i (C_packet ?b (nat n), s1, None) (p, s2, ow)" "packet_end c ?b (nat n) p ow" by auto
    have "s' = s2" "case e of None \<Rightarrow> p = C_recv buf' \<and> ow = None | Some e' \<Rightarrow> recv_stop e' p ow"
      using once r c False p(2)
      by (auto simp: recv_once_def packet_end_def recv_stop_def after_packet_def split: chunk_end.splits)
    then show ?thesis using s2 rtranclp_trans [OF recv [unfolded if_not_P [OF False]] p(1)] by blast
  qed
qed

lemma recv_alone:
  assumes "recv_loop OS cfd s buf = Some y" and mf: "mutex_fine OS" and "has_socket s i cfd"
  shows "\<exists>p ow. alone OS i (C_recv buf, s, None) (p, fst y, ow) \<and> recv_stop (snd y) p ow \<and> has_socket (fst y) i cfd"
proof -
  from assms(1) have "has_socket s i cfd \<longrightarrow>
      (\<exists>p ow. alone OS i (C_recv buf, s, None) (p, fst y, ow) \<and> recv_stop (snd y) p ow \<and> has_socket (fst y) i cfd)"
  proof (induction rule: recv_loop_induct)
    case (last s b s' b' e)
    then show ?case using recv_once_alone [OF mf last, of i] by auto
  next
    case (more s b s' b' y)
    then show ?case using recv_once_alone [OF mf more(1), of i] by (auto intro: rtranclp_trans)
  qed
  with assms(3) show ?thesis by blast
qed

text \<open>The loop that sends the data file, and the end of the thread.\<close>

lemma send_once_alone:
  assumes mf: "mutex_fine OS" and once: "send_once OS cfd s = (s', e)" and h: "has_socket s i cfd"
  shows "has_socket s' i cfd \<and> (\<exists>p ow. alone OS i (C_read_lock, s, None) (p, s', ow) \<and>
    (case e of None \<Rightarrow> p = C_read_lock \<and> ow = None | Some b \<Rightarrow> if b then p = C_close_client \<and> ow = None else stopped_as Exit_NULL p))"
proof -
  obtain s1 r1 where l: "syscall (\<lambda>st. os_mutex_lock OS st Global_lock) s = (s1, r1)" by force
  obtain s2 n bytes where r: "syscall (\<lambda>st. os_read OS st (dataFileDescriptor s1) BUF_LEN) s1 = (s2, n, bytes)" by (metis prod_cases3)
  obtain s3 r3 where u: "syscall (\<lambda>st. os_mutex_unlock OS st Global_lock) s2 = (s3, r3)" by force
  obtain s4 r4 where d: "syscall (\<lambda>st. os_send OS st cfd (take (nat n) bytes)) s3 = (s4, r4)" by force
  have eq: "(s', e) = (if r1 = ERROR then (s1, Some False) else if n = ERROR then (s2, Some False)
      else if r3 = ERROR then (s3, Some False)
      else (s4, if r4 = ERROR then Some False else if 0 < n then None else Some True))"
    unfolding once [symmetric] send_once_def by (simp add: l r u d)
  have nodes: "nodes s1 = nodes s" "nodes s2 = nodes s" "nodes s3 = nodes s" "nodes s4 = nodes s"
    using l r u d by (auto simp: syscall_simps)
  have lock: "if r1 = ERROR then alone OS i (C_read_lock, s, None) (C_null False, s1, None)
      else alone OS i (C_read_lock, s, None) (C_read, s1, Some i)"
    using has_socketD [OF h] l mutex_fineD(1) [OF mf l] by (auto simp: client_prog_def intro: alone_one)
  have read: "alone OS i (C_read, s1, Some i) (if n = ERROR then C_null True else C_read_unlock n bytes, s2, Some i)"
    using r by (intro alone_one(1)) (simp add: client_prog_def uses_node_def)
  have unlock: "if r3 = ERROR then alone OS i (C_read_unlock n bytes, s2, Some i) (C_null True, s3, Some i)
      else alone OS i (C_read_unlock n bytes, s2, Some i) (C_send n bytes, s3, None)"
    using has_socketD [OF h] nodes u mutex_fineD(2) [OF mf u] by (auto simp: client_prog_def intro: alone_one)
  have send: "alone OS i (C_send n bytes, s3, None)
      (if r4 = ERROR then C_null False else if 0 < n then C_read_lock else C_close_client, s4, None)"
    using has_socketD [OF h] nodes d by (intro alone_one(1)) (simp add: client_prog_def)
  have "has_socket s' i cfd" using eq nodes h by (auto simp: has_socket_def split: if_splits)
  moreover consider "r1 = ERROR" | "r1 \<noteq> ERROR" "n = ERROR" | "r1 \<noteq> ERROR" "n \<noteq> ERROR" "r3 = ERROR"
    | "r1 \<noteq> ERROR" "n \<noteq> ERROR" "r3 \<noteq> ERROR" by blast
  then have "\<exists>p ow. alone OS i (C_read_lock, s, None) (p, s', ow) \<and>
    (case e of None \<Rightarrow> p = C_read_lock \<and> ow = None | Some b \<Rightarrow> if b then p = C_close_client \<and> ow = None else stopped_as Exit_NULL p)"
  proof cases
    case 1
    with lock eq show ?thesis by (auto intro: null_run)
  next
    case 2
    with rtranclp_trans [OF lock [unfolded if_not_P [OF 2(1)]] read] eq show ?thesis by (auto intro: null_run)
  next
    case 3
    with rtranclp_trans [OF rtranclp_trans [OF lock [unfolded if_not_P [OF 3(1)]] read [unfolded if_not_P [OF 3(2)]]]
        unlock [unfolded if_P [OF 3(3)]]] eq
    show ?thesis by (auto intro: null_run)
  next
    case 4
    with rtranclp_trans [OF rtranclp_trans [OF rtranclp_trans [OF lock [unfolded if_not_P [OF 4(1)]]
        read [unfolded if_not_P [OF 4(2)]]] unlock [unfolded if_not_P [OF 4(3)]]] send] eq
    show ?thesis by (cases "r4 = ERROR") (auto intro: null_run split: if_splits)
  qed
  ultimately show ?thesis by blast
qed

lemma send_alone:
  assumes "send_loop OS cfd s = Some y" and mf: "mutex_fine OS" and "has_socket s i cfd"
  shows "\<exists>p ow. alone OS i (C_read_lock, s, None) (p, fst y, ow) \<and> has_socket (fst y) i cfd \<and>
    (if snd y then p = C_close_client \<and> ow = None else stopped_as Exit_NULL p)"
proof -
  from assms(1) have "has_socket s i cfd \<longrightarrow> (\<exists>p ow. alone OS i (C_read_lock, s, None) (p, fst y, ow) \<and> has_socket (fst y) i cfd \<and>
      (if snd y then p = C_close_client \<and> ow = None else stopped_as Exit_NULL p))"
  proof (induction rule: send_loop_induct)
    case (last s s' b)
    then show ?case using send_once_alone [OF mf last, of i] by auto
  next
    case (more s s' y)
    then show ?case using send_once_alone [OF mf more(1), of i] by (fastforce intro: rtranclp_trans)
  qed
  with assms(3) show ?thesis by blast
qed

lemma finish_alone:
  assumes "finish_client OS cfd s i = Some (t, e)" and mf: "mutex_fine OS" and "has_socket s i cfd"
  shows "\<exists>p ow. alone OS i (C_read_lock, s, None) (p, t, ow) \<and> stopped_as e p"
proof -
  from assms(1) obtain s3 sent where l: "send_loop OS cfd s = Some (s3, sent)"
    by (auto simp: finish_client_def split: bind_splits)
  from send_alone [OF l mf assms(3)] obtain p ow where
    p: "alone OS i (C_read_lock, s, None) (p, s3, ow)" "has_socket s3 i cfd"
      "if sent then p = C_close_client \<and> ow = None else stopped_as Exit_NULL p" by auto
  show ?thesis
  proof (cases sent)
    case False
    with assms(1) l p show ?thesis by (auto simp: finish_client_def)
  next
    case True
    obtain s4 r4 where c: "syscall (\<lambda>st. os_close OS st cfd) s3 = (s4, r4)" by force
    have t: "t = fst (syscall (\<lambda>st. os_close OS st (dataFileDescriptor (set_complete s4 i))) (set_complete s4 i))" "e = Exit_param"
      using assms(1) l True c by (auto simp: finish_client_def case_prod_beta Let_def)
    have "nodes s4 = nodes s3" using c by (auto simp: syscall_simps)
    then have prog: "client_prog OS i C_close_client s3 = [(Local, C_complete, s4)]"
      "client_prog OS i C_complete s4 = [(Local, C_close_data, set_complete s4 i)]"
      "client_prog OS i C_close_data (set_complete s4 i) = [(Local, C_done, t)]"
      using has_socketD [OF p(2)] c t(1) by (simp_all add: client_prog_def uses_node_def case_prod_beta)
    have "alone OS i (C_read_lock, s, None) (C_close_client, s3, None)" using p True by simp
    from rtranclp_trans [OF this rtranclp_trans [OF alone_one(1) [OF prog(1)]
        rtranclp_trans [OF alone_one(1) [OF prog(2)] alone_one(1) [OF prog(3)]]]] t(2)
    show ?thesis by auto
  qed
qed

text \<open>
  The steps of a client are those of \<open>client_data_handler\<close>: a thread that starts with a free
  mutex and is not interrupted by another stops with exactly the server state and the result that the handler
  returns, and no other thread moves.
\<close>

lemma handler_in_pool:
  assumes "client_data_handler OS (shared Q) i = Some (t, e)" and "nodes (shared Q) i \<noteq> None"
    and "pcs Q i = C_recv (replicate BUF_LEN CHR 0x00)" and "owner Q = None" and mf: "mutex_fine OS"
  shows "\<exists>Q' p. (pool_step (client_prog OS))\<^sup>*\<^sup>* Q Q' \<and> shared Q' = t \<and> pcs Q' = (pcs Q)(i := p) \<and> stopped_as e p"
proof -
  let ?s = "shared Q" and ?b = "replicate BUF_LEN CHR 0x00"
  from assms(2) obtain nd where nd: "nodes ?s i = Some nd" by blast
  let ?cfd = "thread_clientSocketFd (thread_data nd)"
  have sock: "has_socket ?s i ?cfd" using nd by (simp add: has_socket_def)
  from assms(1) nd obtain s1 re where l: "recv_loop OS ?cfd ?s ?b = Some (s1, re)"
    by (auto simp: client_data_handler_def Let_def split: bind_splits)
  from recv_alone [OF l mf sock] obtain p ow where
    p: "alone OS i (C_recv ?b, ?s, None) (p, s1, ow)" "recv_stop re p ow" "has_socket s1 i ?cfd" by auto
  have "\<exists>p' ow'. alone OS i (p, s1, ow) (p', t, ow') \<and> stopped_as e p'"
  proof (cases re)
    case (Got_line ioctl)
    show ?thesis
    proof (cases ioctl)
      case True
      with assms(1) nd l Got_line p(2) finish_alone [OF _ mf p(3), of t e] show ?thesis
        by (auto simp: client_data_handler_def recv_stop_def)
    next
      case False
      obtain s2 fd where o2: "syscall (\<lambda>st. os_open OS st DATA_FILE Rdonly) s1 = (s2, fd)" by force
      let ?s2 = "s2\<lparr>dataFileDescriptor := fd\<rparr>"
      have h: "has_socket ?s2 i ?cfd" using p(3) o2 by (auto simp: has_socket_def syscall_simps)
      have "client_prog OS i C_open_read s1 = [(Local, if fd = ERROR then C_null False else C_read_lock, ?s2)]"
        using o2 by (simp add: client_prog_def uses_node_def)
      from alone_one(1) [OF this, of None] have o3: "alone OS i (p, s1, ow) (if fd = ERROR then C_null False else C_read_lock, ?s2, None)"
        using p(2) Got_line False by (simp add: recv_stop_def)
      have te: "if fd = ERROR then (t, e) = (?s2, Exit_NULL) else finish_client OS ?cfd ?s2 i = Some (t, e)"
        using assms(1) nd l Got_line False o2 by (auto simp: client_data_handler_def)
      show ?thesis
      proof (cases "fd = ERROR")
        case True
        with o3 te null_run [of OS i "(p, s1, ow)" False ?s2 None] show ?thesis by auto
      next
        case fd: False
        from finish_alone [OF te [unfolded if_not_P [OF fd]] mf h] show ?thesis
          using rtranclp_trans [OF o3 [unfolded if_not_P [OF fd]]] by blast
      qed
    qed
  qed (use assms(1) nd l p(2) in \<open>auto simp: client_data_handler_def recv_stop_def\<close>)
  then obtain p' ow' where p': "alone OS i (p, s1, ow) (p', t, ow')" "stopped_as e p'" by blast
  have "alone OS i (pcs Q i, shared Q, owner Q) (p', t, ow')"
    using rtranclp_trans [OF p(1) p'(1)] assms(3,4) by simp
  from solo_pool [OF this] obtain Q' where
    "(pool_step (client_prog OS))\<^sup>*\<^sup>* Q Q'" "pcs Q' = (pcs Q)(i := p')" "shared Q' = t" by blast
  with p'(2) show ?thesis by blast
qed

section \<open>Many clients\<close>

text \<open>
  C12. Mutual exclusion of the clients, as long as no lock or unlock call fails with an error number other than the \<open>- 1\<close> the code looks for: however the threads are interleaved and whatever
  the other system calls return, at most one thread at a time is between its lock and its unlock call, it owns the mutex, and no thread unlocks a mutex that it does not own;
  a thread that returned between the two calls keeps all others out for ever. If a lock call does fail with such a number, the code does not notice: the thread goes on to write
  or read without the mutex.
\<close>

theorem clients_exclude:
  "(mutex_fine OS \<and> (\<forall>i. \<not> in_file (pcs0 i)) \<and> (pool_step (client_prog OS))\<^sup>*\<^sup>* (clients pcs0 s) Q \<longrightarrow>
      (\<forall>i. in_file (pcs Q i) \<longleftrightarrow> owner Q = Some i) \<and> \<not> bad_release (client_prog OS) Q \<and>
      (\<forall>i Q'. pcs Q i = C_null True \<and> (pool_step (client_prog OS))\<^sup>*\<^sup>* Q Q' \<longrightarrow>
        owner Q' = Some i \<and> (\<forall>j. j \<noteq> i \<longrightarrow> \<not> in_file (pcs Q' j)))) \<and>
    ((pcs P i = C_lock b n \<or> pcs P i = C_read_lock) \<and> nodes (shared P) i \<noteq> None \<and>
      os_mutex_lock OS (os_st (shared P)) Global_lock = (st, r) \<and> r \<notin> {SUCCESS, ERROR} \<longrightarrow>
      (\<exists>P'. pool_step (client_prog OS) P P' \<and> in_file (pcs P' i) \<and> owner P' = owner P))"
proof (intro conjI impI)
  assume asm: "mutex_fine OS \<and> (\<forall>i. \<not> in_file (pcs0 i)) \<and> (pool_step (client_prog OS))\<^sup>*\<^sup>* (clients pcs0 s) Q"
  then have mf: "mutex_fine OS" and run: "(pool_step (client_prog OS))\<^sup>*\<^sup>* (clients pcs0 s) Q" by blast+
  note same = fine_same [OF mf]
  have 0: "cl.owner_inside (clients pcs0 s)" using asm by (simp add: cl.owner_inside_def clients_def)
  note inv = cl.owner_inside_run [of OS, unfolded same, OF run 0]
  have "owner Q' = Some i \<and> (\<forall>j. j \<noteq> i \<longrightarrow> \<not> in_file (pcs Q' j))"
    if "pcs Q i = C_null True" "(pool_step (client_prog OS))\<^sup>*\<^sup>* Q Q'" for i Q'
    by (rule cl.stopped_inside [of OS, unfolded same, OF that(2) inv]) (simp_all add: that(1) in_file_def client_prog_def uses_node_def)
  then show "(\<forall>i. in_file (pcs Q i) \<longleftrightarrow> owner Q = Some i)" "\<not> bad_release (client_prog OS) Q"
    "\<forall>i Q'. pcs Q i = C_null True \<and> (pool_step (client_prog OS))\<^sup>*\<^sup>* Q Q' \<longrightarrow>
      owner Q' = Some i \<and> (\<forall>j. j \<noteq> i \<longrightarrow> \<not> in_file (pcs Q' j))"
    using inv cl.mutual_exclusion(2) [of OS, unfolded same, OF run 0] by (auto simp: cl.owner_inside_def)
next
  assume "(pcs P i = C_lock b n \<or> pcs P i = C_read_lock) \<and> nodes (shared P) i \<noteq> None \<and>
      os_mutex_lock OS (os_st (shared P)) Global_lock = (st, r) \<and> r \<notin> {SUCCESS, ERROR}"
  then have "\<exists>p. in_file p \<and> (Local, p, (shared P)\<lparr>os_st := st\<rparr>) \<in> set (client_prog OS i (pcs P i) (shared P))"
    by (auto simp: client_prog_def in_file_def syscall_def)
  then obtain p where "in_file p" "(Local, p, (shared P)\<lparr>os_st := st\<rparr>) \<in> set (client_prog OS i (pcs P i) (shared P))" by blast
  then show "\<exists>P'. pool_step (client_prog OS) P P' \<and> in_file (pcs P' i) \<and> owner P' = owner P"
    using act_local [of p "(shared P)\<lparr>os_st := st\<rparr>" "client_prog OS" i P] by (auto simp: advance_def)
qed

section \<open>The shared descriptor\<close>

text \<open>
  A system with a table of open descriptors: a file gets the lowest number that is free, and writing to a number that
  is not open is an error. Every client sends the same short packet.
\<close>

fun first_free :: "nat \<Rightarrow> int \<Rightarrow> int list \<Rightarrow> int" where
  "first_free 0 fd fds = ERROR"
| "first_free (Suc k) fd fds = (if fd \<in> set fds then first_free k (fd + 1) fds else fd)"

definition race_packet :: string where
  "race_packet = ''hi'' @ [newline]"

definition fd_os :: "int list os" where
  "fd_os = idle_os\<lparr>
     os_recv := \<lambda>fds _ _. (fds, int (length race_packet), race_packet),
     os_open := \<lambda>fds _ _. (let fd = first_free 16 3 fds in (if fd = ERROR then fds else fd # fds, fd)),
     os_write := \<lambda>fds fd data. (fds, if fd \<in> set fds then int (length data) else ERROR),
     os_close := \<lambda>fds fd. (removeAll fd fds, if fd \<in> set fds then 0 else ERROR)\<rparr>"

text \<open>A server with the list elements of two clients.\<close>

definition race_node :: "nat \<Rightarrow> ClientThreadData_t node" where
  "race_node i = \<lparr>thread_data = \<lparr>threadId = i, pMutex = Global_lock, isThreadComplete = False,
     thread_clientSocketFd = int i, pClientAddr = Client_info\<rparr>, sle_next = None\<rparr>"

definition race_srv :: "int list \<Rightarrow> int \<Rightarrow> int list srv" where
  "race_srv fds dfd = \<lparr>os_st = fds, fatal_error_in_progress = False, dataFileDescriptor = dfd, sock_fd = 0,
     clientSocketFd = 0, head = None, nodes = [1 \<mapsto> race_node 1, 2 \<mapsto> race_node 2],
     s_flags = \<lparr>file_open = False, log_open = False, socket_open = False, client_fd_open = False,
       signal_caught = False, daemon_mode = False, command_status_success = False\<rparr>,
     result = None, TS_data = \<lparr>ts_threadId = 0, ts_pMutex = Global_lock, timeIntervalSecs = 0\<rparr>\<rparr>"

definition race_buf :: "char list" where
  "race_buf = race_packet @ drop (length race_packet) (replicate BUF_LEN CHR 0x00)"

abbreviation race_start :: cpc where
  "race_start \<equiv> C_recv (replicate BUF_LEN CHR 0x00)"

definition race_pool :: "nat option \<Rightarrow> cpc \<Rightarrow> cpc \<Rightarrow> int list \<Rightarrow> int \<Rightarrow> (cpc, int list srv) pool" where
  "race_pool ow p1 p2 fds dfd = \<lparr>owner = ow, pcs = (\<lambda>_. C_done)(1 := p1, 2 := p2), shared = race_srv fds dfd\<rparr>"

lemma race_pool_simps [simp]:
  "owner (race_pool ow p1 p2 fds dfd) = ow" "pcs (race_pool ow p1 p2 fds dfd) 1 = p1"
  "pcs (race_pool ow p1 p2 fds dfd) (Suc 0) = p1"
  "pcs (race_pool ow p1 p2 fds dfd) 2 = p2" "shared (race_pool ow p1 p2 fds dfd) = race_srv fds dfd"
  "advance 1 p (race_srv f d) (race_pool ow p1 p2 fds dfd) = race_pool ow p p2 f d"
  "advance (Suc 0) p (race_srv f d) (race_pool ow p1 p2 fds dfd) = race_pool ow p p2 f d"
  "advance 2 p (race_srv f d) (race_pool ow p1 p2 fds dfd) = race_pool ow p1 p f d"
  "race_pool ow p1 p2 fds dfd\<lparr>owner := ow'\<rparr> = race_pool ow' p1 p2 fds dfd"
  by (auto simp: race_pool_def advance_def)

lemma first_free_eval [simp]: "first_free 16 3 [] = 3" "first_free 16 3 [3] = 4"
  by (simp_all add: eval_nat_numeral)

lemma race_buf_simps [simp]:
  "take (length ioctl_str) race_buf \<noteq> ioctl_str" "newline \<in> set (take 3 race_buf)"
  by (simp_all add: race_buf_def race_packet_def ioctl_str_def BUF_LEN_def)

lemma race_buf_eq: "race_packet @ replicate (BUF_LEN - 3) CHR 0x00 = race_buf" "length race_packet = 3"
  "newline \<in> set race_packet"
  by (simp_all add: race_buf_def race_packet_def)

lemma race_nodes [simp]: "nodes (race_srv fds d) 1 = Some (race_node 1)" "nodes (race_srv fds d) (Suc 0) = Some (race_node 1)"
  "nodes (race_srv fds d) 2 = Some (race_node 2)"
  by (simp_all add: race_srv_def)

lemma fd_os_fine: "mutex_fine fd_os"
  by (simp add: mutex_fine_def fd_os_def idle_os_def)

lemma race_prog:
  assumes "i = 1 \<or> i = 2"
  shows "client_prog fd_os i race_start (race_srv fds d) = [(Local, C_packet race_buf 3, race_srv fds d)]"
    and "first_free 16 3 fds \<noteq> ERROR \<Longrightarrow> client_prog fd_os i (C_packet race_buf 3) (race_srv fds d) =
      [(Local, C_lock race_buf 3, race_srv (first_free 16 3 fds # fds) (first_free 16 3 fds))]"
    and "client_prog fd_os i (C_lock b n) (race_srv fds d) = [(Acquire, C_write b n, race_srv fds d)]"
    and "client_prog fd_os i (C_write b n) (race_srv fds d) =
      [(Local, if d \<in> set fds then C_unlock b n else C_null True, race_srv fds d)]"
    and "client_prog fd_os i (C_unlock b n) (race_srv fds d) = [(Release, C_close b n, race_srv fds d)]"
    and "client_prog fd_os i (C_close race_buf 3) (race_srv fds d) = [(Local, C_open_read, race_srv (removeAll d fds) d)]"
  using assms by (auto simp: client_prog_def uses_node_def fd_os_def syscall_def idle_os_def race_srv_def Let_def after_packet_def
    race_buf_eq)

abbreviation fd_step :: "(cpc, int list srv) pool \<Rightarrow> (cpc, int list srv) pool \<Rightarrow> bool" where
  "fd_step \<equiv> pool_step (client_prog fd_os)"

lemma race_steps:
  shows "fd_step (race_pool ow race_start p2 fds d) (race_pool ow (C_packet race_buf 3) p2 fds d)"
    and "fd_step (race_pool ow p1 race_start fds d) (race_pool ow p1 (C_packet race_buf 3) fds d)"
    and "fd_step (race_pool ow (C_packet race_buf 3) p2 [] d) (race_pool ow (C_lock race_buf 3) p2 [3] 3)"
    and "fd_step (race_pool ow p1 (C_packet race_buf 3) [3] d) (race_pool ow p1 (C_lock race_buf 3) [4, 3] 4)"
    and "fd_step (race_pool None (C_lock b n) p2 fds d) (race_pool (Some 1) (C_write b n) p2 fds d)"
    and "fd_step (race_pool None p1 (C_lock b n) fds d) (race_pool (Some 2) p1 (C_write b n) fds d)"
    and "d \<in> set fds \<Longrightarrow> fd_step (race_pool ow (C_write b n) p2 fds d) (race_pool ow (C_unlock b n) p2 fds d)"
    and "d \<notin> set fds \<Longrightarrow> fd_step (race_pool ow p1 (C_write b n) fds d) (race_pool ow p1 (C_null True) fds d)"
    and "fd_step (race_pool (Some 1) (C_unlock b n) p2 fds d) (race_pool None (C_close b n) p2 fds d)"
    and "fd_step (race_pool ow (C_close race_buf 3) p2 fds d) (race_pool ow C_open_read p2 (removeAll d fds) d)"
  using act_local [of "C_packet race_buf 3" "race_srv fds d" "client_prog fd_os" 1 "race_pool ow race_start p2 fds d"]
    act_local [of "C_packet race_buf 3" "race_srv fds d" "client_prog fd_os" 2 "race_pool ow p1 race_start fds d"]
    act_local [of "C_lock race_buf 3" "race_srv [3] 3" "client_prog fd_os" 1 "race_pool ow (C_packet race_buf 3) p2 [] d"]
    act_local [of "C_lock race_buf 3" "race_srv [4, 3] 4" "client_prog fd_os" 2 "race_pool ow p1 (C_packet race_buf 3) [3] d"]
    act_acquire [of "C_write b n" "race_srv fds d" "client_prog fd_os" 1 "race_pool None (C_lock b n) p2 fds d"]
    act_acquire [of "C_write b n" "race_srv fds d" "client_prog fd_os" 2 "race_pool None p1 (C_lock b n) fds d"]
    act_local [of "C_unlock b n" "race_srv fds d" "client_prog fd_os" 1 "race_pool ow (C_write b n) p2 fds d"]
    act_local [of "C_null True" "race_srv fds d" "client_prog fd_os" 2 "race_pool ow p1 (C_write b n) fds d"]
    act_release [of "C_close b n" "race_srv fds d" "client_prog fd_os" 1 "race_pool (Some 1) (C_unlock b n) p2 fds d"]
    act_local [of C_open_read "race_srv (removeAll d fds) d" "client_prog fd_os" 1 "race_pool ow (C_close race_buf 3) p2 fds d"]
  by (simp_all add: race_prog)

text \<open>
  C26. Two clients that send a packet at the same time can stop the server, although no resource is short: each thread
  stores the descriptor it opened in the one global variable before it takes the mutex. If the second client opens the
  data file between the first one's open and lock calls, the first thread writes to and closes the second one's
  descriptor, the second thread's write fails, and it returns with the mutex; from then on no client can write or read, and the
  first descriptor stays open. The ten steps of such a run are possible from the start of two handlers.
\<close>

theorem descriptor_race:
  "\<exists>Q. (fd_step ^^ 10) (clients ((\<lambda>_. C_done)(1 := race_start, 2 := race_start)) (race_srv [] 0)) Q \<and>
    pcs Q 1 = C_open_read \<and> pcs Q 2 = C_null True \<and> os_st (shared Q) = [3] \<and>
    (\<forall>Q'. (fd_step)\<^sup>*\<^sup>* Q Q' \<longrightarrow> owner Q' = Some 2 \<and> (\<forall>j. j \<noteq> 2 \<longrightarrow> \<not> in_file (pcs Q' j)))"
proof -
  let ?Q = "race_pool (Some 2) C_open_read (C_null True) [3] 4"
  let ?w = "C_lock race_buf 3"
  have start: "clients ((\<lambda>_. C_done)(1 := race_start, 2 := race_start)) (race_srv [] 0) = race_pool None race_start race_start [] 0"
    by (simp add: clients_def race_pool_def)
  have opened: "(fd_step ^^ Suc (Suc (Suc (Suc 0)))) (race_pool None race_start race_start [] 0) (race_pool None ?w ?w [4, 3] 4)"
    by (rule run_Suc [OF run_Suc [OF run_Suc [OF run_Suc [OF run_0 race_steps(1)] race_steps(3)] race_steps(2)] race_steps(4)])
  have w1: "fd_step (race_pool (Some 1) (C_write race_buf 3) ?w [4, 3] 4) (race_pool (Some 1) (C_unlock race_buf 3) ?w [4, 3] 4)"
    by (rule race_steps(7)) simp
  have c1: "fd_step (race_pool None (C_close race_buf 3) ?w [4, 3] 4) (race_pool None C_open_read ?w [3] 4)"
    using race_steps(10) [of None ?w "[4, 3]" 4] by simp
  have w2: "fd_step (race_pool (Some 2) C_open_read (C_write race_buf 3) [3] 4) ?Q" by (rule race_steps(8)) simp
  note run = run_Suc [OF run_Suc [OF run_Suc [OF run_Suc [OF run_Suc [OF run_Suc [OF opened race_steps(5)] w1] race_steps(9)] c1]
        race_steps(6)] w2]
  have run: "(fd_step ^^ 10) (race_pool None race_start race_start [] 0) ?Q"
    using run by (simp only: eval_nat_numeral BitM.simps)
  have inv: "cl.owner_inside ?Q" by (simp add: cl.owner_inside_def race_pool_def in_file_def)
  have "owner Q' = Some 2 \<and> (\<forall>j. j \<noteq> 2 \<longrightarrow> \<not> in_file (pcs Q' j))" if "(fd_step)\<^sup>*\<^sup>* ?Q Q'" for Q'
    by (rule cl.stopped_inside [of fd_os, unfolded fine_same [OF fd_os_fine], OF that inv]) (simp_all add: in_file_def client_prog_def uses_node_def)
  with run show ?thesis unfolding start
    by (intro exI [of _ ?Q]) (simp add: race_srv_def)
qed

theorem descriptor_race_witness:
  "\<exists>Q. pcs Q 2 = C_null True \<and> owner Q = Some 2 \<and>
     fd_step\<^sup>*\<^sup>* (clients ((\<lambda>_. C_done)(1 := race_start, 2 := race_start)) (race_srv [] 0)) Q"
  using descriptor_race by (metis relpowp_imp_rtranclp rtranclp.rtrancl_refl)

definition failing_os :: "int list os" where
  "failing_os = fd_os\<lparr>os_mutex_lock := \<lambda>fds _. (fds, 35)\<rparr>"

theorem clients_exclude_witness:
  "\<not> bad_release (client_prog fd_os) (race_pool None (C_packet race_buf 3) C_done [] 0) \<and>
   (\<exists>P'. pool_step (client_prog failing_os) (race_pool (Some 2) (C_lock race_buf 3) (C_write race_buf 3) [3] 3) P' \<and>
     in_file (pcs P' 1) \<and> owner P' = Some 2)"
proof -
  let ?p = "(\<lambda>_. C_done)(1 := race_start)"
  have p: "clients ?p (race_srv [] 0) = race_pool None race_start C_done [] 0" "\<forall>i. \<not> in_file (?p i)"
    by (auto simp: clients_def race_pool_def in_file_def)
  have "(pool_step (client_prog fd_os))\<^sup>*\<^sup>* (clients ?p (race_srv [] 0)) (race_pool None (C_packet race_buf 3) C_done [] 0)"
    unfolding p(1) using race_steps(1) by (rule r_into_rtranclp)
  then have 1: "\<not> bad_release (client_prog fd_os) (race_pool None (C_packet race_buf 3) C_done [] 0)"
    using clients_exclude [of fd_os ?p "race_srv [] 0" "race_pool None (C_packet race_buf 3) C_done [] 0"] p(2) fd_os_fine by blast
  let ?P = "race_pool (Some 2) (C_lock race_buf 3) (C_write race_buf 3) [3] 3"
  have "\<exists>P'. pool_step (client_prog failing_os) ?P P' \<and> in_file (pcs P' 1) \<and> owner P' = owner ?P"
    by (rule clients_exclude [of failing_os ?p "race_srv [] 0" ?P ?P 1 race_buf 3 "os_st (race_srv [3] 3)" 35, THEN conjunct2, THEN mp])
      (simp add: failing_os_def)
  with 1 show ?thesis by simp
qed

end
