(* ===== verification/Server_Interleaved.thy ===== *)
theory Server_Interleaved
  imports Server_Sessions Server_Race
begin

text \<open>
  Clients side by side on the character driver: the steps of \<open>Server_Race\<close> over the system calls of \<open>Server_Driver\<close>. However the threads are
  interleaved, the device holds what the packets they wrote leave when written one after the other, and
  every thread writes exactly the packets it received and did not take for a seek command, each once and in their order; only a thread
  that returned early may have left out its last one.
\<close>

section \<open>What the places of a thread hold\<close>

text \<open>
  The receive buffer after some packets, and those of the packets that are to be written: a packet counts as seek command if the
  buffer that then holds it, with what earlier packets left behind it, starts with \<open>ioctl_str\<close>.
\<close>

abbreviation empty_buffer :: "char list" where
  "empty_buffer \<equiv> replicate BUF_LEN CHR 0x00"

definition received :: "char list \<Rightarrow> char list \<Rightarrow> char list" where
  "received buf pk = pk @ drop (length pk) buf"

fun data_packets :: "char list \<Rightarrow> char list list \<Rightarrow> char list list" where
  "data_packets buf [] = []"
| "data_packets buf (pk # ps) =
     (if take (length ioctl_str) (received buf pk) = ioctl_str then [] else [pk]) @ data_packets (received buf pk) ps"

lemma received_Nil [simp]: "received buf [] = buf"
  by (simp add: received_def)

lemma received_eq_Nil [simp]: "received buf pk = [] \<longleftrightarrow> pk = [] \<and> buf = []"
  by (auto simp: received_def)

lemma take_received [simp]: "take (length pk) (received buf pk) = pk"
  by (simp add: received_def)

lemma data_packets_snoc:
  "data_packets buf (ps @ [pk]) = data_packets buf ps @
     (if take (length ioctl_str) (received (foldl received buf ps) pk) = ioctl_str then [] else [pk])"
  by (induction ps arbitrary: buf) simp_all

lemma data_packets_sub: "set (data_packets buf ps) \<subseteq> set ps" "length (concat (data_packets buf ps)) \<le> length (concat ps)"
proof -
  show "set (data_packets buf ps) \<subseteq> set ps" by (induction ps arbitrary: buf) (auto split: if_splits)
  show "length (concat (data_packets buf ps)) \<le> length (concat ps)"
  proof (induction ps arbitrary: buf)
    case (Cons pk ps)
    from Cons [of "received buf pk"] show ?case by simp
  qed simp
qed

text \<open>The packet that a thread has received and still has to write; the empty one at the end of the connection does not count.\<close>

definition pack :: "char list \<Rightarrow> char list list" where
  "pack pk = (if pk = [] then [] else [pk])"

definition carried :: "cpc \<Rightarrow> char list list" where
  "carried p = (case p of C_packet buf n \<Rightarrow> if take (length ioctl_str) buf = ioctl_str then [] else pack (take n buf)
     | C_lock buf n \<Rightarrow> pack (take n buf) | C_write buf n \<Rightarrow> pack (take n buf) | _ \<Rightarrow> [])"

text \<open>The receive buffer and the number of bytes just received, until the packet is dealt with.\<close>

definition in_hand :: "cpc \<Rightarrow> (char list \<times> nat) option" where
  "in_hand p = (case p of C_packet b n \<Rightarrow> Some (b, n) | C_ioctl _ b n \<Rightarrow> Some (b, n) | C_lock b n \<Rightarrow> Some (b, n)
     | C_write b n \<Rightarrow> Some (b, n) | C_unlock b n \<Rightarrow> Some (b, n) | C_close b n \<Rightarrow> Some (b, n) | _ \<Rightarrow> None)"

definition gave_up :: "cpc \<Rightarrow> bool" where
  "gave_up p = (case p of C_null _ \<Rightarrow> True | C_undef _ \<Rightarrow> True | _ \<Rightarrow> False)"

lemma place_simps [simp]:
  "carried (C_recv b) = []" "carried (C_ioctl d b n) = []" "carried (C_unlock b n) = []"
  "carried (C_lock b n) = pack (take n b)" "carried (C_write b n) = pack (take n b)"
  "carried (C_close b n) = []" "carried C_open_read = []" "carried C_read_lock = []" "carried C_read = []"
  "carried (C_read_unlock v bs) = []" "carried (C_send v bs) = []" "carried C_close_client = []" "carried C_complete = []"
  "carried C_close_data = []" "carried C_done = []" "carried (C_null h) = []" "carried (C_undef h) = []"
  "in_hand (C_recv b) = None" "in_hand (C_packet b n) = Some (b, n)" "in_hand (C_ioctl d b n) = Some (b, n)"
  "in_hand (C_lock b n) = Some (b, n)" "in_hand (C_write b n) = Some (b, n)" "in_hand (C_unlock b n) = Some (b, n)"
  "in_hand (C_close b n) = Some (b, n)" "in_hand C_open_read = None" "in_hand C_read_lock = None" "in_hand C_read = None"
  "in_hand (C_read_unlock v bs) = None" "in_hand (C_send v bs) = None" "in_hand C_close_client = None" "in_hand C_complete = None"
  "in_hand C_close_data = None" "in_hand C_done = None" "in_hand (C_null h) = None" "in_hand (C_undef h) = None"
  "gave_up (C_null h)" "gave_up (C_undef h)" "\<not> gave_up C_done" "\<not> gave_up (C_recv b)" "\<not> gave_up C_open_read" "\<not> gave_up C_read_lock"
  "\<not> gave_up C_read" "\<not> gave_up (C_read_unlock v bs)" "\<not> gave_up (C_send v bs)" "\<not> gave_up C_close_client" "\<not> gave_up C_complete"
  "\<not> gave_up C_close_data"
  by (simp_all add: carried_def in_hand_def gave_up_def)

lemma in_hand_not_gave_up: "in_hand p \<noteq> None \<Longrightarrow> \<not> gave_up p"
  by (auto simp: in_hand_def gave_up_def split: cpc.splits)

lemma carried_one: "carried p = [] \<or> (\<exists>pk. carried p = [pk])"
  by (simp add: carried_def pack_def split: cpc.split)

lemma pack_Nil [simp]: "pack [] = []"
  by (simp add: pack_def)

lemma spec_write_Nil [simp]: "spec_write c [] = c"
  by (cases c) (simp add: spec_write_def)

section \<open>One thread\<close>

text \<open>
  Where a thread is after it received the packets \<open>got\<close>: none of them has a newline while it still receives, only
  the last one may have one while it is dealt with, and the last one has one afterwards.
\<close>

definition no_line :: "char list list \<Rightarrow> bool" where
  "no_line ps \<longleftrightarrow> list_all (\<lambda>pk. newline \<notin> set pk) ps"

definition one_line :: "char list list \<Rightarrow> bool" where
  "one_line ps \<longleftrightarrow> ps \<noteq> [] \<and> no_line (butlast ps) \<and> newline \<in> set (last ps)"

lemma one_line_snoc [simp]: "one_line (front @ [final]) \<longleftrightarrow> no_line front \<and> newline \<in> set final"
  by (simp add: one_line_def)

definition line_at :: "char list list \<Rightarrow> cpc \<Rightarrow> bool" where
  "line_at got p = (case in_hand p of
       Some (b, n) \<Rightarrow> b = foldl received empty_buffer got \<and> (\<exists>front. got = front @ pack (take n b) \<and> no_line front)
     | None \<Rightarrow> (case p of C_recv b \<Rightarrow> b = foldl received empty_buffer got \<and> no_line got | _ \<Rightarrow> gave_up p \<or> one_line got))"

text \<open>What it wrote: all that was to be written of the packets it received, or all but the last one after it gave up.\<close>

definition wrote :: "char list list \<Rightarrow> char list list \<Rightarrow> cpc \<Rightarrow> bool" where
  "wrote got w p \<longleftrightarrow> w @ carried p = data_packets empty_buffer got \<or>
     gave_up p \<and> (\<exists>pk. w @ [pk] = data_packets empty_buffer got)"

definition at_place :: "char list list \<Rightarrow> char list list \<Rightarrow> cpc \<Rightarrow> bool" where
  "at_place got w p \<longleftrightarrow> line_at got p \<and> wrote got w p"

lemma give_up_place: "at_place got w p \<Longrightarrow> \<not> gave_up p \<Longrightarrow> gave_up p' \<Longrightarrow> at_place got w p'"
  using carried_one [of p] by (auto simp: at_place_def line_at_def wrote_def gave_up_def split: cpc.splits)

lemma hold_place:
  "at_place got w p \<Longrightarrow> in_hand p = Some x \<Longrightarrow> in_hand p' = Some x \<Longrightarrow> carried p' = carried p \<Longrightarrow> at_place got w p'"
  using in_hand_not_gave_up [of p] by (auto simp: at_place_def line_at_def wrote_def)

lemma after_place:
  assumes "at_place got w p" and "in_hand p = Some (b, n)" and "carried p = []"
  shows "at_place got w (after_packet io b n)"
proof -
  from assms obtain front where f: "got = front @ pack (take n b)" "no_line front" "b = foldl received empty_buffer got"
    "w = data_packets empty_buffer got"
    using in_hand_not_gave_up [of p] by (auto simp: at_place_def line_at_def wrote_def)
  show ?thesis
  proof (cases "newline \<in> set (take n b)")
    case True
    then have "one_line got" using f(1,2) by (auto simp: pack_def split: if_splits)
    then show ?thesis using True f(4) by (simp add: after_packet_def at_place_def line_at_def wrote_def)
  next
    case False
    then have "no_line got" using f(1,2) by (auto simp: pack_def no_line_def)
    then show ?thesis using False f(3,4) by (simp add: after_packet_def at_place_def line_at_def wrote_def)
  qed
qed

lemma recv_place:
  assumes "at_place got w (C_recv b)"
  shows "at_place (got @ pack bytes) w (C_packet (received b bytes) (length bytes))"
proof (cases "bytes = []")
  case True
  with assms show ?thesis by (auto simp: at_place_def line_at_def wrote_def carried_def)
next
  case False
  with assms show ?thesis by (auto simp: at_place_def line_at_def wrote_def carried_def pack_def data_packets_snoc)
qed

lemma written_place: "at_place got w (C_write b n) \<Longrightarrow> at_place got (w @ pack (take n b)) (C_unlock b n)"
  by (auto simp: at_place_def line_at_def wrote_def gave_up_def)

definition late :: "cpc \<Rightarrow> bool" where
  "late p \<longleftrightarrow> in_hand p = None \<and> \<not> gave_up p \<and> (\<forall>b. p \<noteq> C_recv b)"

lemma late_simps [simp]:
  "late C_open_read" "late C_read_lock" "late C_read" "late (C_read_unlock v bs)" "late (C_send v bs)" "late C_close_client"
  "late C_complete" "late C_close_data" "late C_done"
  by (simp_all add: late_def)

lemma late_place: "at_place got w p \<Longrightarrow> late p \<Longrightarrow> late p' \<Longrightarrow> at_place got w p'"
  by (auto simp: at_place_def line_at_def wrote_def late_def carried_def in_hand_def split: cpc.splits)

text \<open>Every step but receiving and writing keeps that.\<close>

lemma other_place:
  assumes "at_place got w p" and "(a, p', s') \<in> set (client_prog OS i p s)"
    and "\<And>b. p \<noteq> C_recv b" and "\<And>b n. p \<noteq> C_write b n"
  shows "at_place got w p'"
proof -
  have ng: "\<not> gave_up p" using assms(2) by (auto simp: client_prog_def uses_node_def gave_up_def split: cpc.splits)
  have "gave_up p' \<or> late p \<and> late p' \<or> (\<exists>x. in_hand p = Some x \<and> in_hand p' = Some x \<and> carried p' = carried p) \<or>
      (\<exists>io b n. in_hand p = Some (b, n) \<and> carried p = [] \<and> p' = after_packet io b n)"
    using assms(2-4)
    by (cases p) (auto simp: client_prog_def carried_def Let_def case_prod_beta split: if_splits option.splits)
  then show ?thesis
    using give_up_place [OF assms(1) ng] late_place [OF assms(1)] hold_place [OF assms(1)] after_place [OF assms(1)] by blast
qed

section \<open>The writes of all threads\<close>

text \<open>Writes are recorded with the thread that made them.\<close>

definition of_thread :: "nat \<Rightarrow> (nat \<times> char list) list \<Rightarrow> char list list" where
  "of_thread i ws = map snd (filter (\<lambda>w. fst w = i) ws)"

lemma of_thread_simps [simp]:
  "of_thread i [] = []" "of_thread i (ws @ ws') = of_thread i ws @ of_thread i ws'" "of_thread i (map (Pair i) ds) = ds"
  "j \<noteq> i \<Longrightarrow> of_thread j (map (Pair i) ds) = []"
  by (simp_all add: of_thread_def comp_def)

lemma sum_of_threads:
  assumes "finite T" and "fst ` set ws \<subseteq> T"
  shows "(\<Sum>i\<in>T. length (concat (of_thread i ws))) = length (concat (map snd ws))"
  using assms(2)
proof (induction ws)
  case (Cons w ws)
  have "length (concat (of_thread i (w # ws))) = (if i = fst w then length (snd w) else 0) + length (concat (of_thread i ws))" for i
    by (simp add: of_thread_def)
  then show ?case using Cons assms(1) by (simp add: sum.distrib)
qed simp

lemma fold_pending_le: "length (snd (fold (\<lambda>d c. spec_write c d) ws c)) \<le> length (snd c) + length (concat ws)"
proof (induction ws arbitrary: c)
  case (Cons d ws)
  have "length (snd (spec_write c d)) \<le> length (snd c) + length d"
    using length_consumed_le [of d] by (cases c) (simp add: spec_write_def)
  with Cons.IH [of "spec_write c d"] show ?case by simp
qed simp

lemma pool_step_prog:
  assumes "pool_step prog Q Q'"
  obtains a i p where "(a, p, shared Q') \<in> set (prog i (pcs Q i) (shared Q))" "pcs Q' = (pcs Q)(i := p)"
  using assms by cases auto

lemma client_prog_sock: "(a, p', s') \<in> set (client_prog OS i p s) \<Longrightarrow> sock s' j = sock s j"
  by (cases p) (auto simp: client_prog_def uses_node_def sock_def syscall_simps set_complete_def Let_def case_prod_beta split: if_splits option.splits)

section \<open>A device that threads share\<close>

text \<open>
  What several threads need of the device and the sockets: between any two of their calls the invariant \<open>okay\<close> is kept; the content
  changes by writing only, as a whole, and not at all if a write fails; receiving takes the next packet from the \<open>queue\<close> of the socket, or
  nothing, and no other call changes a queue.
\<close>

locale shared_device =
  fixes OS :: "'o os"
    and okay :: "'o \<Rightarrow> bool"
    and content :: "'o \<Rightarrow> char list list \<times> char list"
    and queue :: "'o \<Rightarrow> int \<Rightarrow> char list list"
    and room :: nat
  assumes recv_shared: "okay st \<Longrightarrow> os_recv OS st cfd BUF_LEN = (st', v, bytes) \<Longrightarrow>
      okay st' \<and> content st' = content st \<and>
      (if v = - 1 then queue st' = queue st
       else v = int (length bytes) \<and> (\<exists>ps. queue st cfd = pack bytes @ ps \<and> queue st' = (queue st)(cfd := ps)))"
    and open_shared: "okay st \<Longrightarrow> os_open OS st DATA_FILE mode = (st', fd) \<Longrightarrow>
      okay st' \<and> content st' = content st \<and> queue st' = queue st"
    and ioctl_shared: "okay st \<Longrightarrow> os_ioctl OS st fd x = (st', r) \<Longrightarrow>
      okay st' \<and> content st' = content st \<and> queue st' = queue st"
    and write_shared: "okay st \<Longrightarrow> length (snd (content st)) + length data \<le> room \<Longrightarrow> length data \<le> BUF_LEN \<Longrightarrow>
      os_write OS st fd data = (st', r) \<Longrightarrow> okay st' \<and> queue st' = queue st \<and>
      content st' = (if r = - 1 then content st else spec_write (content st) data)"
    and read_shared: "okay st \<Longrightarrow> os_read OS st fd BUF_LEN = (st', v, bytes) \<Longrightarrow>
      okay st' \<and> content st' = content st \<and> queue st' = queue st"
    and send_shared: "okay st \<Longrightarrow> os_send OS st cfd bytes = (st', r) \<Longrightarrow>
      okay st' \<and> content st' = content st \<and> queue st' = queue st"
    and close_shared: "okay st \<Longrightarrow> os_close OS st fd = (st', r) \<Longrightarrow>
      okay st' \<and> content st' = content st \<and> queue st' = queue st"
    and lock_shared: "okay st \<Longrightarrow> os_mutex_lock OS st Global_lock = (st', r) \<Longrightarrow>
      okay st' \<and> content st' = content st \<and> queue st' = queue st"
    and unlock_shared: "okay st \<Longrightarrow> os_mutex_unlock OS st Global_lock = (st', r) \<Longrightarrow>
      okay st' \<and> content st' = content st \<and> queue st' = queue st"
begin

text \<open>
  A thread whose socket had the packets \<open>q\<close> at the start and has \<open>rest\<close> now, and what one of its steps does: it writes the packets \<open>ws\<close>
  and takes packets from its own socket only.
\<close>

definition thread_ok :: "char list list \<Rightarrow> char list list \<Rightarrow> cpc \<Rightarrow> char list list \<Rightarrow> bool" where
  "thread_ok q w p rest \<longleftrightarrow> (\<exists>got. q = got @ rest \<and> at_place got w p)"

definition progress :: "char list list \<Rightarrow> char list list \<Rightarrow> int \<Rightarrow> 'o \<Rightarrow> cpc \<Rightarrow> 'o \<Rightarrow> bool" where
  "progress q w cfd st p' st' \<longleftrightarrow> okay st' \<and>
     (\<exists>ws. content st' = fold (\<lambda>d c. spec_write c d) ws (content st) \<and> thread_ok q (w @ ws) p' (queue st' cfd)) \<and>
     (\<forall>c. c \<noteq> cfd \<longrightarrow> queue st' c = queue st c)"

lemma progress_keep:
  assumes "okay st' \<and> content st' = content st \<and> queue st' = queue st" and "thread_ok q w p' (queue st cfd)"
  shows "progress q w cfd st p' st'"
  using assms unfolding progress_def by (intro conjI exI [of _ "[]"]) auto

lemma write_progress:
  assumes "okay (os_st s)" and "(a, p', s') \<in> set (client_prog OS i (C_write b n) s)" and "thread_ok q w (C_write b n) (queue (os_st s) cfd)"
    and "length (snd (content (os_st s))) + length (take n b) \<le> room" and "length (take n b) \<le> BUF_LEN"
  shows "progress q w cfd (os_st s) p' (os_st s')"
proof -
  let ?pk = "take n b"
  obtain t r where w: "os_write OS (os_st s) (dataFileDescriptor s) ?pk = (t, r)" by force
  note W = write_shared [OF assms(1,4,5) w]
  from assms(3) obtain got where g: "q = got @ queue (os_st s) cfd" "at_place got w (C_write b n)" by (auto simp: thread_ok_def)
  have p': "p' = (if r = ERROR then C_null True else C_unlock b n)" "os_st s' = t"
    using assms(2) w by (auto simp: client_prog_def uses_node_def syscall_def)
  show ?thesis
  proof (cases "r = ERROR")
    case True
    then have "thread_ok q w p' (queue (os_st s) cfd)"
      using give_up_place [OF g(2), of p'] g(1) p'(1) by (auto simp: thread_ok_def in_hand_not_gave_up)
    then show ?thesis using W p' True by (intro progress_keep) simp_all
  next
    case False
    have "content t = fold (\<lambda>d c. spec_write c d) (pack ?pk) (content (os_st s))" using W False by (simp add: pack_def)
    then show ?thesis using W p' False g(1) written_place [OF g(2)] unfolding progress_def thread_ok_def
      by (intro conjI exI [of _ "pack ?pk"] exI [of _ got]) auto
  qed
qed

lemma recv_progress:
  assumes "okay (os_st s)" and "(a, p', s') \<in> set (client_prog OS i (C_recv b) s)" and "thread_ok q w (C_recv b) (queue (os_st s) (sock s i))"
  shows "progress q w (sock s i) (os_st s) p' (os_st s')"
proof -
  from assms(3) obtain got where g: "q = got @ queue (os_st s) (sock s i)" "at_place got w (C_recv b)" by (auto simp: thread_ok_def)
  have null: "thread_ok q w p' (queue (os_st s) (sock s i))" if "gave_up p'"
    using give_up_place [OF g(2) _ that] g(1) by (auto simp: thread_ok_def)
  show ?thesis
  proof (cases "nodes s i")
    case None
    then have "p' = C_undef False" "s' = s" using assms(2) by (auto simp: client_prog_def uses_node_def in_file_def)
    then show ?thesis using assms(1) null by (intro progress_keep) auto
  next
    case (Some nd)
    obtain t v bytes where r: "os_recv OS (os_st s) (sock s i) BUF_LEN = (t, v, bytes)" by (metis prod_cases3)
    note R = recv_shared [OF assms(1) r]
    have p': "p' = (if v = ERROR then C_null False else C_packet (received b bytes) (nat v))" "os_st s' = t"
      using assms(2) r Some by (auto simp: client_prog_def uses_node_def syscall_def received_def sock_def split: if_splits)
    show ?thesis
    proof (cases "v = ERROR")
      case True
      then show ?thesis using R p' null by (intro progress_keep) simp_all
    next
      case False
      then obtain ps where ps: "v = int (length bytes)" "queue (os_st s) (sock s i) = pack bytes @ ps"
        "queue t = (queue (os_st s))(sock s i := ps)" "okay t" "content t = content (os_st s)" using R by auto
      have "thread_ok q w p' (queue t (sock s i))" unfolding thread_ok_def
        using g(1) recv_place [OF g(2), of bytes] p'(1) False ps by (intro exI [of _ "got @ pack bytes"]) simp
      then show ?thesis using ps p'(2) unfolding progress_def by (intro conjI exI [of _ "[]"]) auto
    qed
  qed
qed

lemma step_progress:
  assumes "okay (os_st s)" and "(a, p', s') \<in> set (client_prog OS i p s)" and "thread_ok q w p (queue (os_st s) (sock s i))"
    and "\<And>b n. p = C_write b n \<Longrightarrow> length (snd (content (os_st s))) + length (take n b) \<le> room \<and> length (take n b) \<le> BUF_LEN"
  shows "progress q w (sock s i) (os_st s) p' (os_st s')"
proof (cases "(\<exists>b. p = C_recv b) \<or> (\<exists>b n. p = C_write b n)")
  case True
  then show ?thesis
  proof (elim disjE exE)
    fix b
    assume p: "p = C_recv b"
    show ?thesis by (rule recv_progress [OF assms(1-3) [unfolded p]])
  next
    fix b n
    assume p: "p = C_write b n"
    show ?thesis using write_progress [OF assms(1-3) [unfolded p]] assms(4) [OF p] by blast
  qed
next
  case False
  then have "okay (os_st s') \<and> content (os_st s') = content (os_st s) \<and> queue (os_st s') = queue (os_st s)"
    using assms(1,2)
    by (cases p) (auto simp: client_prog_def syscall_def set_complete_def Let_def
        dest: open_shared ioctl_shared read_shared send_shared close_shared lock_shared unlock_shared
        split: if_splits option.splits prod.splits)
  moreover have "thread_ok q w p' (queue (os_st s) (sock s i))"
    using assms(3) other_place [OF _ assms(2)] False unfolding thread_ok_def by blast
  ultimately show ?thesis by (rule progress_keep)
qed

text \<open>
  A pool that started with the packets \<open>q0\<close> of each socket and the content \<open>c0\<close>; \<open>sk\<close> are the sockets of the threads, and \<open>ws\<close> is what the threads
  have written since.
\<close>

definition balanced :: "(int \<Rightarrow> char list list) \<Rightarrow> char list list \<times> char list \<Rightarrow> (nat \<Rightarrow> int) \<Rightarrow> nat set \<Rightarrow>
    (nat \<times> char list) list \<Rightarrow> (cpc, 'o srv) pool \<Rightarrow> bool" where
  "balanced q0 c0 sk T ws Q \<longleftrightarrow> okay (os_st (shared Q)) \<and> (\<forall>i. i \<notin> T \<longrightarrow> pcs Q i = C_done) \<and> (\<forall>i. sock (shared Q) i = sk i) \<and>
     content (os_st (shared Q)) = fold (\<lambda>d c. spec_write c d) (map snd ws) c0 \<and> fst ` set ws \<subseteq> T \<and>
     (\<forall>i \<in> T. thread_ok (q0 (sk i)) (of_thread i ws) (pcs Q i) (queue (os_st (shared Q)) (sk i)))"

lemma thread_ok_bytes:
  assumes "thread_ok q w p rest"
  shows "length (concat w) + length (concat (carried p)) \<le> length (concat q)" and "set (carried p) \<subseteq> set q"
proof -
  from assms obtain got where g: "q = got @ rest" "wrote got w p" by (auto simp: thread_ok_def at_place_def)
  have "carried p = []" if "gave_up p" using that by (auto simp: gave_up_def split: cpc.splits)
  then have "\<exists>ps. w @ carried p @ ps = data_packets empty_buffer got" using g(2) unfolding wrote_def by (metis append_Nil append_Nil2)
  then obtain ps where ps: "w @ carried p @ ps = data_packets empty_buffer got" by blast
  from data_packets_sub [of empty_buffer got, folded ps] g(1)
  show "length (concat w) + length (concat (carried p)) \<le> length (concat q)" "set (carried p) \<subseteq> set q" by auto
qed

lemma balanced_fits:
  assumes inv: "balanced q0 c0 sk T ws Q" and T: "finite T" and i: "i \<in> T" and p: "pcs Q i = C_write b n"
    and small: "length (snd c0) + (\<Sum>i\<in>T. length (concat (q0 (sk i)))) \<le> room" "\<forall>c. \<forall>pk \<in> set (q0 c). length pk \<le> BUF_LEN"
  shows "length (snd (content (os_st (shared Q)))) + length (take n b) \<le> room \<and> length (take n b) \<le> BUF_LEN"
proof -
  have th: "thread_ok (q0 (sk j)) (of_thread j ws) (pcs Q j) (queue (os_st (shared Q)) (sk j))" if "j \<in> T" for j
    using inv that by (simp add: balanced_def)
  note B = thread_ok_bytes [OF th]
  have "length (concat (pack (take n b))) = length (take n b)" by (simp add: pack_def)
  then have c: "length (concat (carried (pcs Q i))) = length (take n b)" by (simp add: p)
  have "(\<Sum>j\<in>T. length (concat (of_thread j ws))) + length (take n b) \<le>
      (\<Sum>j\<in>T. length (concat (of_thread j ws)) + length (concat (carried (pcs Q j))))"
    using member_le_sum [OF i, of "\<lambda>j. length (concat (carried (pcs Q j)))"] T unfolding sum.distrib c by simp
  also have "\<dots> \<le> (\<Sum>j\<in>T. length (concat (q0 (sk j))))" using B(1) by (intro sum_mono)
  finally have "length (concat (map snd ws)) + length (take n b) \<le> (\<Sum>j\<in>T. length (concat (q0 (sk j))))"
    using sum_of_threads [OF T, of ws] inv by (simp add: balanced_def)
  then have 1: "length (snd (content (os_st (shared Q)))) + length (take n b) \<le> room"
    using fold_pending_le [of "map snd ws" c0] small(1) inv by (simp add: balanced_def)
  have "take n b = [] \<or> take n b \<in> set (q0 (sk i))" using B(2) [OF i] by (auto simp: p pack_def split: if_splits)
  then have "length (take n b) \<le> BUF_LEN" using small(2) by (metis le0 list.size(3))
  with 1 show ?thesis by blast
qed

lemma balanced_step:
  assumes inv: "balanced q0 c0 sk T ws Q" and T: "finite T" "inj_on sk T" and step: "pool_step (client_prog OS) Q Q'"
    and small: "length (snd c0) + (\<Sum>i\<in>T. length (concat (q0 (sk i)))) \<le> room" "\<forall>c. \<forall>pk \<in> set (q0 c). length pk \<le> BUF_LEN"
  shows "\<exists>ws'. balanced q0 c0 sk T ws' Q'"
proof -
  let ?s = "os_st (shared Q)" and ?s' = "os_st (shared Q')"
  from step obtain a i p' where pr: "(a, p', shared Q') \<in> set (client_prog OS i (pcs Q i) (shared Q))" and pcs: "pcs Q' = (pcs Q)(i := p')"
    by (rule pool_step_prog)
  have i: "i \<in> T" using pr inv by (auto simp: balanced_def client_prog_def uses_node_def)
  have ok: "okay ?s" and sk: "\<And>j. sock (shared Q) j = sk j"
    and th: "\<And>j. j \<in> T \<Longrightarrow> thread_ok (q0 (sk j)) (of_thread j ws) (pcs Q j) (queue ?s (sk j))"
    using inv by (simp_all add: balanced_def)
  have "progress (q0 (sk i)) (of_thread i ws) (sk i) ?s p' ?s'"
    using step_progress [OF ok pr] th [OF i] balanced_fits [OF inv T(1) i _ small] sk by auto
  then obtain ds where ok': "okay ?s'" and c: "content ?s' = fold (\<lambda>d c. spec_write c d) ds (content ?s)"
    and t: "thread_ok (q0 (sk i)) (of_thread i ws @ ds) p' (queue ?s' (sk i))" and q: "\<forall>c. c \<noteq> sk i \<longrightarrow> queue ?s' c = queue ?s c"
    by (auto simp: progress_def)
  let ?ws = "ws @ map (Pair i) ds"
  have "thread_ok (q0 (sk j)) (of_thread j ?ws) (pcs Q' j) (queue ?s' (sk j))" if j: "j \<in> T" for j
  proof (cases "j = i")
    case False
    then have "sk j \<noteq> sk i" using T(2) i j by (auto simp: inj_on_def)
    then show ?thesis using th [OF j] q False by (simp add: pcs)
  qed (use t in \<open>simp add: pcs\<close>)
  moreover have "content ?s' = fold (\<lambda>d c. spec_write c d) (map snd ?ws) c0" using c inv by (simp add: balanced_def comp_def)
  moreover have "\<forall>j. sock (shared Q') j = sk j" using client_prog_sock [OF pr] sk by simp
  ultimately have "balanced q0 c0 sk T ?ws Q'" using ok' inv i by (auto simp: balanced_def pcs)
  then show ?thesis ..
qed

lemma balanced_run:
  assumes "(pool_step (client_prog OS))\<^sup>*\<^sup>* Q Q'" and "balanced q0 c0 sk T [] Q" and "finite T" and "inj_on sk T"
    and "length (snd c0) + (\<Sum>i\<in>T. length (concat (q0 (sk i)))) \<le> room" and "\<forall>c. \<forall>pk \<in> set (q0 c). length pk \<le> BUF_LEN"
  shows "\<exists>ws. balanced q0 c0 sk T ws Q'"
  using assms(1)
proof (induction rule: rtranclp_induct)
  case (step Q1 Q2)
  then show ?case using balanced_step [OF _ assms(3,4) step.hyps(2) assms(5,6)] by blast
qed (use assms(2) in blast)

end

section \<open>The driver as shared device\<close>

text \<open>The device is in order, the kernel has resources to spare, and no packet is empty or longer than the receive buffer.\<close>

definition d_shared :: "nat \<Rightarrow> dev_client \<Rightarrow> bool" where
  "d_shared R st \<longleftrightarrow> d_ok st \<and> d_live R st \<and> (\<forall>c. list_all (\<lambda>pk. pk \<noteq> [] \<and> length pk \<le> BUF_LEN) (inq st c))"

lemma after_call_shared:
  assumes "d_shared R st" and "heap s = heap (dkst st)" and "aesd_device s = aesd_device (dkst st)"
    and "private_data f = Aesd_device_ptr"
  shows "d_shared R (after_call st s k f) \<and> d_stored (after_call st s k f) = d_stored st \<and> inq (after_call st s k f) = inq st"
proof -
  have ok: "d_ok st" using assms(1) by (simp add: d_shared_def)
  have "d_ok (after_call st s k f)" using d_okD(2,4) [OF ok] assms(2-4) by (intro after_call_ok [OF ok]) simp_all
  then show ?thesis using assms by (auto simp: d_shared_def d_live_def after_call_def d_stored_def dev_abs_def)
qed

lemma d_shared_upd [simp]:
  "d_shared R (st\<lparr>erred := b\<rparr>) = d_shared R st" "d_shared R (st\<lparr>seek_ret := r\<rparr>) = d_shared R st"
  by (simp_all add: d_shared_def d_live_def)

lemma d_open_shared:
  assumes "d_shared R st" and "d_open st DATA_FILE mode = (st', fd)"
  shows "d_shared R st' \<and> d_stored st' = d_stored st \<and> inq st' = inq st"
  using assms after_call_shared [OF assms(1), of "dkst st" "fst (aesd_open fresh_file)"]
  by (auto simp: d_open_def aesd_open_def split: option.splits)

lemma d_close_shared:
  assumes "d_shared R st" and "d_close st fd = (st', r)"
  shows "d_shared R st' \<and> d_stored st' = d_stored st \<and> inq st' = inq st"
  using assms d_close_law [of st fd st' r] by (auto simp: d_shared_def d_live_def d_close_def split: option.splits if_splits)

lemma d_recv_shared:
  assumes "d_shared R st" and "d_recv st cfd BUF_LEN = (st', v, bytes)"
  shows "d_shared R st' \<and> d_stored st' = d_stored st \<and> (if v = - 1 then inq st' = inq st
    else v = int (length bytes) \<and> (\<exists>ps. inq st cfd = pack bytes @ ps \<and> inq st' = (inq st)(cfd := ps)))"
proof (cases "inq st cfd")
  case Nil
  then show ?thesis using assms
    by (auto simp: d_recv_def d_shared_def d_live_def d_ok_def d_stored_def fun_upd_idem Let_def split: if_splits)
next
  case (Cons pk ps)
  have "list_all (\<lambda>pk. pk \<noteq> [] \<and> length pk \<le> BUF_LEN) (inq st cfd)" using assms(1) by (simp add: d_shared_def)
  then have pk: "pk \<noteq> []" "length pk \<le> BUF_LEN" "list_all (\<lambda>pk. pk \<noteq> [] \<and> length pk \<le> BUF_LEN) ps" using Cons by simp_all
  then show ?thesis using assms Cons
    by (auto simp: d_recv_def d_shared_def d_live_def d_ok_def d_stored_def pack_def Let_def split: if_splits)
qed

lemma d_send_shared:
  assumes "d_shared R st" and "d_send st cfd bytes = (st', r)"
  shows "d_shared R st' \<and> d_stored st' = d_stored st \<and> inq st' = inq st"
  using assms by (auto simp: d_send_def d_shared_def d_live_def d_ok_def d_stored_def Let_def split: if_splits)

lemma d_read_shared:
  assumes "d_shared R st" and "d_read st fd n = (st', v, bytes)"
  shows "d_shared R st' \<and> d_stored st' = d_stored st \<and> inq st' = inq st"
proof (cases "open_file st fd")
  case (Some f)
  have ok: "d_ok st" using assms(1) by (simp add: d_shared_def)
  note D = d_okD [OF ok]
  from read_preserves [OF D(1) [of "tick st"] D(3) D(5) [OF Some] D(4), of "Some 0" "word_of_nat n" "f_pos f"]
  obtain s pos r where "aesd_read (dkern st) (dkst st) (Some f) (Some 0) (word_of_nat n) (f_pos f) = Some (s, pos, r)"
    "heap s = heap (dkst st)" "aesd_device s = aesd_device (dkst st)" by blast
  then show ?thesis using assms Some D(5) [OF Some] after_call_shared [OF assms(1), of s "f\<lparr>f_pos := pos\<rparr>"]
    by (auto simp: d_read_def)
qed (use assms in \<open>simp add: d_read_def\<close>)

lemma d_ioctl_shared:
  assumes "d_shared R st" and "d_ioctl st fd x = (st', r)"
  shows "d_shared R st' \<and> d_stored st' = d_stored st \<and> inq st' = inq st"
proof (cases "open_file st fd")
  case (Some f)
  have ok: "d_ok st" using assms(1) by (simp add: d_shared_def)
  note D = d_okD [OF ok]
  let ?s = "put (layout st x) (dkst st)"
  have "dev_safe (heap ?s) (aesd_device ?s)" "\<not> lock (aesd_device ?s)" using D(3,4) by simp_all
  from ioctl_preserves [OF D(1) [of "tick st"] this(1) D(5) [OF Some] this(2), of "AESDCHAR_IOCSEEKTO (dkern st)" 0]
  obtain f' e where "aesd_ioctl (dkern st) ?s f (AESDCHAR_IOCSEEKTO (dkern st)) 0 = Some (?s, f', e)"
    "private_data f' = Aesd_device_ptr" by blast
  then show ?thesis using assms Some after_call_shared [OF assms(1), of ?s f'] by (auto simp: d_ioctl_def)
qed (use assms in \<open>simp add: d_ioctl_def\<close>)

lemma d_write_shared:
  assumes sh: "d_shared R st" and "length (snd (d_stored st)) + length data \<le> R" and "length data \<le> BUF_LEN"
    and w: "d_write st fd data = (st', r)"
  shows "d_shared R st' \<and> inq st' = inq st \<and> d_stored st' = (if r = - 1 then d_stored st else spec_write (d_stored st) data)"
proof (cases "open_file st fd")
  case (Some f)
  have ok: "d_ok st" "d_live R st" using sh by (simp_all add: d_shared_def)
  from d_write_granted [OF ok Some assms(2,3)] obtain s pos e where
    e: "d_write st fd data = (after_call st s (nat fd) (f\<lparr>f_pos := pos\<rparr>), e)" "0 \<le> e" "no_leak (heap s) (aesd_device s)" .
  then have st': "st' = after_call st s (nat fd) (f\<lparr>f_pos := pos\<rparr>)" "r \<noteq> - 1" using w by auto
  have "d_live R st'" using ok(2) e(3) by (simp add: st'(1) d_live_def after_call_def)
  then show ?thesis using d_write_law [OF ok(1) w assms(3)] st'(2) sh by (auto simp: d_shared_def)
qed (use sh w in \<open>simp add: d_write_def\<close>)

interpretation shr: shared_device driver_os "d_shared R" d_stored inq R for R
proof (unfold_locales, unfold driver_os_simps, goal_cases)
  case (1 st cfd st' v bytes)
  then obtain t where "d_recv st cfd BUF_LEN = (t, v, bytes)" "st' = t\<lparr>erred := (v = - 1)\<rparr>" by (elim note_readE)
  then show ?case using d_recv_shared [OF 1(1)] by auto
next
  case (2 st mode st' fd)
  then obtain t where "d_open st DATA_FILE mode = (t, fd)" "st' = t\<lparr>erred := (fd = - 1)\<rparr>" by (elim note_errorE)
  then show ?case using d_open_shared [OF 2(1)] by auto
next
  case (3 st fd x st' r)
  then obtain t where "d_ioctl st fd x = (t, r)" "st' = t\<lparr>seek_ret := r\<rparr>" by (elim note_seekE)
  then show ?case using d_ioctl_shared [OF 3(1)] by auto
next
  case (4 st data fd st' r)
  then obtain t where "d_write st fd data = (t, r)" "st' = t\<lparr>erred := (r = - 1)\<rparr>" by (elim note_errorE)
  then show ?case using d_write_shared [OF 4(1-3)] by auto
next
  case (5 st fd st' v bytes)
  then obtain t where "d_read st fd BUF_LEN = (t, v, bytes)" "st' = t\<lparr>erred := (v = - 1)\<rparr>" by (elim note_readE)
  then show ?case using d_read_shared [OF 5(1)] by auto
next
  case (6 st cfd bytes st' r)
  then obtain t where "d_send st cfd bytes = (t, r)" "st' = t\<lparr>erred := (r = - 1)\<rparr>" by (elim note_errorE)
  then show ?case using d_send_shared [OF 6(1)] by auto
next
  case (7 st fd st' r)
  then show ?case using d_close_shared by blast
qed simp_all

section \<open>Interleaved clients\<close>

text \<open>
  C11. Client threads that start together, each on a socket of its own, on a device in order and over a kernel with resources to spare for all their packets, keep the
  device in order however they are interleaved and whatever calls on sockets fail, and it holds what the packets they wrote leave when written one after
  the other. A thread has written, in their order, exactly those of the packets received on its socket that are not seek commands (the buffer that
  holds the packet does not start with the seek prefix), apart from one that it still holds and one that it did not get to write before
  it returned early. A thread that ended regularly has received all packets up to the first one with a newline and written each of them once, seek commands excepted.
\<close>

theorem interleaved_clients_stored:
  assumes "(pool_step (client_prog driver_os))\<^sup>*\<^sup>* (clients pcs0 s) Q" and "finite T"
    and "\<forall>i \<in> T. pcs0 i = C_recv empty_buffer" and "\<forall>i. i \<notin> T \<longrightarrow> pcs0 i = C_done" and "inj_on (sock s) T"
    and "d_ok (os_st s)" and "d_live R (os_st s)"
    and "\<forall>c. \<forall>pk \<in> set (inq (os_st s) c). pk \<noteq> [] \<and> length pk \<le> BUF_LEN"
    and "length (snd (d_stored (os_st s))) + (\<Sum>i\<in>T. length (concat (inq (os_st s) (sock s i)))) \<le> R"
  shows "d_ok (os_st (shared Q)) \<and>
    (\<exists>ws got. d_stored (os_st (shared Q)) = fold (\<lambda>d c. spec_write c d) (map snd ws) (d_stored (os_st s)) \<and> fst ` set ws \<subseteq> T \<and>
       (\<forall>i \<in> T. inq (os_st s) (sock s i) = got i @ inq (os_st (shared Q)) (sock s i) \<and>
          (of_thread i ws @ carried (pcs Q i) = data_packets empty_buffer (got i) \<or>
           gave_up (pcs Q i) \<and> (\<exists>pk. of_thread i ws @ [pk] = data_packets empty_buffer (got i))) \<and>
          (pcs Q i = C_done \<longrightarrow> one_line (got i) \<and> of_thread i ws = data_packets empty_buffer (got i))))"
proof -
  let ?q = "inq (os_st s)" and ?c = "d_stored (os_st s)" and ?t = "os_st (shared Q)"
  have "d_shared R (os_st s)" using assms(6-8) by (simp add: d_shared_def list_all_iff)
  moreover have "at_place [] [] (C_recv empty_buffer)" by (simp add: at_place_def line_at_def wrote_def no_line_def)
  ultimately have "shr.balanced R ?q ?c (sock s) T [] (clients pcs0 s)"
    using assms(3,4) by (auto simp: shr.balanced_def shr.thread_ok_def clients_def)
  from shr.balanced_run [OF assms(1) this assms(2,5,9)] assms(8) obtain ws where b: "shr.balanced R ?q ?c (sock s) T ws Q" by auto
  then have "\<forall>i \<in> T. \<exists>got. ?q (sock s i) = got @ inq ?t (sock s i) \<and> at_place got (of_thread i ws) (pcs Q i)"
    by (simp add: shr.balanced_def shr.thread_ok_def)
  then obtain got where g: "\<forall>i \<in> T. ?q (sock s i) = got i @ inq ?t (sock s i) \<and> at_place (got i) (of_thread i ws) (pcs Q i)"
    using bchoice by metis
  have "(of_thread i ws @ carried (pcs Q i) = data_packets empty_buffer (got i) \<or>
           gave_up (pcs Q i) \<and> (\<exists>pk. of_thread i ws @ [pk] = data_packets empty_buffer (got i))) \<and>
      (pcs Q i = C_done \<longrightarrow> one_line (got i) \<and> of_thread i ws = data_packets empty_buffer (got i))" if "i \<in> T" for i
    using g that by (auto simp: at_place_def wrote_def line_at_def)
  then show ?thesis using b g by (intro conjI exI [of _ ws] exI [of _ got]) (auto simp: shr.balanced_def d_shared_def)
qed

theorem interleaved_clients_stored_witness:
  "\<exists>Q ws. (pool_step (client_prog driver_os))\<^sup>*\<^sup>*
      (clients ((\<lambda>_. C_done)(0 := C_recv empty_buffer)) (demo_srv (demo_dev demo_written ((\<lambda>_. [])(9 := [''c'', ''d\<newline>e'']))))) Q \<and>
     pcs Q 0 = C_done \<and> of_thread 0 ws = [''c'', ''d\<newline>e''] \<and>
     d_stored (os_st (shared Q)) = fold (\<lambda>d c. spec_write c d) (map snd ws) ([''ab\<newline>''], [])"
proof -
  let ?s = "demo_srv (demo_dev demo_written ((\<lambda>_. [])(9 := [''c'', ''d\<newline>e''])))" and ?p = "(\<lambda>_. C_done)(0 := C_recv empty_buffer)"
  have d: "d_ok (os_st ?s)" "d_stored (os_st ?s) = ([''ab\<newline>''], [])" "d_ready 64 (os_st ?s)" "nodes ?s 0 \<noteq> None"
    "\<not> short_sent (os_st ?s)" using demo_devs demo_stored demo_ready by simp_all
  have k: "sock ?s 0 = 9" by (simp add: sock_def new_node_def)
  have c: "sends_command 64 ([''c''], ''d\<newline>e'')" by (simp add: sends_command_def packets_def ioctl_str_def BUF_LEN_def)
  have i: "inq (os_st ?s) (sock ?s 0) = packets ([''c''], ''d\<newline>e'')" "sock ?s 0 \<in> socks (os_st ?s)" by (simp_all add: k packets_def)
  from client_done [OF d(4,1,3) c i(1) d(2) i(2) d(5)] obtain s' where
    h: "client_data_handler driver_os ?s 0 = Some (s', Exit_param)" "inq (os_st s') = (inq (os_st ?s))(9 := [])" unfolding k by metis
  have "client_data_handler driver_os (shared (clients ?p ?s)) 0 = Some (s', Exit_param)" "nodes (shared (clients ?p ?s)) 0 \<noteq> None"
    "pcs (clients ?p ?s) 0 = C_recv empty_buffer" "owner (clients ?p ?s) = None" "mutex_fine driver_os"
    using h(1) d(4) by (simp_all add: clients_def mutex_fine_def)
  from handler_in_pool [OF this] obtain Q where
    Q: "(pool_step (client_prog driver_os))\<^sup>*\<^sup>* (clients ?p ?s) Q" "shared Q = s'" "pcs Q 0 = C_done"
    by (auto simp: stopped_as_def)
  have T: "finite {0 :: nat}" "\<forall>i \<in> {0}. ?p i = C_recv empty_buffer" "\<forall>i. i \<notin> {0} \<longrightarrow> ?p i = C_done" "inj_on (sock ?s) {0}"
    "\<forall>c. \<forall>pk \<in> set (inq (os_st ?s) c). pk \<noteq> [] \<and> length pk \<le> BUF_LEN"
    "length (snd (d_stored (os_st ?s))) + (\<Sum>i\<in>{0}. length (concat (inq (os_st ?s) (sock ?s i)))) \<le> 64"
    using d(2) by (auto simp: BUF_LEN_def k)
  have "d_live 64 (os_st ?s)" using d(3) by (simp add: d_ready_def)
  from interleaved_clients_stored [OF Q(1) T(1-4) d(1) this T(5,6)] obtain ws got where
    w: "d_stored (os_st (shared Q)) = fold (\<lambda>d c. spec_write c d) (map snd ws) ([''ab\<newline>''], [])"
      "inq (os_st ?s) 9 = got (0 :: nat) @ inq (os_st s') 9" "of_thread 0 ws = data_packets empty_buffer (got 0)"
    unfolding Q(2) d(2) using Q(3) k by auto
  have "got 0 = [''c'', ''d\<newline>e'']" using w(2) h(2) by simp
  then have "of_thread 0 ws = [''c'', ''d\<newline>e'']" using w(3) by (simp add: received_def ioctl_str_def BUF_LEN_def)
  then show ?thesis using Q(1,3) w(1) by blast
qed

end
