(* ===== verification/Queue_Memory.thy ===== *)
theory Queue_Memory
  imports Aesd_Prelude
begin

text \<open>
  The memory the singly-linked tail queues, the lists and the tail queues of \<open>server/queue.h\<close> work
  on. A head and the entry of an element have the same shape: a link (\<open>stqh_first\<close>, \<open>lh_first\<close>,
  \<open>tqh_first\<close> of a head; \<open>stqe_next\<close>, \<open>le_next\<close>, \<open>tqe_next\<close> of an element) and behind it, where the
  kind of queue has one, a pointer to a link (\<open>stqh_last\<close>, \<open>tqh_last\<close>; \<open>le_prev\<close>, \<open>tqe_prev\<close>).
  \<open>TAILQ_LAST\<close> and \<open>TAILQ_PREV\<close> rely on that: they read the entry of an element as if it were a head.
  So a pointer to a link is the name of the structure that starts with it, a \<open>slot\<close>, and the memory
  maps every slot to its link (\<open>cell\<close>) and to its pointer to a link (\<open>second\<close>). Reading or writing a
  slot that is not allocated is undefined (\<open>None\<close>), as is following a null pointer.
\<close>

section \<open>Slots, reads and writes\<close>

type_synonym qptr = "nat option"

datatype slot = Head nat | Elem nat

record qmem =
  cell :: "slot \<rightharpoonup> qptr"
  second :: "slot \<rightharpoonup> slot"

text \<open>\<open>*s\<close>, \<open>*s = v\<close>, and the same for the pointer behind the link.\<close>

definition get_cell :: "qmem \<Rightarrow> slot \<Rightarrow> qptr option" where
  "get_cell M s = cell M s"

definition set_cell :: "qmem \<Rightarrow> slot \<Rightarrow> qptr \<Rightarrow> qmem option" where
  "set_cell M s v = (if s \<in> dom (cell M) then Some (M\<lparr>cell := (cell M)(s \<mapsto> v)\<rparr>) else None)"

definition get_second :: "qmem \<Rightarrow> slot \<Rightarrow> slot option" where
  "get_second M s = second M s"

definition set_second :: "qmem \<Rightarrow> slot \<Rightarrow> slot \<Rightarrow> qmem option" where
  "set_second M s v = (if s \<in> dom (second M) then Some (M\<lparr>second := (second M)(s \<mapsto> v)\<rparr>) else None)"

text \<open>The address of the link of the element a pointer names: undefined for the null pointer.\<close>

definition link_of :: "qptr \<Rightarrow> slot option" where
  "link_of p = map_option Elem p"

text \<open>\<open>__containerof\<close>: the element whose link a pointer names. It is undefined for the link of a head.\<close>

fun containerof :: "slot \<Rightarrow> qptr option" where
  "containerof (Elem e) = Some (Some e)"
| "containerof (Head h) = None"

lemmas qmem_simps = get_cell_def set_cell_def get_second_def set_second_def link_of_def dom_def

text \<open>
  The traversals. \<open>step\<close> reads the next pointer, \<open>body\<close> may change the state and tells whether it leaves
  the loop; the result is the state and the value of the loop variable. In the safe form the next pointer
  is read before the body runs.
\<close>

partial_function (option) for_each ::
  "('s \<Rightarrow> qptr \<Rightarrow> qptr option) \<Rightarrow> (nat \<Rightarrow> 's \<Rightarrow> ('s \<times> bool) option) \<Rightarrow> qptr \<Rightarrow> 's \<Rightarrow> ('s \<times> qptr) option" where
  "for_each step body var s =
     (case var of
        None \<Rightarrow> Some (s, None)
      | Some a \<Rightarrow> do {
          (s1, leave) \<leftarrow> body a s;
          if leave then Some (s1, var)
          else do {
            n \<leftarrow> step s1 var;
            for_each step body n s1
          }
        })"

partial_function (option) for_each_safe ::
  "('s \<Rightarrow> qptr \<Rightarrow> qptr option) \<Rightarrow> (nat \<Rightarrow> 's \<Rightarrow> ('s \<times> bool) option) \<Rightarrow> qptr \<Rightarrow> 's \<Rightarrow> ('s \<times> qptr) option" where
  "for_each_safe step body var s =
     (case var of
        None \<Rightarrow> Some (s, None)
      | Some a \<Rightarrow> do {
          tvar \<leftarrow> step s var;
          (s1, leave) \<leftarrow> body a s;
          if leave then Some (s1, var) else for_each_safe step body tvar s1
        })"

text \<open>What a traversal of the elements \<open>xs\<close> does: the body on each of them in turn, until it leaves.\<close>

fun visit :: "(nat \<Rightarrow> 's \<Rightarrow> ('s \<times> bool) option) \<Rightarrow> nat list \<Rightarrow> 's \<Rightarrow> ('s \<times> qptr) option" where
  "visit body [] s = Some (s, None)"
| "visit body (a # xs) s = do { (s1, leave) \<leftarrow> body a s; if leave then Some (s1, Some a) else visit body xs s1 }"

section \<open>Chains of links\<close>

text \<open>The first element of a list as a pointer, \<open>q\<close> where there is none; the slot of the last link.\<close>

fun first_ptr :: "nat list \<Rightarrow> qptr \<Rightarrow> qptr" where
  "first_ptr [] q = q"
| "first_ptr (x # xs) q = Some x"

fun end_slot :: "slot \<Rightarrow> nat list \<Rightarrow> slot" where
  "end_slot s [] = s"
| "end_slot s (x # xs) = end_slot (Elem x) xs"

text \<open>
  \<open>links c s xs q\<close>: from the link \<open>s\<close> the links lead through \<open>xs\<close>, and the last one holds \<open>q\<close>.
  \<open>backs b s xs\<close>: the pointer of each element of \<open>xs\<close> names the link that leads to it.
\<close>

fun links :: "(slot \<rightharpoonup> qptr) \<Rightarrow> slot \<Rightarrow> nat list \<Rightarrow> qptr \<Rightarrow> bool" where
  "links c s [] q \<longleftrightarrow> c s = Some q"
| "links c s (x # xs) q \<longleftrightarrow> c s = Some (Some x) \<and> links c (Elem x) xs q"

fun backs :: "(slot \<rightharpoonup> slot) \<Rightarrow> slot \<Rightarrow> nat list \<Rightarrow> bool" where
  "backs b s [] \<longleftrightarrow> True"
| "backs b s (x # xs) \<longleftrightarrow> b (Elem x) = Some s \<and> backs b (Elem x) xs"

definition spots :: "slot \<Rightarrow> nat list \<Rightarrow> slot set" where
  "spots s xs = insert s (Elem ` set xs)"

lemma spots_simps [simp]:
  "t \<in> spots s [] \<longleftrightarrow> t = s" "t \<in> spots s (x # xs) \<longleftrightarrow> t = s \<or> t \<in> spots (Elem x) xs"
  "t \<in> spots s (xs @ ys) \<longleftrightarrow> t \<in> spots s xs \<or> t \<in> Elem ` set ys"
  by (auto simp: spots_def)

lemma end_slot_append [simp]: "end_slot s (xs @ ys) = end_slot (end_slot s xs) ys"
  by (induction xs arbitrary: s) auto

lemma end_slot_last: "end_slot s xs = (if xs = [] then s else Elem (last xs))"
  by (induction xs arbitrary: s) auto

lemma end_slot_spots [simp, intro]: "end_slot s xs \<in> spots s xs"
  by (auto simp: end_slot_last spots_def)

lemma end_slot_other [simp]:
  assumes "x \<notin> set xs" and "s \<noteq> Elem x"
  shows "end_slot s xs \<noteq> Elem x" "Elem x \<noteq> end_slot s xs"
  using assms by (auto simp: end_slot_last)

lemma end_slot_Head [simp]: "g \<noteq> h \<Longrightarrow> end_slot (Head h) xs \<noteq> Head g" "g \<noteq> h \<Longrightarrow> Head g \<noteq> end_slot (Head h) xs"
  by (auto simp: end_slot_last)

lemma first_ptr_append [simp]: "first_ptr (xs @ ys) q = first_ptr xs (first_ptr ys q)"
  by (cases xs) auto

lemma first_ptr_None [simp]: "first_ptr xs None = None \<longleftrightarrow> xs = []"
  by (cases xs) auto

lemma first_ptr_rev: "first_ptr (rev xs) None = (if xs = [] then None else Some (last xs))"
  by (cases xs rule: rev_cases) auto

lemma links_append: "links c s (xs @ ys) q \<longleftrightarrow> links c s xs (first_ptr ys q) \<and> links c (end_slot s xs) ys q"
proof (induction xs arbitrary: s)
  case Nil
  then show ?case by (cases ys) auto
qed auto

lemma backs_append [simp]: "backs b s (xs @ ys) \<longleftrightarrow> backs b s xs \<and> backs b (end_slot s xs) ys"
  by (induction xs arbitrary: s) auto

lemma links_first: "links c s xs q \<Longrightarrow> c s = Some (first_ptr xs q)"
  by (cases xs) auto

lemma links_end: "links c s xs q \<Longrightarrow> c (end_slot s xs) = Some q"
  by (induction xs arbitrary: s) auto

lemma links_alloc: "links c s xs q \<Longrightarrow> t \<in> spots s xs \<Longrightarrow> t \<in> dom c"
  by (induction xs arbitrary: s) (auto simp: spots_def)

lemma backs_alloc: "backs b s xs \<Longrightarrow> x \<in> set xs \<Longrightarrow> Elem x \<in> dom b"
  by (induction xs arbitrary: s) auto

lemma links_cong: "(\<And>t. t \<in> spots s xs \<Longrightarrow> c' t = c t) \<Longrightarrow> links c' s xs q = links c s xs q"
  by (induction xs arbitrary: s) (auto simp: spots_def)

lemma backs_cong: "(\<And>x. x \<in> set xs \<Longrightarrow> b' (Elem x) = b (Elem x)) \<Longrightarrow> backs b' s xs = backs b s xs"
  by (induction xs arbitrary: s) auto

text \<open>Another start of a chain, another end, an element more, an element less.\<close>

lemma links_start:
  assumes "links c s xs q" and "c' s' = Some (first_ptr xs q)" and "\<And>x. x \<in> set xs \<Longrightarrow> c' (Elem x) = c (Elem x)"
  shows "links c' s' xs q"
proof (cases xs)
  case (Cons y ys)
  with assms show ?thesis using links_cong [of "Elem y" ys c' c] by (auto simp: spots_def)
qed (use assms in simp)

lemma links_redirect:
  assumes "links c s xs q" and "distinct xs" and "s \<notin> Elem ` set xs" and "c' (end_slot s xs) = Some q'"
    and "\<And>t. t \<in> spots s xs \<Longrightarrow> t \<noteq> end_slot s xs \<Longrightarrow> c' t = c t"
  shows "links c' s xs q'"
  using assms
proof (induction xs arbitrary: s)
  case (Cons x xs)
  have "s \<noteq> end_slot (Elem x) xs" using Cons.prems(3) by (auto simp: end_slot_last image_iff)
  with Cons.prems(1,5) have "c' s = Some (Some x)" by auto
  moreover have "links c' (Elem x) xs q'" using Cons.prems by (intro Cons.IH) auto
  ultimately show ?case by simp
qed simp

lemma backs_start:
  assumes "backs b s xs" and "\<And>x ys. xs = x # ys \<Longrightarrow> b' (Elem x) = Some s'"
    and "\<And>x. x \<in> set (tl xs) \<Longrightarrow> b' (Elem x) = b (Elem x)"
  shows "backs b' s' xs"
proof (cases xs)
  case (Cons y ys)
  with assms show ?thesis using backs_cong [of ys b' b "Elem y"] by auto
qed simp

lemma links_insert:
  assumes "links c s (us @ vs) q" and "distinct (us @ e # vs)" and "s \<notin> Elem ` set (us @ vs)" and "s \<noteq> Elem e"
    and "c' (Elem e) = Some (first_ptr vs q)" and "c' (end_slot s us) = Some (Some e)"
    and "\<And>t. t \<in> spots s (us @ vs) \<Longrightarrow> t \<noteq> end_slot s us \<Longrightarrow> c' t = c t"
  shows "links c' s (us @ e # vs) q"
proof -
  have l: "links c s us (first_ptr vs q)" "links c (end_slot s us) vs q" using assms(1) by (simp_all add: links_append)
  have "links c' s us (Some e)" using assms by (intro links_redirect [OF l(1)]) auto
  moreover have "links c' (Elem e) vs q"
  proof (rule links_start [of c _ _ _ c', OF l(2) _, OF assms(5)])
    fix x assume "x \<in> set vs"
    with assms(2,3) have "x \<notin> set us" "s \<noteq> Elem x" by auto
    with \<open>x \<in> set vs\<close> show "c' (Elem x) = c (Elem x)" by (intro assms(7)) simp_all
  qed
  ultimately show ?thesis using assms(6) by (simp add: links_append)
qed

lemma links_delete:
  assumes "links c s (us @ e # vs) q" and "distinct (us @ e # vs)" and "s \<notin> Elem ` set (us @ vs)"
    and "c' (end_slot s us) = Some (first_ptr vs q)"
    and "\<And>t. t \<in> spots s (us @ vs) \<Longrightarrow> t \<noteq> end_slot s us \<Longrightarrow> c' t = c t"
  shows "links c' s (us @ vs) q"
proof -
  have l: "links c s us (Some e)" "links c (Elem e) vs q" using assms(1) by (simp_all add: links_append)
  have "links c' s us (first_ptr vs q)" using assms by (intro links_redirect [OF l(1)]) auto
  moreover have "links c' (end_slot s us) vs q"
  proof (rule links_start [of c _ _ _ c', OF l(2) _, OF assms(4)])
    fix x assume "x \<in> set vs"
    with assms(2,3) have "x \<notin> set us" "s \<noteq> Elem x" by auto
    with \<open>x \<in> set vs\<close> show "c' (Elem x) = c (Elem x)" by (intro assms(5)) simp_all
  qed
  ultimately show ?thesis by (simp add: links_append)
qed

lemma backs_insert:
  assumes "backs b s (us @ vs)" and "distinct (us @ e # vs)" and "b' (Elem e) = Some (end_slot s us)"
    and "\<And>v ws. vs = v # ws \<Longrightarrow> b' (Elem v) = Some (Elem e)"
    and "\<And>x. x \<in> set us \<union> set (tl vs) \<Longrightarrow> b' (Elem x) = b (Elem x)"
  shows "backs b' s (us @ e # vs)"
proof -
  have "backs b' s us" using assms(1,5) backs_cong [of us b' b s] by auto
  moreover have "backs b' (Elem e) vs"
    by (rule backs_start [of b "end_slot s us"]) (use assms(1) in simp, rule assms(4), simp, rule assms(5), simp)
  ultimately show ?thesis using assms(3) by simp
qed

lemma backs_delete:
  assumes "backs b s (us @ e # vs)" and "distinct (us @ e # vs)"
    and "\<And>v ws. vs = v # ws \<Longrightarrow> b' (Elem v) = Some (end_slot s us)"
    and "\<And>x. x \<in> set us \<union> set (tl vs) \<Longrightarrow> b' (Elem x) = b (Elem x)"
  shows "backs b' s (us @ vs)"
proof -
  have "backs b' s us" using assms(1,4) backs_cong [of us b' b s] by auto
  moreover have "backs b' (end_slot s us) vs"
    by (rule backs_start [of b "Elem e"]) (use assms(1) in simp, rule assms(3), simp, rule assms(4), simp)
  ultimately show ?thesis by simp
qed

text \<open>The pointer of the first element of \<open>vs\<close> is redirected, if there is one.\<close>

fun upd_first :: "nat list \<Rightarrow> slot \<Rightarrow> (slot \<rightharpoonup> slot) \<Rightarrow> slot \<rightharpoonup> slot" where
  "upd_first [] l b = b"
| "upd_first (v # vs) l b = b(Elem v \<mapsto> l)"

lemma upd_first_other [simp]: "s \<notin> Elem ` set vs \<Longrightarrow> upd_first vs l b s = b s"
  "distinct vs \<Longrightarrow> x \<in> set (tl vs) \<Longrightarrow> upd_first vs l b (Elem x) = b (Elem x)"
  by (cases vs; auto)+

lemma upd_first_dom: "(\<And>x. x \<in> set vs \<Longrightarrow> Elem x \<in> dom b) \<Longrightarrow> dom (upd_first vs l b) = dom b"
  by (cases vs) auto

end
