(* ===== verification/Queue_Interface.thy ===== *)
theory Queue_Interface
  imports Queue_Memory
begin

text \<open>
  What the three kinds of queue of \<open>server/queue.h\<close> have in common, as interfaces: \<open>linked_queue\<close> for the
  operations every kind has, \<open>fifo_queue\<close> for the two that can insert at the end. The lemmas on
  traversals and on sequences of operations are proved once from the laws; the theories of the three
  kinds discharge the laws for the macros.
\<close>

section \<open>Frames\<close>

text \<open>From \<open>M\<close> to \<open>M'\<close> only the slots \<open>S\<close> change, and nothing is allocated or released.\<close>

definition touches :: "slot set \<Rightarrow> qmem \<Rightarrow> qmem \<Rightarrow> bool" where
  "touches S M M' \<longleftrightarrow> dom (cell M') = dom (cell M) \<and> dom (second M') = dom (second M) \<and>
     (\<forall>s. s \<notin> S \<longrightarrow> cell M' s = cell M s \<and> second M' s = second M s)"

text \<open>\<open>M\<close> and \<open>M'\<close> agree on the head \<open>h\<close> and the elements \<open>xs\<close>.\<close>

definition agree :: "nat \<Rightarrow> nat list \<Rightarrow> qmem \<Rightarrow> qmem \<Rightarrow> bool" where
  "agree h xs M M' \<longleftrightarrow> (\<forall>s \<in> spots (Head h) xs. cell M' s = cell M s \<and> second M' s = second M s)"

lemma touches_refl [simp]: "touches S M M"
  by (simp add: touches_def)

lemma touches_mono: "touches S M M' \<Longrightarrow> S \<subseteq> T \<Longrightarrow> touches T M M'"
  by (auto simp: touches_def)

lemma touches_trans: "touches S M M' \<Longrightarrow> touches T M' M'' \<Longrightarrow> touches (S \<union> T) M M''"
  by (simp add: touches_def)

lemma touches_agree: "touches S M M' \<Longrightarrow> S \<inter> spots (Head h) xs = {} \<Longrightarrow> agree h xs M M'"
  by (auto simp: touches_def agree_def)

lemma agree_Head: "agree h xs M M' \<Longrightarrow> cell M' (Head h) = cell M (Head h)" "agree h xs M M' \<Longrightarrow> second M' (Head h) = second M (Head h)"
  by (simp_all add: agree_def spots_def)

lemma agree_links: "agree h xs M M' \<Longrightarrow> links (cell M') (Head h) xs q = links (cell M) (Head h) xs q"
  by (rule links_cong) (simp add: agree_def)

lemma agree_backs: "agree h xs M M' \<Longrightarrow> backs (second M') s xs = backs (second M) s xs"
  by (rule backs_cong) (simp add: agree_def spots_def)

lemma agree_end_slot: "agree h xs M M' \<Longrightarrow> second M' (end_slot (Head h) xs) = second M (end_slot (Head h) xs)"
  by (simp add: agree_def)

text \<open>The release of an element: its memory is no longer allocated.\<close>

definition free_elem :: "qmem \<Rightarrow> nat \<Rightarrow> qmem" where
  "free_elem M e = M\<lparr>cell := (cell M)(Elem e := None), second := (second M)(Elem e := None)\<rparr>"

lemma free_elem_agree: "e \<notin> set xs \<Longrightarrow> agree h xs M (free_elem M e)"
  by (auto simp: free_elem_def agree_def spots_def)

lemma free_elem_simps [simp]: "cell (free_elem M e) = (cell M)(Elem e := None)" "second (free_elem M e) = (second M)(Elem e := None)"
  by (simp_all add: free_elem_def)

section \<open>Traversals\<close>

text \<open>
  A traversal does what \<open>visit\<close> says if the next pointer, read when the loop reads it, is the next element:
  after the body in the plain form, before it in the safe form.
\<close>

lemma for_each_visit:
  assumes "\<And>a vs s s1. J (a # vs) s \<Longrightarrow> body a s = Some (s1, False) \<Longrightarrow> step s1 (Some a) = Some (first_ptr vs None) \<and> J vs s1"
  shows "J vs s \<Longrightarrow> for_each step body (first_ptr vs None) s = visit body vs s"
proof (induction vs arbitrary: s)
  case Nil
  then show ?case by (simp add: for_each.simps)
next
  case (Cons a vs)
  show ?case
  proof (cases "body a s")
    case None
    then show ?thesis by (simp add: for_each.simps)
  next
    case (Some r)
    obtain s1 leave where r: "r = (s1, leave)" by force
    show ?thesis
    proof (cases leave)
      case True
      with Some r show ?thesis by (simp add: for_each.simps [of _ _ "Some a"])
    next
      case False
      with Some r assms [OF Cons.prems, of s1] Cons.IH [of s1] show ?thesis
        by (simp add: for_each.simps [of _ _ "Some a"])
    qed
  qed
qed

lemma for_each_safe_visit:
  assumes "\<And>a vs s. J (a # vs) s \<Longrightarrow> step s (Some a) = Some (first_ptr vs None)"
    and "\<And>a vs s s1. J (a # vs) s \<Longrightarrow> body a s = Some (s1, False) \<Longrightarrow> J vs s1"
  shows "J vs s \<Longrightarrow> for_each_safe step body (first_ptr vs None) s = visit body vs s"
proof (induction vs arbitrary: s)
  case Nil
  then show ?case by (simp add: for_each_safe.simps)
next
  case (Cons a vs)
  show ?case
  proof (cases "body a s")
    case None
    with assms(1) [OF Cons.prems] show ?thesis by (simp add: for_each_safe.simps [of _ _ "Some a"])
  next
    case (Some r)
    obtain s1 leave where r: "r = (s1, leave)" by force
    then show ?thesis
      using Some assms(1) [OF Cons.prems] assms(2) [OF Cons.prems, of s1] Cons.IH [of s1]
      by (cases leave) (simp_all add: for_each_safe.simps [of _ _ "Some a"])
  qed
qed

text \<open>A body that looks at every element and leaves the queue alone, and one that removes and releases it.\<close>

definition note_elem :: "nat \<Rightarrow> qmem \<times> nat list \<Rightarrow> ((qmem \<times> nat list) \<times> bool) option" where
  "note_elem a s = Some ((fst s, snd s @ [a]), False)"

definition drop_elem :: "(qmem \<Rightarrow> nat \<Rightarrow> qptr \<Rightarrow> qmem option) \<Rightarrow> nat \<Rightarrow> nat \<Rightarrow> qmem \<Rightarrow> (qmem \<times> bool) option" where
  "drop_elem remove h a M = do { M1 \<leftarrow> remove M h (Some a); Some (free_elem M1 a, False) }"

lemma visit_note: "visit note_elem xs (M, out) = Some ((M, out @ xs), None)"
  by (induction xs arbitrary: out) (simp_all add: note_elem_def)

section \<open>The common interface\<close>

primrec insert_each :: "(qmem \<Rightarrow> nat \<Rightarrow> qptr \<Rightarrow> qmem option) \<Rightarrow> nat \<Rightarrow> nat list \<Rightarrow> qmem \<Rightarrow> qmem option" where
  "insert_each ins h [] M = Some M"
| "insert_each ins h (e # es) M = do { M1 \<leftarrow> ins M h (Some e); insert_each ins h es M1 }"

locale linked_queue =
  fixes repr :: "qmem \<Rightarrow> nat \<Rightarrow> nat list \<Rightarrow> bool"
    and usable :: "qmem \<Rightarrow> nat \<Rightarrow> bool"
    and first :: "qmem \<Rightarrow> nat \<Rightarrow> qptr option"
    and nxt :: "qmem \<Rightarrow> qptr \<Rightarrow> qptr option"
    and insert_head :: "qmem \<Rightarrow> nat \<Rightarrow> qptr \<Rightarrow> qmem option"
    and remove :: "qmem \<Rightarrow> nat \<Rightarrow> qptr \<Rightarrow> qmem option"
  assumes repr_distinct: "repr M h xs \<Longrightarrow> distinct xs"
    and repr_agree: "agree h xs M M' \<Longrightarrow> repr M' h xs = repr M h xs"
    and usable_touches: "touches S M M' \<Longrightarrow> usable M' e = usable M e"
    and first_repr: "repr M h xs \<Longrightarrow> first M h = Some (first_ptr xs None)"
    and next_repr: "repr M h (us @ x # vs) \<Longrightarrow> nxt M (Some x) = Some (first_ptr vs None)"
    and next_freed: "cell M (Elem x) = None \<Longrightarrow> nxt M (Some x) = None"
    and insert_head_repr: "repr M h xs \<Longrightarrow> usable M e \<Longrightarrow> e \<notin> set xs \<Longrightarrow>
      \<exists>M'. insert_head M h (Some e) = Some M' \<and> repr M' h (e # xs) \<and> touches (spots (Head h) (e # xs)) M M'"
    and remove_repr: "repr M h (us @ x # vs) \<Longrightarrow>
      \<exists>M'. remove M h (Some x) = Some M' \<and> repr M' h (us @ vs) \<and> touches (spots (Head h) (us @ x # vs)) M M'"
begin

lemma repr_other:
  assumes "repr M g ys" and "touches (spots (Head h) xs) M M'" and "g \<noteq> h" and "set xs \<inter> set ys = {}"
  shows "repr M' g ys"
proof -
  have "agree g ys M M'" using assms(2-4) by (intro touches_agree) (auto simp: spots_def)
  with assms(1) repr_agree show ?thesis by blast
qed

text \<open>The traversal from an element on visits the rest of the queue, as long as the body keeps the queue.\<close>

lemma for_each_from:
  assumes keep: "\<And>a s s1. a \<in> set xs \<Longrightarrow> repr (mem s) h xs \<Longrightarrow> body a s = Some (s1, False) \<Longrightarrow> repr (mem s1) h xs"
    and "repr (mem s) h xs" and "xs = us @ vs"
  shows "for_each (\<lambda>s. nxt (mem s)) body (first_ptr vs None) s = visit body vs s"
proof (rule for_each_visit [where J = "\<lambda>vs s. repr (mem s) h xs \<and> (\<exists>us. xs = us @ vs)"])
  fix a vs s s1
  assume "repr (mem s) h xs \<and> (\<exists>us. xs = us @ a # vs)" and b: "body a s = Some (s1, False)"
  then obtain us where r: "repr (mem s) h xs" "xs = us @ a # vs" by blast
  with keep [OF _ r(1) b] have k: "repr (mem s1) h xs" by simp
  then show "nxt (mem s1) (Some a) = Some (first_ptr vs None) \<and> repr (mem s1) h xs \<and> (\<exists>us. xs = us @ vs)"
    using next_repr [of "mem s1" h us a vs] r(2) by (metis append.assoc append_Cons append_Nil)
qed (use assms(2,3) in blast)

lemma for_each_first:
  assumes "\<And>a s s1. a \<in> set xs \<Longrightarrow> repr (mem s) h xs \<Longrightarrow> body a s = Some (s1, False) \<Longrightarrow> repr (mem s1) h xs"
    and "repr (mem s) h xs"
  shows "do { p \<leftarrow> first (mem s) h; for_each (\<lambda>s. nxt (mem s)) body p s } = visit body xs s"
  using for_each_from [of xs mem h body s "[]" xs, OF assms(1) assms(2)] first_repr [OF assms(2)] by simp

lemma for_each_safe_from:
  assumes keep: "\<And>a s s1. a \<in> set xs \<Longrightarrow> repr (mem s) h xs \<Longrightarrow> body a s = Some (s1, False) \<Longrightarrow> repr (mem s1) h xs"
    and "repr (mem s) h xs" and "xs = us @ vs"
  shows "for_each_safe (\<lambda>s. nxt (mem s)) body (first_ptr vs None) s = visit body vs s"
proof (rule for_each_safe_visit [where J = "\<lambda>vs s. repr (mem s) h xs \<and> (\<exists>us. xs = us @ vs)"])
  show "nxt (mem s) (Some a) = Some (first_ptr vs None)" if "repr (mem s) h xs \<and> (\<exists>us. xs = us @ a # vs)" for a vs s
    using next_repr that by blast
  show "repr (mem s1) h xs \<and> (\<exists>us. xs = us @ vs)"
    if r: "repr (mem s) h xs \<and> (\<exists>us. xs = us @ a # vs)" and b: "body a s = Some (s1, False)" for a vs s s1
  proof -
    from r obtain us where us: "xs = us @ a # vs" by blast
    then have "xs = (us @ [a]) @ vs" by simp
    with keep [of a s s1] r b us show ?thesis by auto
  qed
qed (use assms(2,3) in blast)

lemma for_each_lists:
  "repr M h xs \<Longrightarrow> do { p \<leftarrow> first M h; for_each (\<lambda>s. nxt (fst s)) note_elem p (M, []) } = Some ((M, xs), None)"
  using for_each_first [of xs fst h note_elem "(M, [])"] by (auto simp: note_elem_def visit_note)

lemma lists_from:
  assumes "repr M h xs" and "xs = us @ vs"
  shows "for_each (\<lambda>s. nxt (fst s)) note_elem (first_ptr vs None) (M, []) = Some ((M, vs), None)"
    and "for_each_safe (\<lambda>s. nxt (fst s)) note_elem (first_ptr vs None) (M, []) = Some ((M, vs), None)"
  using for_each_from [of xs fst h note_elem "(M, [])" us vs] for_each_safe_from [of xs fst h note_elem "(M, [])" us vs] assms
  by (auto simp: note_elem_def visit_note)

text \<open>Removing and releasing every element on the way: the safe form ends with the empty queue, the plain form is undefined.\<close>

lemma drop_elem_repr:
  assumes "repr M h (a # xs)"
  shows "\<exists>M1. drop_elem remove h a M = Some (M1, False) \<and> repr M1 h xs \<and> cell M1 (Elem a) = None \<and>
    (\<forall>s. s \<notin> spots (Head h) (a # xs) \<longrightarrow> cell M1 s = cell M s \<and> second M1 s = second M s)"
proof -
  from remove_repr [of M h "[]"] assms obtain M1 where
    1: "remove M h (Some a) = Some M1" "repr M1 h xs" "touches (spots (Head h) (a # xs)) M M1" by auto
  have "a \<notin> set xs" using repr_distinct [OF assms] by simp
  with 1(2) have "repr (free_elem M1 a) h xs" using repr_agree free_elem_agree by blast
  with 1 show ?thesis by (auto simp: drop_elem_def touches_def spots_def)
qed

lemma visit_drop:
  "repr M h xs \<Longrightarrow> \<exists>M'. visit (drop_elem remove h) xs M = Some (M', None) \<and> repr M' h [] \<and>
    (\<forall>s. s \<notin> spots (Head h) xs \<longrightarrow> cell M' s = cell M s \<and> second M' s = second M s)"
proof (induction xs arbitrary: M)
  case (Cons a xs)
  from drop_elem_repr [OF Cons.prems] obtain M1 where
    1: "drop_elem remove h a M = Some (M1, False)" "repr M1 h xs"
       "\<And>s. s \<notin> spots (Head h) (a # xs) \<Longrightarrow> cell M1 s = cell M s \<and> second M1 s = second M s" by blast
  from Cons.IH [OF 1(2)] obtain M' where
    2: "visit (drop_elem remove h) xs M1 = Some (M', None)" "repr M' h []"
       "\<And>s. s \<notin> spots (Head h) xs \<Longrightarrow> cell M' s = cell M1 s \<and> second M' s = second M1 s" by blast
  have "cell M' s = cell M s \<and> second M' s = second M s" if "s \<notin> spots (Head h) (a # xs)" for s
    using that 1(3) [of s] 2(3) [of s] by (auto simp: spots_def)
  with 1 2 show ?case by auto
qed simp

lemma for_each_safe_drops:
  assumes "repr M h xs"
  shows "\<exists>M'. do { p \<leftarrow> first M h; for_each_safe nxt (drop_elem remove h) p M } = Some (M', None) \<and> repr M' h [] \<and>
    (\<forall>s. s \<notin> spots (Head h) xs \<longrightarrow> cell M' s = cell M s \<and> second M' s = second M s)"
proof -
  have "for_each_safe nxt (drop_elem remove h) (first_ptr xs None) M = visit (drop_elem remove h) xs M"
  proof (rule for_each_safe_visit [where J = "\<lambda>vs M. repr M h vs"])
    show "nxt M (Some a) = Some (first_ptr vs None)" if "repr M h (a # vs)" for a vs M
      using next_repr [of M h "[]"] that by simp
    show "repr M1 h vs" if "repr M h (a # vs)" "drop_elem remove h a M = Some (M1, False)" for a vs M M1
      using drop_elem_repr [OF that(1)] that(2) by auto
  qed (rule assms)
  with visit_drop [OF assms] first_repr [OF assms] show ?thesis by simp
qed

lemma for_each_drop_undefined:
  assumes "repr M h (x # xs)"
  shows "do { p \<leftarrow> first M h; for_each nxt (drop_elem remove h) p M } = None"
proof -
  from drop_elem_repr [OF assms] obtain M1 where
    "drop_elem remove h x M = Some (M1, False)" "cell M1 (Elem x) = None" by blast
  then show ?thesis using first_repr [OF assms] next_freed [of M1 x]
    by (simp add: for_each.simps [of _ _ "Some x"])
qed

text \<open>Elements that are inserted at the head one after another stand in the queue in the opposite order.\<close>

lemma insert_head_each:
  "repr M h xs \<Longrightarrow> \<forall>e \<in> set es. usable M e \<Longrightarrow> distinct es \<Longrightarrow> set es \<inter> set xs = {} \<Longrightarrow>
   \<exists>M'. insert_each insert_head h es M = Some M' \<and> repr M' h (rev es @ xs)"
proof (induction es arbitrary: M xs)
  case (Cons e es)
  from insert_head_repr [of M h xs e] Cons.prems obtain M1 where
    1: "insert_head M h (Some e) = Some M1" "repr M1 h (e # xs)" "touches (spots (Head h) (e # xs)) M M1" by auto
  have "\<forall>e \<in> set es. usable M1 e" using Cons.prems(2) usable_touches [OF 1(3)] by simp
  from Cons.IH [OF 1(2) this] Cons.prems(3,4) 1(1) show ?case by auto
qed simp

end

locale fifo_queue = linked_queue +
  fixes insert_tail :: "qmem \<Rightarrow> nat \<Rightarrow> qptr \<Rightarrow> qmem option"
    and last_elem :: "qmem \<Rightarrow> nat \<Rightarrow> qptr option"
  assumes insert_tail_repr: "repr M h xs \<Longrightarrow> usable M e \<Longrightarrow> e \<notin> set xs \<Longrightarrow>
      \<exists>M'. insert_tail M h (Some e) = Some M' \<and> repr M' h (xs @ [e]) \<and> touches (spots (Head h) (e # xs)) M M'"
    and last_repr: "repr M h xs \<Longrightarrow> last_elem M h = Some (if xs = [] then None else Some (last xs))"
begin

lemma insert_tail_each:
  "repr M h xs \<Longrightarrow> \<forall>e \<in> set es. usable M e \<Longrightarrow> distinct es \<Longrightarrow> set es \<inter> set xs = {} \<Longrightarrow>
   \<exists>M'. insert_each insert_tail h es M = Some M' \<and> repr M' h (xs @ es)"
proof (induction es arbitrary: M xs)
  case (Cons e es)
  from insert_tail_repr [of M h xs e] Cons.prems obtain M1 where
    1: "insert_tail M h (Some e) = Some M1" "repr M1 h (xs @ [e])" "touches (spots (Head h) (e # xs)) M M1" by auto
  have "\<forall>e \<in> set es. usable M1 e" using Cons.prems(2) usable_touches [OF 1(3)] by simp
  from Cons.IH [OF 1(2) this] Cons.prems(3,4) 1(1) show ?case by auto
qed simp

text \<open>First in, first out: a traversal meets the elements in the order in which they were inserted.\<close>

lemma fifo_order:
  assumes "repr M h xs" and "\<forall>e \<in> set es. usable M e" and "distinct es" and "set es \<inter> set xs = {}"
  shows "\<exists>M'. insert_each insert_tail h es M = Some M' \<and>
    do { p \<leftarrow> first M' h; for_each (\<lambda>s. nxt (fst s)) note_elem p (M', []) } = Some ((M', xs @ es), None)"
  using insert_tail_each [OF assms] for_each_lists by blast

end

end
