(* ===== verification/Stailq.thy ===== *)
theory Stailq
  imports Queue_Interface
begin

text \<open>
  The singly-linked tail queues of \<open>server/queue.h\<close>: a head has the link to the first element and the address of the
  last link (\<open>stqh_first\<close>, \<open>stqh_last\<close>), an element has one link (\<open>stqe_next\<close>). An assignment in a condition
  is written before the test.
\<close>

section \<open>The macros\<close>

definition STAILQ_HEAD_INITIALIZER :: "qmem \<Rightarrow> nat \<Rightarrow> qmem" where
  "STAILQ_HEAD_INITIALIZER M h = M\<lparr>cell := (cell M)(Head h \<mapsto> None), second := (second M)(Head h \<mapsto> Head h)\<rparr>"

definition STAILQ_FIRST :: "qmem \<Rightarrow> nat \<Rightarrow> qptr option" where
  "STAILQ_FIRST M h = get_cell M (Head h)"

definition STAILQ_EMPTY :: "qmem \<Rightarrow> nat \<Rightarrow> bool option" where
  "STAILQ_EMPTY M h = do { p \<leftarrow> get_cell M (Head h); Some (p = None) }"

definition STAILQ_NEXT :: "qmem \<Rightarrow> qptr \<Rightarrow> qptr option" where
  "STAILQ_NEXT M elm = do { l \<leftarrow> link_of elm; get_cell M l }"

definition STAILQ_INIT :: "qmem \<Rightarrow> nat \<Rightarrow> qmem option" where
  "STAILQ_INIT M h = do { M1 \<leftarrow> set_cell M (Head h) None; set_second M1 (Head h) (Head h) }"

definition STAILQ_CONCAT :: "qmem \<Rightarrow> nat \<Rightarrow> nat \<Rightarrow> qmem option" where
  "STAILQ_CONCAT M h1 h2 = do {
     empty \<leftarrow> STAILQ_EMPTY M h2;
     if \<not> empty then do {
       last1 \<leftarrow> get_second M (Head h1);
       first2 \<leftarrow> get_cell M (Head h2);
       M1 \<leftarrow> set_cell M last1 first2;
       last2 \<leftarrow> get_second M1 (Head h2);
       M2 \<leftarrow> set_second M1 (Head h1) last2;
       STAILQ_INIT M2 h2
     } else Some M
   }"

definition STAILQ_INSERT_AFTER :: "qmem \<Rightarrow> nat \<Rightarrow> qptr \<Rightarrow> qptr \<Rightarrow> qmem option" where
  "STAILQ_INSERT_AFTER M h tqelm elm = do {
     n \<leftarrow> STAILQ_NEXT M tqelm;
     e \<leftarrow> link_of elm;
     M1 \<leftarrow> set_cell M e n;
     M2 \<leftarrow> (if n = None then set_second M1 (Head h) e else Some M1);
     t \<leftarrow> link_of tqelm;
     set_cell M2 t elm
   }"

definition STAILQ_INSERT_HEAD :: "qmem \<Rightarrow> nat \<Rightarrow> qptr \<Rightarrow> qmem option" where
  "STAILQ_INSERT_HEAD M h elm = do {
     n \<leftarrow> STAILQ_FIRST M h;
     e \<leftarrow> link_of elm;
     M1 \<leftarrow> set_cell M e n;
     M2 \<leftarrow> (if n = None then set_second M1 (Head h) e else Some M1);
     set_cell M2 (Head h) elm
   }"

definition STAILQ_INSERT_TAIL :: "qmem \<Rightarrow> nat \<Rightarrow> qptr \<Rightarrow> qmem option" where
  "STAILQ_INSERT_TAIL M h elm = do {
     e \<leftarrow> link_of elm;
     M1 \<leftarrow> set_cell M e None;
     l \<leftarrow> get_second M1 (Head h);
     M2 \<leftarrow> set_cell M1 l elm;
     set_second M2 (Head h) e
   }"

definition STAILQ_LAST :: "qmem \<Rightarrow> nat \<Rightarrow> qptr option" where
  "STAILQ_LAST M h = do {
     empty \<leftarrow> STAILQ_EMPTY M h;
     if empty then Some None else do { l \<leftarrow> get_second M (Head h); containerof l }
   }"

definition STAILQ_REMOVE_AFTER :: "qmem \<Rightarrow> nat \<Rightarrow> qptr \<Rightarrow> qmem option" where
  "STAILQ_REMOVE_AFTER M h elm = do {
     n \<leftarrow> STAILQ_NEXT M elm;
     nn \<leftarrow> STAILQ_NEXT M n;
     e \<leftarrow> link_of elm;
     M1 \<leftarrow> set_cell M e nn;
     if nn = None then set_second M1 (Head h) e else Some M1
   }"

definition STAILQ_REMOVE_HEAD :: "qmem \<Rightarrow> nat \<Rightarrow> qmem option" where
  "STAILQ_REMOVE_HEAD M h = do {
     p \<leftarrow> STAILQ_FIRST M h;
     n \<leftarrow> STAILQ_NEXT M p;
     M1 \<leftarrow> set_cell M (Head h) n;
     if n = None then set_second M1 (Head h) (Head h) else Some M1
   }"

text \<open>The loop of \<open>STAILQ_REMOVE\<close> that looks for the element before \<open>elm\<close>.\<close>

partial_function (option) stailq_before :: "qmem \<Rightarrow> qptr \<Rightarrow> qptr \<Rightarrow> qptr option" where
  "stailq_before M curelm elm = do {
     n \<leftarrow> STAILQ_NEXT M curelm;
     if n \<noteq> elm then stailq_before M n elm else Some curelm
   }"

definition STAILQ_REMOVE :: "qmem \<Rightarrow> nat \<Rightarrow> qptr \<Rightarrow> qmem option" where
  "STAILQ_REMOVE M h elm = do {
     p \<leftarrow> STAILQ_FIRST M h;
     if p = elm then STAILQ_REMOVE_HEAD M h
     else do { curelm \<leftarrow> stailq_before M p elm; STAILQ_REMOVE_AFTER M h curelm }
   }"

definition stailq_fix_last :: "qmem \<Rightarrow> nat \<Rightarrow> qmem option" where
  "stailq_fix_last M h = do {
     empty \<leftarrow> STAILQ_EMPTY M h;
     if empty then set_second M (Head h) (Head h) else Some M
   }"

definition STAILQ_SWAP :: "qmem \<Rightarrow> nat \<Rightarrow> nat \<Rightarrow> qmem option" where
  "STAILQ_SWAP M h1 h2 = do {
     swap_first \<leftarrow> STAILQ_FIRST M h1;
     swap_last \<leftarrow> get_second M (Head h1);
     first2 \<leftarrow> STAILQ_FIRST M h2;
     M1 \<leftarrow> set_cell M (Head h1) first2;
     last2 \<leftarrow> get_second M1 (Head h2);
     M2 \<leftarrow> set_second M1 (Head h1) last2;
     M3 \<leftarrow> set_cell M2 (Head h2) swap_first;
     M4 \<leftarrow> set_second M3 (Head h2) swap_last;
     M5 \<leftarrow> stailq_fix_last M4 h1;
     stailq_fix_last M5 h2
   }"

definition STAILQ_FOREACH_FROM ::
  "('s \<Rightarrow> qmem) \<Rightarrow> (nat \<Rightarrow> 's \<Rightarrow> ('s \<times> bool) option) \<Rightarrow> qptr \<Rightarrow> nat \<Rightarrow> 's \<Rightarrow> ('s \<times> qptr) option" where
  "STAILQ_FOREACH_FROM mem body var h s = do {
     p \<leftarrow> (if var \<noteq> None then Some var else STAILQ_FIRST (mem s) h);
     for_each (\<lambda>s. STAILQ_NEXT (mem s)) body p s
   }"

definition STAILQ_FOREACH ::
  "('s \<Rightarrow> qmem) \<Rightarrow> (nat \<Rightarrow> 's \<Rightarrow> ('s \<times> bool) option) \<Rightarrow> nat \<Rightarrow> 's \<Rightarrow> ('s \<times> qptr) option" where
  "STAILQ_FOREACH mem body h s = do {
     p \<leftarrow> STAILQ_FIRST (mem s) h;
     for_each (\<lambda>s. STAILQ_NEXT (mem s)) body p s
   }"

definition STAILQ_FOREACH_FROM_SAFE ::
  "('s \<Rightarrow> qmem) \<Rightarrow> (nat \<Rightarrow> 's \<Rightarrow> ('s \<times> bool) option) \<Rightarrow> qptr \<Rightarrow> nat \<Rightarrow> 's \<Rightarrow> ('s \<times> qptr) option" where
  "STAILQ_FOREACH_FROM_SAFE mem body var h s = do {
     p \<leftarrow> (if var \<noteq> None then Some var else STAILQ_FIRST (mem s) h);
     for_each_safe (\<lambda>s. STAILQ_NEXT (mem s)) body p s
   }"

definition STAILQ_FOREACH_SAFE ::
  "('s \<Rightarrow> qmem) \<Rightarrow> (nat \<Rightarrow> 's \<Rightarrow> ('s \<times> bool) option) \<Rightarrow> nat \<Rightarrow> 's \<Rightarrow> ('s \<times> qptr) option" where
  "STAILQ_FOREACH_SAFE mem body h s = do {
     p \<leftarrow> STAILQ_FIRST (mem s) h;
     for_each_safe (\<lambda>s. STAILQ_NEXT (mem s)) body p s
   }"

section \<open>Well-formed queues\<close>

definition stailq :: "qmem \<Rightarrow> nat \<Rightarrow> nat list \<Rightarrow> bool" where
  "stailq M h xs \<longleftrightarrow> links (cell M) (Head h) xs None \<and> second M (Head h) = Some (end_slot (Head h) xs) \<and> distinct xs"

definition stailq_elem :: "qmem \<Rightarrow> nat \<Rightarrow> bool" where
  "stailq_elem M e \<longleftrightarrow> Elem e \<in> dom (cell M)"

lemmas stailq_simps = STAILQ_FIRST_def STAILQ_EMPTY_def STAILQ_NEXT_def STAILQ_INIT_def qmem_simps

lemma stailqD:
  assumes "stailq M h (us @ vs)"
  shows "cell M (Head h) = Some (first_ptr (us @ vs) None)" "cell M (end_slot (Head h) us) = Some (first_ptr vs None)"
    "second M (Head h) = Some (end_slot (Head h) (us @ vs))" "distinct (us @ vs)"
    "links (cell M) (Head h) (us @ vs) None" "x \<in> set (us @ vs) \<Longrightarrow> \<exists>n. cell M (Elem x) = Some n"
  using assms links_first [of "cell M" "Head h"] links_alloc [of "cell M" "Head h" "us @ vs" None "Elem x"]
  by (auto simp: stailq_def links_append links_first links_end spots_def)

lemma stailq_next: "stailq M h (us @ x # vs) \<Longrightarrow> cell M (Elem x) = Some (first_ptr vs None)"
  using stailqD(2) [of M h "us @ [x]" vs] by simp

text \<open>An element that is linked in behind \<open>us\<close>, and one that is linked out.\<close>

lemma stailq_link:
  assumes q: "stailq M h (us @ vs)" and e: "e \<notin> set (us @ vs)"
    and c: "cell M' = (cell M)(Elem e \<mapsto> first_ptr vs None, end_slot (Head h) us \<mapsto> Some e)"
    and s: "second M' = (if vs = [] then (second M)(Head h \<mapsto> Elem e) else second M)"
  shows "stailq M' h (us @ e # vs)"
proof -
  have "links (cell M') (Head h) (us @ e # vs) None"
    using stailqD(4) [OF q] e by (intro links_insert [OF stailqD(5) [OF q]]) (auto simp: c spots_def)
  moreover have "second M' (Head h) = Some (end_slot (Head h) (us @ e # vs))"
    using stailqD(3) [OF q] by (cases vs) (auto simp: s)
  ultimately show ?thesis using stailqD(4) [OF q] e by (simp add: stailq_def)
qed

lemma stailq_unlink:
  assumes q: "stailq M h (us @ e # vs)"
    and c: "cell M' = (cell M)(end_slot (Head h) us \<mapsto> first_ptr vs None)"
    and s: "second M' = (if vs = [] then (second M)(Head h \<mapsto> end_slot (Head h) us) else second M)"
  shows "stailq M' h (us @ vs)"
proof -
  have "links (cell M') (Head h) (us @ vs) None"
    using stailqD(4) [OF q] by (intro links_delete [OF stailqD(5) [OF q]]) (auto simp: c spots_def)
  moreover have "second M' (Head h) = Some (end_slot (Head h) (us @ vs))"
    using stailqD(3) [OF q] by (cases vs) (auto simp: s)
  ultimately show ?thesis using stailqD(4) [OF q] by (simp add: stailq_def)
qed

lemma stailq_init:
  "STAILQ_INIT M h = Some M' \<Longrightarrow> stailq M' h [] \<and> touches {Head h} M M'"
  by (auto simp: stailq_simps stailq_def touches_def split: if_splits)

lemma stailq_insert_after:
  assumes q: "stailq M h (us @ x # vs)" and "stailq_elem M e" and "e \<notin> set (us @ x # vs)"
  shows "\<exists>M'. STAILQ_INSERT_AFTER M h (Some x) (Some e) = Some M' \<and> stailq M' h (us @ x # e # vs) \<and>
    touches (spots (Head h) (e # us @ x # vs)) M M'"
proof -
  let ?M = "M\<lparr>cell := (cell M)(Elem e \<mapsto> first_ptr vs None, Elem x \<mapsto> Some e),
    second := if vs = [] then (second M)(Head h \<mapsto> Elem e) else second M\<rparr>"
  have "STAILQ_INSERT_AFTER M h (Some x) (Some e) = Some ?M"
    using assms(2,3) stailq_next [OF q] stailqD(3) [OF q]
    by (auto simp: STAILQ_INSERT_AFTER_def stailq_simps stailq_elem_def)
  moreover have "stailq ?M h ((us @ [x]) @ e # vs)" using q assms(3) by (intro stailq_link [of M]) auto
  moreover have "touches (spots (Head h) (e # us @ x # vs)) M ?M"
    using assms(2) stailq_next [OF q] stailqD(3) [OF q] by (auto simp: touches_def spots_def stailq_elem_def)
  ultimately show ?thesis by auto
qed

lemma stailq_insert_head:
  assumes q: "stailq M h xs" and "stailq_elem M e" and "e \<notin> set xs"
  shows "\<exists>M'. STAILQ_INSERT_HEAD M h (Some e) = Some M' \<and> stailq M' h (e # xs) \<and>
    touches (spots (Head h) (e # xs)) M M'"
proof -
  note q' = stailqD [of M h "[]" xs, simplified, OF q]
  let ?M = "M\<lparr>cell := (cell M)(Elem e \<mapsto> first_ptr xs None, Head h \<mapsto> Some e),
    second := if xs = [] then (second M)(Head h \<mapsto> Elem e) else second M\<rparr>"
  have "STAILQ_INSERT_HEAD M h (Some e) = Some ?M"
    using assms(2,3) q'(1,3) by (auto simp: STAILQ_INSERT_HEAD_def stailq_simps stailq_elem_def)
  moreover have "stailq ?M h ([] @ e # xs)" using assms by (intro stailq_link [of M]) auto
  moreover have "touches (spots (Head h) (e # xs)) M ?M"
    using assms(2) q'(1,3) by (auto simp: touches_def spots_def stailq_elem_def)
  ultimately show ?thesis by auto
qed

lemma stailq_insert_tail:
  assumes q: "stailq M h xs" and "stailq_elem M e" and "e \<notin> set xs"
  shows "\<exists>M'. STAILQ_INSERT_TAIL M h (Some e) = Some M' \<and> stailq M' h (xs @ [e]) \<and>
    touches (spots (Head h) (e # xs)) M M'"
proof -
  note q' = stailqD [of M h xs "[]", simplified, OF q]
  let ?M = "M\<lparr>cell := (cell M)(Elem e \<mapsto> None, end_slot (Head h) xs \<mapsto> Some e), second := (second M)(Head h \<mapsto> Elem e)\<rparr>"
  have "STAILQ_INSERT_TAIL M h (Some e) = Some ?M"
    using assms(2,3) q'(1-3) by (auto simp: STAILQ_INSERT_TAIL_def stailq_simps stailq_elem_def)
  moreover have "stailq ?M h (xs @ [e])" using assms by (intro stailq_link [of M]) auto
  moreover have "touches (spots (Head h) (e # xs)) M ?M"
    using assms(2) q'(2,3) by (auto simp: touches_def spots_def stailq_elem_def end_slot_last)
  ultimately show ?thesis by auto
qed

lemma stailq_remove_after:
  assumes q: "stailq M h (us @ x # y # vs)"
  shows "\<exists>M'. STAILQ_REMOVE_AFTER M h (Some x) = Some M' \<and> stailq M' h (us @ x # vs) \<and>
    touches (spots (Head h) (us @ x # y # vs)) M M'"
proof -
  note x = stailq_next [OF q] and y = stailq_next [of M h "us @ [x]" y vs, simplified, OF q] and q' = stailqD(3) [OF q]
  let ?M = "M\<lparr>cell := (cell M)(Elem x \<mapsto> first_ptr vs None),
    second := if vs = [] then (second M)(Head h \<mapsto> Elem x) else second M\<rparr>"
  have "STAILQ_REMOVE_AFTER M h (Some x) = Some ?M"
    using x y q' by (auto simp: STAILQ_REMOVE_AFTER_def stailq_simps)
  moreover have "stailq ?M h ((us @ [x]) @ vs)" by (rule stailq_unlink [of M h "us @ [x]" y vs]) (simp_all add: q)
  moreover have "touches (spots (Head h) (us @ x # y # vs)) M ?M"
    using x q' by (auto simp: touches_def spots_def)
  ultimately show ?thesis by auto
qed

lemma stailq_remove_head:
  assumes q: "stailq M h (x # xs)"
  shows "\<exists>M'. STAILQ_REMOVE_HEAD M h = Some M' \<and> stailq M' h xs \<and> touches (spots (Head h) (x # xs)) M M'"
proof -
  note q' = stailqD [of M h "[]" "x # xs", simplified, OF q] and x = stailq_next [of M h "[]", simplified, OF q]
  let ?M = "M\<lparr>cell := (cell M)(Head h \<mapsto> first_ptr xs None),
    second := if xs = [] then (second M)(Head h \<mapsto> Head h) else second M\<rparr>"
  have "STAILQ_REMOVE_HEAD M h = Some ?M"
    using q'(1,3) x by (auto simp: STAILQ_REMOVE_HEAD_def stailq_simps)
  moreover have "stailq ?M h ([] @ xs)" by (rule stailq_unlink [of M h "[]" x xs]) (simp_all add: q)
  moreover have "touches (spots (Head h) (x # xs)) M ?M" using q'(1,3) by (auto simp: touches_def spots_def)
  ultimately show ?thesis by auto
qed

lemma stailq_before_finds:
  "links (cell M) (Elem a) (us @ y # vs) q \<Longrightarrow> y \<notin> set us \<Longrightarrow>
   stailq_before M (Some a) (Some y) = Some (Some (last (a # us)))"
  by (induction us arbitrary: a) (auto simp: stailq_before.simps [of M "Some _"] stailq_simps)

lemma stailq_remove:
  assumes q: "stailq M h (us @ x # vs)"
  shows "\<exists>M'. STAILQ_REMOVE M h (Some x) = Some M' \<and> stailq M' h (us @ vs) \<and> touches (spots (Head h) (us @ x # vs)) M M'"
proof (cases us rule: rev_cases)
  case Nil
  with q have "STAILQ_REMOVE M h (Some x) = STAILQ_REMOVE_HEAD M h"
    using stailqD(1) [OF q] by (simp add: STAILQ_REMOVE_def stailq_simps)
  with stailq_remove_head [of M h x vs] q Nil show ?thesis by simp
next
  case (snoc ws w)
  then obtain a bs where us: "us = a # bs" by (meson neq_Nil_conv snoc_eq_iff_butlast)
  from stailqD(4) [OF q] us have "a \<noteq> x" "x \<notin> set bs" by auto
  moreover have "links (cell M) (Elem a) (bs @ x # vs) None" using stailqD(5) [OF q] us by simp
  moreover have "last (a # bs) = w" using snoc us by (metis last_snoc)
  ultimately have "STAILQ_REMOVE M h (Some x) = STAILQ_REMOVE_AFTER M h (Some w)"
    using stailqD(1) [OF q] us stailq_before_finds [of M a bs x vs] by (simp add: STAILQ_REMOVE_def stailq_simps)
  with stailq_remove_after [of M h ws w x vs] q snoc show ?thesis by simp
qed

lemma stailq_last: "stailq M h xs \<Longrightarrow> STAILQ_LAST M h = Some (if xs = [] then None else Some (last xs))"
  using stailqD [of M h "[]" xs] by (auto simp: STAILQ_LAST_def stailq_simps end_slot_last)

text \<open>The elements of a queue get another head.\<close>

lemma stailq_move:
  assumes q: "stailq M g ys" and "cell M' (Head h) = Some (first_ptr ys None)" and "second M' (Head h) = Some (end_slot (Head h) ys)"
    and "\<And>x. x \<in> set ys \<Longrightarrow> cell M' (Elem x) = cell M (Elem x)"
  shows "stailq M' h ys"
  using assms links_start [of "cell M" "Head g" ys None "cell M'" "Head h"] by (simp add: stailq_def)

lemma end_slot_start: "ys \<noteq> [] \<Longrightarrow> end_slot s ys = end_slot t ys"
  by (simp add: end_slot_last)

lemma stailq_concat:
  assumes x: "stailq M h xs" and y: "stailq M g ys" and hg: "h \<noteq> g" and d: "set xs \<inter> set ys = {}"
  shows "\<exists>M'. STAILQ_CONCAT M h g = Some M' \<and> stailq M' h (xs @ ys) \<and> stailq M' g [] \<and>
    touches (spots (Head h) xs \<union> spots (Head g) ys) M M'"
proof (cases "ys = []")
  case True
  with stailqD(1) [of M g "[]" ys] x y show ?thesis by (simp add: STAILQ_CONCAT_def stailq_simps)
next
  case False
  note x' = stailqD [of M h xs "[]", simplified, OF x] and y' = stailqD [of M g "[]" ys, simplified, OF y]
  let ?M = "M\<lparr>cell := (cell M)(end_slot (Head h) xs \<mapsto> first_ptr ys None, Head g \<mapsto> None),
    second := (second M)(Head h \<mapsto> end_slot (Head g) ys, Head g \<mapsto> Head g)\<rparr>"
  have "STAILQ_CONCAT M h g = Some ?M"
    using x'(1-3) y'(1-3) hg False by (auto simp: STAILQ_CONCAT_def stailq_simps)
  moreover have "links (cell ?M) (Head h) xs (first_ptr ys None)"
    using hg by (intro links_redirect [OF x'(5) x'(4)]) (auto simp: spots_def)
  moreover have "links (cell ?M) (end_slot (Head h) xs) ys None"
    using d hg by (intro links_start [OF y'(5)]) (auto simp: end_slot_last disjoint_iff)
  moreover have "end_slot (Head g) ys = end_slot (end_slot (Head h) xs) ys" by (rule end_slot_start [OF False])
  ultimately have "STAILQ_CONCAT M h g = Some ?M \<and> stailq ?M h (xs @ ys) \<and> stailq ?M g []"
    using x'(4) y'(4) d hg by (simp add: stailq_def links_append)
  moreover have "touches (spots (Head h) xs \<union> spots (Head g) ys) M ?M"
    using x'(1-3) y'(1,3) by (auto simp: touches_def spots_def end_slot_last)
  ultimately show ?thesis by blast
qed

lemma stailq_swap:
  assumes x: "stailq M h xs" and y: "stailq M g ys" and hg: "h \<noteq> g"
  shows "\<exists>M'. STAILQ_SWAP M h g = Some M' \<and> stailq M' h ys \<and> stailq M' g xs \<and> touches {Head h, Head g} M M'"
proof -
  note x' = stailqD [of M h "[]" xs, simplified, OF x] and y' = stailqD [of M g "[]" ys, simplified, OF y]
  let ?M = "M\<lparr>cell := (cell M)(Head h \<mapsto> first_ptr ys None, Head g \<mapsto> first_ptr xs None),
    second := (second M)(Head h \<mapsto> end_slot (Head h) ys, Head g \<mapsto> end_slot (Head g) xs)\<rparr>"
  have "STAILQ_SWAP M h g = Some ?M"
    using x'(1,3) y'(1,3) hg
    by (cases xs; cases ys) (auto simp: STAILQ_SWAP_def stailq_fix_last_def stailq_simps fun_eq_iff)
  moreover have "stailq ?M h ys" using hg by (intro stailq_move [OF y]) auto
  moreover have "stailq ?M g xs" using hg by (intro stailq_move [OF x]) auto
  moreover have "touches {Head h, Head g} M ?M" using x'(1,3) y'(1,3) by (auto simp: touches_def)
  ultimately show ?thesis by blast
qed

section \<open>The interface and the contract\<close>

interpretation stq: fifo_queue stailq stailq_elem STAILQ_FIRST STAILQ_NEXT STAILQ_INSERT_HEAD STAILQ_REMOVE
  STAILQ_INSERT_TAIL STAILQ_LAST
proof unfold_locales
  show "distinct xs" if "stailq M h xs" for M h xs using that by (simp add: stailq_def)
  show "stailq M' h xs = stailq M h xs" if "agree h xs M M'" for M M' h xs
    using that by (simp add: stailq_def agree_links agree_Head)
  show "stailq_elem M' e = stailq_elem M e" if "touches S M M'" for S M M' e
    using that by (simp add: stailq_elem_def touches_def)
  show "STAILQ_FIRST M h = Some (first_ptr xs None)" if "stailq M h xs" for M h xs
    using stailqD(1) [of M h "[]" xs] that by (simp add: stailq_simps)
  show "STAILQ_NEXT M (Some x) = Some (first_ptr vs None)" if "stailq M h (us @ x # vs)" for M h us x vs
    using stailq_next [OF that] by (simp add: stailq_simps)
qed (simp_all add: stailq_simps stailq_insert_head stailq_insert_tail stailq_remove stailq_last)

text \<open>
  C30. The macros of the singly-linked tail queues on two separate well-formed queues and an element of neither: inserting at the
  head, at the tail or behind an element, removing an element, the first one or the one behind an element, joining
  two queues and exchanging them are always defined and give well-formed queues with exactly the expected
  elements in the expected order; the queries give the expected elements; and no memory outside the queues
  and the element named changes.
\<close>

theorem stailq_macros_correct:
  assumes "stailq M h xs" and "stailq M g ys" and "h \<noteq> g" and "set xs \<inter> set ys = {}" and "stailq_elem M e" and "e \<notin> set xs"
  shows "(\<exists>M'. STAILQ_INSERT_HEAD M h (Some e) = Some M' \<and> stailq M' h (e # xs) \<and> touches (spots (Head h) (e # xs)) M M') \<and>
    (\<exists>M'. STAILQ_INSERT_TAIL M h (Some e) = Some M' \<and> stailq M' h (xs @ [e]) \<and> touches (spots (Head h) (e # xs)) M M') \<and>
    (\<forall>us x vs. xs = us @ x # vs \<longrightarrow>
      (\<exists>M'. STAILQ_INSERT_AFTER M h (Some x) (Some e) = Some M' \<and> stailq M' h (us @ x # e # vs) \<and>
        touches (spots (Head h) (e # xs)) M M') \<and>
      (\<exists>M'. STAILQ_REMOVE M h (Some x) = Some M' \<and> stailq M' h (us @ vs) \<and> touches (spots (Head h) xs) M M')) \<and>
    (\<forall>x vs. xs = x # vs \<longrightarrow>
      (\<exists>M'. STAILQ_REMOVE_HEAD M h = Some M' \<and> stailq M' h vs \<and> touches (spots (Head h) xs) M M')) \<and>
    (\<forall>us x y vs. xs = us @ x # y # vs \<longrightarrow>
      (\<exists>M'. STAILQ_REMOVE_AFTER M h (Some x) = Some M' \<and> stailq M' h (us @ x # vs) \<and> touches (spots (Head h) xs) M M')) \<and>
    (\<exists>M'. STAILQ_CONCAT M h g = Some M' \<and> stailq M' h (xs @ ys) \<and> stailq M' g [] \<and>
      touches (spots (Head h) xs \<union> spots (Head g) ys) M M') \<and>
    (\<exists>M'. STAILQ_SWAP M h g = Some M' \<and> stailq M' h ys \<and> stailq M' g xs \<and> touches {Head h, Head g} M M') \<and>
    STAILQ_EMPTY M h = Some (xs = []) \<and> STAILQ_LAST M h = Some (if xs = [] then None else Some (last xs)) \<and>
    (\<exists>M'. STAILQ_INIT M h = Some M' \<and> stailq M' h []) \<and> stailq (STAILQ_HEAD_INITIALIZER M h) h []"
proof (intro conjI allI impI)
  show "stailq (STAILQ_HEAD_INITIALIZER M h) h []" by (simp add: STAILQ_HEAD_INITIALIZER_def stailq_def)
  show "STAILQ_EMPTY M h = Some (xs = [])" using stailqD(1) [of M h "[]" xs] assms(1) by (simp add: stailq_simps)
  show "\<exists>M'. STAILQ_INIT M h = Some M' \<and> stailq M' h []"
    using stailqD(1,3) [of M h "[]" xs] assms(1) by (simp add: stailq_simps stailq_def)
qed (use assms stailq_insert_head stailq_insert_tail stailq_concat stailq_swap stailq_last in
  \<open>auto intro!: stailq_insert_after [simplified] stailq_remove [simplified] stailq_remove_after [simplified]
    stailq_remove_head [simplified]\<close>)

theorem stailq_macros_correct_witness:
  "\<exists>M'. STAILQ_CONCAT \<lparr>cell = [Head 0 \<mapsto> Some 10, Elem 10 \<mapsto> None, Head 1 \<mapsto> Some 11, Elem 11 \<mapsto> None, Elem 12 \<mapsto> Some 7],
      second = [Head 0 \<mapsto> Elem 10, Head 1 \<mapsto> Elem 11]\<rparr> 0 1 = Some M' \<and> stailq M' 0 [10, 11]"
proof -
  let ?M = "\<lparr>cell = [Head 0 \<mapsto> Some 10, Elem 10 \<mapsto> None, Head 1 \<mapsto> Some 11, Elem 11 \<mapsto> None, Elem 12 \<mapsto> Some 7],
      second = [Head 0 \<mapsto> Elem 10, Head 1 \<mapsto> Elem 11]\<rparr>"
  have "stailq ?M 0 [10]" "stailq ?M 1 [11]" "(0 :: nat) \<noteq> 1" "set [10] \<inter> set [11 :: nat] = {}" "stailq_elem ?M 12"
    "12 \<notin> set [10 :: nat]" by (simp_all add: stailq_def stailq_elem_def)
  from stailq_macros_correct [OF this] show ?thesis by auto
qed

end
