(* ===== verification/Linked_List.thy ===== *)
theory Linked_List
  imports Queue_Interface
begin

text \<open>
  The lists of \<open>server/queue.h\<close>: a head has the link to the first element (\<open>lh_first\<close>), an element the link to
  the next one and the address of the link that leads to it (\<open>le_next\<close>, \<open>le_prev\<close>). The checks that a kernel
  build with \<open>INVARIANTS\<close> makes are definitions of their own; elsewhere they expand to nothing.
\<close>

section \<open>The macros\<close>

definition LIST_HEAD_INITIALIZER :: "qmem \<Rightarrow> nat \<Rightarrow> qmem" where
  "LIST_HEAD_INITIALIZER M h = M\<lparr>cell := (cell M)(Head h \<mapsto> None)\<rparr>"

definition LIST_FIRST :: "qmem \<Rightarrow> nat \<Rightarrow> qptr option" where
  "LIST_FIRST M h = get_cell M (Head h)"

definition LIST_EMPTY :: "qmem \<Rightarrow> nat \<Rightarrow> bool option" where
  "LIST_EMPTY M h = do { p \<leftarrow> get_cell M (Head h); Some (p = None) }"

definition LIST_NEXT :: "qmem \<Rightarrow> qptr \<Rightarrow> qptr option" where
  "LIST_NEXT M elm = do { l \<leftarrow> link_of elm; get_cell M l }"

definition LIST_INIT :: "qmem \<Rightarrow> nat \<Rightarrow> qmem option" where
  "LIST_INIT M h = set_cell M (Head h) None"

text \<open>\<open>p->field.le_prev\<close> of a pointer \<open>p\<close>, and the assignment to it.\<close>

definition le_prev :: "qmem \<Rightarrow> qptr \<Rightarrow> slot option" where
  "le_prev M p = do { l \<leftarrow> link_of p; get_second M l }"

definition set_le_prev :: "qmem \<Rightarrow> qptr \<Rightarrow> slot \<Rightarrow> qmem option" where
  "set_le_prev M p v = do { l \<leftarrow> link_of p; set_second M l v }"

text \<open>The checks: \<open>Some False\<close> is the call of \<open>panic\<close>.\<close>

definition QMD_LIST_CHECK_HEAD :: "qmem \<Rightarrow> nat \<Rightarrow> bool option" where
  "QMD_LIST_CHECK_HEAD M h = do {
     p \<leftarrow> LIST_FIRST M h;
     if p \<noteq> None then do { l \<leftarrow> le_prev M p; Some (l = Head h) } else Some True
   }"

definition QMD_LIST_CHECK_NEXT :: "qmem \<Rightarrow> qptr \<Rightarrow> bool option" where
  "QMD_LIST_CHECK_NEXT M elm = do {
     n \<leftarrow> LIST_NEXT M elm;
     if n \<noteq> None then do { l \<leftarrow> le_prev M n; e \<leftarrow> link_of elm; Some (l = e) } else Some True
   }"

definition QMD_LIST_CHECK_PREV :: "qmem \<Rightarrow> qptr \<Rightarrow> bool option" where
  "QMD_LIST_CHECK_PREV M elm = do { l \<leftarrow> le_prev M elm; p \<leftarrow> get_cell M l; Some (p = elm) }"

text \<open>The loop of \<open>LIST_CONCAT\<close> that looks for the last element.\<close>

partial_function (option) list_end :: "qmem \<Rightarrow> qptr \<Rightarrow> qptr option" where
  "list_end M curelm = do {
     n \<leftarrow> LIST_NEXT M curelm;
     if n \<noteq> None then list_end M n else Some curelm
   }"

definition LIST_CONCAT :: "qmem \<Rightarrow> nat \<Rightarrow> nat \<Rightarrow> qmem option" where
  "LIST_CONCAT M h1 h2 = do {
     curelm \<leftarrow> LIST_FIRST M h1;
     first2 \<leftarrow> LIST_FIRST M h2;
     if curelm = None then do {
       M1 \<leftarrow> set_cell M (Head h1) first2;
       if first2 \<noteq> None then do {
         p \<leftarrow> LIST_FIRST M1 h2;
         M2 \<leftarrow> set_le_prev M1 p (Head h1);
         LIST_INIT M2 h2
       } else Some M1
     } else if first2 \<noteq> None then do {
       curelm \<leftarrow> list_end M curelm;
       l \<leftarrow> link_of curelm;
       M1 \<leftarrow> set_cell M l first2;
       p \<leftarrow> LIST_FIRST M1 h2;
       M2 \<leftarrow> set_le_prev M1 p l;
       LIST_INIT M2 h2
     } else Some M
   }"

definition LIST_INSERT_AFTER :: "qmem \<Rightarrow> qptr \<Rightarrow> qptr \<Rightarrow> qmem option" where
  "LIST_INSERT_AFTER M listelm elm = do {
     n \<leftarrow> LIST_NEXT M listelm;
     e \<leftarrow> link_of elm;
     M1 \<leftarrow> set_cell M e n;
     M2 \<leftarrow> (if n \<noteq> None then do { n' \<leftarrow> LIST_NEXT M1 listelm; set_le_prev M1 n' e } else Some M1);
     l \<leftarrow> link_of listelm;
     M3 \<leftarrow> set_cell M2 l elm;
     set_le_prev M3 elm l
   }"

definition LIST_INSERT_BEFORE :: "qmem \<Rightarrow> qptr \<Rightarrow> qptr \<Rightarrow> qmem option" where
  "LIST_INSERT_BEFORE M listelm elm = do {
     p \<leftarrow> le_prev M listelm;
     M1 \<leftarrow> set_le_prev M elm p;
     e \<leftarrow> link_of elm;
     M2 \<leftarrow> set_cell M1 e listelm;
     p' \<leftarrow> le_prev M2 listelm;
     M3 \<leftarrow> set_cell M2 p' elm;
     set_le_prev M3 listelm e
   }"

definition LIST_INSERT_HEAD :: "qmem \<Rightarrow> nat \<Rightarrow> qptr \<Rightarrow> qmem option" where
  "LIST_INSERT_HEAD M h elm = do {
     n \<leftarrow> LIST_FIRST M h;
     e \<leftarrow> link_of elm;
     M1 \<leftarrow> set_cell M e n;
     M2 \<leftarrow> (if n \<noteq> None then do { n' \<leftarrow> LIST_FIRST M1 h; set_le_prev M1 n' e } else Some M1);
     M3 \<leftarrow> set_cell M2 (Head h) elm;
     set_le_prev M3 elm (Head h)
   }"

definition LIST_PREV :: "qmem \<Rightarrow> qptr \<Rightarrow> nat \<Rightarrow> qptr option" where
  "LIST_PREV M elm h = do {
     l \<leftarrow> le_prev M elm;
     if l = Head h then Some None else containerof l
   }"

definition LIST_REMOVE :: "qmem \<Rightarrow> qptr \<Rightarrow> qmem option" where
  "LIST_REMOVE M elm = do {
     n \<leftarrow> LIST_NEXT M elm;
     l \<leftarrow> le_prev M elm;
     M1 \<leftarrow> (if n \<noteq> None then set_le_prev M n l else Some M);
     l' \<leftarrow> le_prev M1 elm;
     n' \<leftarrow> LIST_NEXT M1 elm;
     set_cell M1 l' n'
   }"

definition LIST_SWAP :: "qmem \<Rightarrow> nat \<Rightarrow> nat \<Rightarrow> qmem option" where
  "LIST_SWAP M h1 h2 = do {
     swap_tmp \<leftarrow> LIST_FIRST M h1;
     first2 \<leftarrow> LIST_FIRST M h2;
     M1 \<leftarrow> set_cell M (Head h1) first2;
     M2 \<leftarrow> set_cell M1 (Head h2) swap_tmp;
     p1 \<leftarrow> LIST_FIRST M2 h1;
     M3 \<leftarrow> (if p1 \<noteq> None then set_le_prev M2 p1 (Head h1) else Some M2);
     p2 \<leftarrow> LIST_FIRST M3 h2;
     if p2 \<noteq> None then set_le_prev M3 p2 (Head h2) else Some M3
   }"

definition LIST_FOREACH_FROM ::
  "('s \<Rightarrow> qmem) \<Rightarrow> (nat \<Rightarrow> 's \<Rightarrow> ('s \<times> bool) option) \<Rightarrow> qptr \<Rightarrow> nat \<Rightarrow> 's \<Rightarrow> ('s \<times> qptr) option" where
  "LIST_FOREACH_FROM mem body var h s = do {
     p \<leftarrow> (if var \<noteq> None then Some var else LIST_FIRST (mem s) h);
     for_each (\<lambda>s. LIST_NEXT (mem s)) body p s
   }"

definition LIST_FOREACH ::
  "('s \<Rightarrow> qmem) \<Rightarrow> (nat \<Rightarrow> 's \<Rightarrow> ('s \<times> bool) option) \<Rightarrow> nat \<Rightarrow> 's \<Rightarrow> ('s \<times> qptr) option" where
  "LIST_FOREACH mem body h s = do {
     p \<leftarrow> LIST_FIRST (mem s) h;
     for_each (\<lambda>s. LIST_NEXT (mem s)) body p s
   }"

definition LIST_FOREACH_FROM_SAFE ::
  "('s \<Rightarrow> qmem) \<Rightarrow> (nat \<Rightarrow> 's \<Rightarrow> ('s \<times> bool) option) \<Rightarrow> qptr \<Rightarrow> nat \<Rightarrow> 's \<Rightarrow> ('s \<times> qptr) option" where
  "LIST_FOREACH_FROM_SAFE mem body var h s = do {
     p \<leftarrow> (if var \<noteq> None then Some var else LIST_FIRST (mem s) h);
     for_each_safe (\<lambda>s. LIST_NEXT (mem s)) body p s
   }"

definition LIST_FOREACH_SAFE ::
  "('s \<Rightarrow> qmem) \<Rightarrow> (nat \<Rightarrow> 's \<Rightarrow> ('s \<times> bool) option) \<Rightarrow> nat \<Rightarrow> 's \<Rightarrow> ('s \<times> qptr) option" where
  "LIST_FOREACH_SAFE mem body h s = do {
     p \<leftarrow> LIST_FIRST (mem s) h;
     for_each_safe (\<lambda>s. LIST_NEXT (mem s)) body p s
   }"

section \<open>Well-formed lists\<close>

definition dlist :: "qmem \<Rightarrow> nat \<Rightarrow> nat list \<Rightarrow> bool" where
  "dlist M h xs \<longleftrightarrow> links (cell M) (Head h) xs None \<and> backs (second M) (Head h) xs \<and> distinct xs"

definition dlist_elem :: "qmem \<Rightarrow> nat \<Rightarrow> bool" where
  "dlist_elem M e \<longleftrightarrow> Elem e \<in> dom (cell M) \<and> Elem e \<in> dom (second M)"

lemmas dlist_simps = LIST_FIRST_def LIST_EMPTY_def LIST_NEXT_def LIST_INIT_def le_prev_def set_le_prev_def qmem_simps

lemma dlistD:
  assumes "dlist M h (us @ vs)"
  shows "cell M (Head h) = Some (first_ptr (us @ vs) None)" "cell M (end_slot (Head h) us) = Some (first_ptr vs None)"
    "distinct (us @ vs)" "links (cell M) (Head h) (us @ vs) None" "backs (second M) (Head h) (us @ vs)"
  using assms links_first [of "cell M" "Head h"] by (auto simp: dlist_def links_append links_first links_end)

lemma dlist_at:
  assumes "dlist M h (us @ x # vs)"
  shows "cell M (Elem x) = Some (first_ptr vs None)" "second M (Elem x) = Some (end_slot (Head h) us)"
    "vs = v # ws \<Longrightarrow> second M (Elem v) = Some (Elem x)"
  using dlistD(2) [of M h "us @ [x]" vs] dlistD(5) [OF assms] assms by auto

text \<open>An element that is linked in between \<open>us\<close> and \<open>vs\<close>, and one that is linked out.\<close>

lemma dlist_link:
  assumes q: "dlist M h (us @ vs)" and e: "e \<notin> set (us @ vs)"
    and c: "cell M' = (cell M)(Elem e \<mapsto> first_ptr vs None, end_slot (Head h) us \<mapsto> Some e)"
    and s: "second M' (Elem e) = Some (end_slot (Head h) us)" "\<And>v ws. vs = v # ws \<Longrightarrow> second M' (Elem v) = Some (Elem e)"
      "\<And>x. x \<in> set us \<union> set (tl vs) \<Longrightarrow> second M' (Elem x) = second M (Elem x)"
  shows "dlist M' h (us @ e # vs)"
proof -
  have d: "distinct (us @ e # vs)" using dlistD(3) [OF q] e by auto
  have "links (cell M') (Head h) (us @ e # vs) None"
    using d e by (intro links_insert [OF dlistD(4) [OF q]]) (auto simp: c spots_def)
  moreover have "backs (second M') (Head h) (us @ e # vs)" by (rule backs_insert [OF dlistD(5) [OF q] d s])
  ultimately show ?thesis using d by (simp add: dlist_def)
qed

lemma dlist_unlink:
  assumes q: "dlist M h (us @ e # vs)"
    and c: "cell M' = (cell M)(end_slot (Head h) us \<mapsto> first_ptr vs None)"
    and s: "\<And>v ws. vs = v # ws \<Longrightarrow> second M' (Elem v) = Some (end_slot (Head h) us)"
      "\<And>x. x \<in> set us \<union> set (tl vs) \<Longrightarrow> second M' (Elem x) = second M (Elem x)"
  shows "dlist M' h (us @ vs)"
proof -
  note d = dlistD(3) [OF q]
  have "links (cell M') (Head h) (us @ vs) None"
    using d by (intro links_delete [OF dlistD(4) [OF q]]) (auto simp: c spots_def)
  moreover have "backs (second M') (Head h) (us @ vs)" by (rule backs_delete [OF dlistD(5) [OF q] d s])
  ultimately show ?thesis using d by (simp add: dlist_def)
qed

lemma dlist_insert_after:
  assumes q: "dlist M h (us @ x # vs)" and a: "dlist_elem M e" and e: "e \<notin> set (us @ x # vs)"
  shows "\<exists>M'. LIST_INSERT_AFTER M (Some x) (Some e) = Some M' \<and> dlist M' h (us @ x # e # vs) \<and>
    touches (spots (Head h) (e # us @ x # vs)) M M'"
proof -
  note x = dlist_at [OF q] and d = dlistD(3) [OF q]
  let ?M = "M\<lparr>cell := (cell M)(Elem e \<mapsto> first_ptr vs None, Elem x \<mapsto> Some e),
    second := (upd_first vs (Elem e) (second M))(Elem e \<mapsto> Elem x)\<rparr>"
  have "LIST_INSERT_AFTER M (Some x) (Some e) = Some ?M"
    using a e x by (cases vs) (auto simp: LIST_INSERT_AFTER_def dlist_simps dlist_elem_def)
  moreover have "dlist ?M h ((us @ [x]) @ e # vs)"
    using q e d by (intro dlist_link [of M]) (cases vs; auto)+
  moreover have "touches (spots (Head h) (e # us @ x # vs)) M ?M"
    using a x backs_alloc [OF dlistD(5) [OF q]]
    by (cases vs) (auto simp: touches_def spots_def dlist_elem_def)
  ultimately show ?thesis by auto
qed

lemma dlist_insert_before:
  assumes q: "dlist M h (us @ x # vs)" and a: "dlist_elem M e" and e: "e \<notin> set (us @ x # vs)"
  shows "\<exists>M'. LIST_INSERT_BEFORE M (Some x) (Some e) = Some M' \<and> dlist M' h (us @ e # x # vs) \<and>
    touches (spots (Head h) (e # us @ x # vs)) M M'"
proof -
  note x = dlist_at [OF q] dlistD(2) [OF q] and d = dlistD(3) [OF q]
  let ?M = "M\<lparr>cell := (cell M)(Elem e \<mapsto> Some x, end_slot (Head h) us \<mapsto> Some e),
    second := (second M)(Elem e \<mapsto> end_slot (Head h) us, Elem x \<mapsto> Elem e)\<rparr>"
  have "LIST_INSERT_BEFORE M (Some x) (Some e) = Some ?M"
    using a e x by (auto simp: LIST_INSERT_BEFORE_def dlist_simps dlist_elem_def)
  moreover have "dlist ?M h (us @ e # x # vs)"
    by (rule dlist_link [OF q]) (use e d in auto)
  moreover have "touches (spots (Head h) (e # us @ x # vs)) M ?M"
    using a x by (auto simp: touches_def spots_def dlist_elem_def end_slot_last)
  ultimately show ?thesis by auto
qed

lemma dlist_insert_head:
  assumes q: "dlist M h xs" and a: "dlist_elem M e" and e: "e \<notin> set xs"
  shows "\<exists>M'. LIST_INSERT_HEAD M h (Some e) = Some M' \<and> dlist M' h (e # xs) \<and> touches (spots (Head h) (e # xs)) M M'"
proof -
  note q' = dlistD [of M h "[]" xs, simplified, OF q]
  let ?M = "M\<lparr>cell := (cell M)(Elem e \<mapsto> first_ptr xs None, Head h \<mapsto> Some e),
    second := (upd_first xs (Elem e) (second M))(Elem e \<mapsto> Head h)\<rparr>"
  have "LIST_INSERT_HEAD M h (Some e) = Some ?M"
    using a e q'(1,5) by (cases xs) (auto simp: LIST_INSERT_HEAD_def dlist_simps dlist_elem_def)
  moreover have "dlist ?M h ([] @ e # xs)"
    using q e q'(3) by (intro dlist_link [of M]) (cases xs; auto)+
  moreover have "touches (spots (Head h) (e # xs)) M ?M"
    using a q'(1,5) by (cases xs) (auto simp: touches_def spots_def dlist_elem_def)
  ultimately show ?thesis by auto
qed

lemma dlist_remove:
  assumes q: "dlist M h (us @ x # vs)"
  shows "\<exists>M'. LIST_REMOVE M (Some x) = Some M' \<and> dlist M' h (us @ vs) \<and> touches (spots (Head h) (us @ x # vs)) M M'"
proof -
  note x = dlist_at [OF q] dlistD(2) [OF q] and d = dlistD(3) [OF q]
  let ?M = "M\<lparr>cell := (cell M)(end_slot (Head h) us \<mapsto> first_ptr vs None),
    second := upd_first vs (end_slot (Head h) us) (second M)\<rparr>"
  have "LIST_REMOVE M (Some x) = Some ?M"
    using x d by (cases vs) (auto simp: LIST_REMOVE_def dlist_simps)
  moreover have "dlist ?M h (us @ vs)"
    by (rule dlist_unlink [OF q]) (use d in \<open>cases vs; auto\<close>)+
  moreover have "touches (spots (Head h) (us @ x # vs)) M ?M"
    using x by (cases vs) (auto simp: touches_def spots_def end_slot_last)
  ultimately show ?thesis by auto
qed

lemma dlist_prev: "dlist M h (us @ x # vs) \<Longrightarrow> LIST_PREV M (Some x) h = Some (if us = [] then None else Some (last us))"
  using dlist_at(2) [of M h us x vs] by (auto simp: LIST_PREV_def dlist_simps end_slot_last)

lemma dlist_checks:
  assumes "dlist M h (us @ x # vs)"
  shows "QMD_LIST_CHECK_NEXT M (Some x) = Some True" "QMD_LIST_CHECK_PREV M (Some x) = Some True"
  using dlist_at [OF assms] dlistD(2) [OF assms]
  by (cases vs; auto simp: QMD_LIST_CHECK_NEXT_def QMD_LIST_CHECK_PREV_def dlist_simps)+

lemma dlist_check_head: "dlist M h xs \<Longrightarrow> QMD_LIST_CHECK_HEAD M h = Some True"
  by (cases xs) (auto simp: QMD_LIST_CHECK_HEAD_def dlist_simps dlist_def)

lemma list_end_finds: "links (cell M) (Elem a) xs None \<Longrightarrow> list_end M (Some a) = Some (Some (last (a # xs)))"
  by (induction xs arbitrary: a) (auto simp: list_end.simps [of M "Some _"] dlist_simps)

text \<open>The elements of a list continue the chain \<open>xs\<close> of another head, or get that head when \<open>xs\<close> is empty.\<close>

lemma dlist_join:
  assumes x: "dlist M h xs" and y: "dlist M g ys" and hg: "h \<noteq> g" and d: "set xs \<inter> set ys = {}"
    and c: "cell M' = (cell M)(end_slot (Head h) xs \<mapsto> first_ptr ys None, Head g \<mapsto> None)"
    and s: "second M' = upd_first ys (end_slot (Head h) xs) (second M)"
  shows "dlist M' h (xs @ ys)" "dlist M' g []" "touches (spots (Head h) xs \<union> spots (Head g) ys) M M'"
proof -
  note x' = dlistD [of M h xs "[]", simplified, OF x] and y' = dlistD [of M g "[]" ys, simplified, OF y]
  have "links (cell M') (Head h) xs (first_ptr ys None)"
    using hg by (intro links_redirect [OF x'(4) x'(3)]) (auto simp: c spots_def)
  moreover have "links (cell M') (end_slot (Head h) xs) ys None"
    using d hg by (intro links_start [OF y'(4)]) (auto simp: c end_slot_last disjoint_iff)
  moreover have "backs (second M') (Head h) xs"
    using x'(5) d by (subst backs_cong [of xs "second M'" "second M"]) (auto simp: s disjoint_iff image_iff)
  moreover have "backs (second M') (end_slot (Head h) xs) ys"
    by (rule backs_start [OF y'(5)]) (use y'(3) in \<open>auto simp: s\<close>)
  ultimately show "dlist M' h (xs @ ys)" using x'(3) y'(3) d by (simp add: dlist_def links_append)
  show "dlist M' g []" by (simp add: dlist_def c)
  have "dom (second M') = dom (second M)" unfolding s using backs_alloc [OF y'(5)] by (intro upd_first_dom) auto
  then show "touches (spots (Head h) xs \<union> spots (Head g) ys) M M'"
    using x'(1,2) y'(1) by (auto simp: touches_def spots_def c s end_slot_last)
qed

lemma dlist_concat:
  assumes x: "dlist M h xs" and y: "dlist M g ys" and hg: "h \<noteq> g" and d: "set xs \<inter> set ys = {}"
  shows "\<exists>M'. LIST_CONCAT M h g = Some M' \<and> dlist M' h (xs @ ys) \<and> dlist M' g [] \<and>
    touches (spots (Head h) xs \<union> spots (Head g) ys) M M'"
proof -
  note x' = dlistD [of M h xs "[]", simplified, OF x] and y' = dlistD [of M g "[]" ys, simplified, OF y]
  let ?M = "M\<lparr>cell := (cell M)(end_slot (Head h) xs \<mapsto> first_ptr ys None, Head g \<mapsto> None),
    second := upd_first ys (end_slot (Head h) xs) (second M)\<rparr>"
  have "LIST_CONCAT M h g = Some ?M"
  proof (cases "xs = [] \<or> ys = []")
    case True
    then show ?thesis using x'(1,2) y'(1,5) hg
      by (cases xs; cases ys) (auto simp: LIST_CONCAT_def dlist_simps fun_upd_idem)
  next
    case False
    then obtain a as b bs where ab: "xs = a # as" "ys = b # bs" by (auto simp: neq_Nil_conv)
    with x'(4) have "list_end M (Some a) = Some (Some (last xs))" using list_end_finds [of M a as] by simp
    moreover have "end_slot (Head h) xs = Elem (last xs)" using False by (simp add: end_slot_last)
    ultimately show ?thesis using x'(1,2) y'(1,5) hg ab
      by (auto simp: LIST_CONCAT_def dlist_simps)
  qed
  with dlist_join [OF assms, of ?M] show ?thesis by simp
qed

lemma dlist_move:
  assumes q: "dlist M g ys" and "cell M' (Head h) = Some (first_ptr ys None)"
    and "\<And>x. x \<in> set ys \<Longrightarrow> cell M' (Elem x) = cell M (Elem x)"
    and "\<And>v ws. ys = v # ws \<Longrightarrow> second M' (Elem v) = Some (Head h)"
    and "\<And>x. x \<in> set (tl ys) \<Longrightarrow> second M' (Elem x) = second M (Elem x)"
  shows "dlist M' h ys"
  using q links_start [of "cell M" "Head g" ys None "cell M'" "Head h", OF _ assms(2,3)]
    backs_start [of "second M" "Head g" ys "second M'" "Head h", OF _ assms(4,5)] by (simp add: dlist_def)

lemma dlist_swap:
  assumes x: "dlist M h xs" and y: "dlist M g ys" and hg: "h \<noteq> g" and d: "set xs \<inter> set ys = {}"
  shows "\<exists>M'. LIST_SWAP M h g = Some M' \<and> dlist M' h ys \<and> dlist M' g xs \<and>
    touches (spots (Head h) xs \<union> spots (Head g) ys) M M'"
proof -
  note x' = dlistD [of M h "[]" xs, simplified, OF x] and y' = dlistD [of M g "[]" ys, simplified, OF y]
  let ?M = "M\<lparr>cell := (cell M)(Head h \<mapsto> first_ptr ys None, Head g \<mapsto> first_ptr xs None),
    second := upd_first xs (Head g) (upd_first ys (Head h) (second M))\<rparr>"
  have "LIST_SWAP M h g = Some ?M"
    using x'(1,5) y'(1,5) hg by (cases xs; cases ys) (auto simp: LIST_SWAP_def dlist_simps)
  moreover have "dlist ?M h ys"
    by (rule dlist_move [OF y]) (use hg d y'(3) in \<open>cases ys; cases xs; auto\<close>)+
  moreover have "dlist ?M g xs"
    by (rule dlist_move [OF x]) (use hg d x'(3) in \<open>cases ys; cases xs; auto\<close>)+
  moreover have "touches (spots (Head h) xs \<union> spots (Head g) ys) M ?M"
    using x'(1,5) y'(1,5) by (cases xs; cases ys) (auto simp: touches_def spots_def)
  ultimately show ?thesis by blast
qed

section \<open>The interface and the contract\<close>

interpretation dl: linked_queue dlist dlist_elem LIST_FIRST LIST_NEXT LIST_INSERT_HEAD "\<lambda>M h. LIST_REMOVE M"
proof unfold_locales
  show "distinct xs" if "dlist M h xs" for M h xs using that by (simp add: dlist_def)
  show "dlist M' h xs = dlist M h xs" if "agree h xs M M'" for M M' h xs
    using that by (simp add: dlist_def agree_links agree_backs)
  show "dlist_elem M' e = dlist_elem M e" if "touches S M M'" for S M M' e
    using that by (simp add: dlist_elem_def touches_def)
  show "LIST_FIRST M h = Some (first_ptr xs None)" if "dlist M h xs" for M h xs
    using dlistD(1) [of M h "[]" xs] that by (simp add: dlist_simps)
  show "LIST_NEXT M (Some x) = Some (first_ptr vs None)" if "dlist M h (us @ x # vs)" for M h us x vs
    using dlist_at(1) [OF that] by (simp add: dlist_simps)
qed (simp_all add: dlist_simps dlist_insert_head dlist_remove)

text \<open>
  C29. The macros of the doubly-linked lists on two separate well-formed lists and an element of neither: inserting at
  the head, behind or before an element, removing an element without a traversal, joining two lists and
  exchanging them are always defined, give well-formed lists, forwards and backwards, with exactly the expected
  elements in the expected order, and change no memory outside the lists and the element named; the element
  before another is found; and the consistency checks of a kernel build pass on every well-formed list.
\<close>

theorem list_macros_correct:
  assumes "dlist M h xs" and "dlist M g ys" and "h \<noteq> g" and "set xs \<inter> set ys = {}" and "dlist_elem M e" and "e \<notin> set xs"
  shows "(\<exists>M'. LIST_INSERT_HEAD M h (Some e) = Some M' \<and> dlist M' h (e # xs) \<and> touches (spots (Head h) (e # xs)) M M') \<and>
    (\<forall>us x vs. xs = us @ x # vs \<longrightarrow>
      (\<exists>M'. LIST_INSERT_AFTER M (Some x) (Some e) = Some M' \<and> dlist M' h (us @ x # e # vs) \<and>
        touches (spots (Head h) (e # xs)) M M') \<and>
      (\<exists>M'. LIST_INSERT_BEFORE M (Some x) (Some e) = Some M' \<and> dlist M' h (us @ e # x # vs) \<and>
        touches (spots (Head h) (e # xs)) M M') \<and>
      (\<exists>M'. LIST_REMOVE M (Some x) = Some M' \<and> dlist M' h (us @ vs) \<and> touches (spots (Head h) xs) M M') \<and>
      LIST_PREV M (Some x) h = Some (if us = [] then None else Some (last us)) \<and>
      QMD_LIST_CHECK_NEXT M (Some x) = Some True \<and> QMD_LIST_CHECK_PREV M (Some x) = Some True) \<and>
    (\<exists>M'. LIST_CONCAT M h g = Some M' \<and> dlist M' h (xs @ ys) \<and> dlist M' g [] \<and>
      touches (spots (Head h) xs \<union> spots (Head g) ys) M M') \<and>
    (\<exists>M'. LIST_SWAP M h g = Some M' \<and> dlist M' h ys \<and> dlist M' g xs \<and>
      touches (spots (Head h) xs \<union> spots (Head g) ys) M M') \<and>
    LIST_EMPTY M h = Some (xs = []) \<and> QMD_LIST_CHECK_HEAD M h = Some True \<and>
    (\<exists>M'. LIST_INIT M h = Some M' \<and> dlist M' h []) \<and> dlist (LIST_HEAD_INITIALIZER M h) h []"
proof (intro conjI allI impI)
  show "dlist (LIST_HEAD_INITIALIZER M h) h []" by (simp add: LIST_HEAD_INITIALIZER_def dlist_def)
  show "LIST_EMPTY M h = Some (xs = [])" using dlistD(1) [of M h "[]" xs] assms(1) by (simp add: dlist_simps)
  show "LIST_PREV M (Some x) h = Some (if us = [] then None else Some (last us))" if "xs = us @ x # vs" for us x vs
    using dlist_prev assms(1) that by blast
  show "\<exists>M'. LIST_INIT M h = Some M' \<and> dlist M' h []"
    using dlistD(1) [of M h "[]" xs] assms(1) by (simp add: dlist_simps dlist_def)
qed (use assms dlist_insert_head dlist_concat dlist_swap dlist_check_head in
  \<open>auto intro!: dlist_insert_after [simplified] dlist_insert_before [simplified] dlist_remove [simplified]
    dlist_checks\<close>)

theorem list_macros_correct_witness:
  "\<exists>M'. LIST_CONCAT \<lparr>cell = [Head 0 \<mapsto> Some 10, Elem 10 \<mapsto> None, Head 1 \<mapsto> Some 11, Elem 11 \<mapsto> None, Elem 12 \<mapsto> Some 7],
      second = [Elem 10 \<mapsto> Head 0, Elem 11 \<mapsto> Head 1, Elem 12 \<mapsto> Head 7]\<rparr> 0 1 = Some M' \<and> dlist M' 0 [10, 11]"
proof -
  let ?M = "\<lparr>cell = [Head 0 \<mapsto> Some 10, Elem 10 \<mapsto> None, Head 1 \<mapsto> Some 11, Elem 11 \<mapsto> None, Elem 12 \<mapsto> Some 7],
      second = [Elem 10 \<mapsto> Head 0, Elem 11 \<mapsto> Head 1, Elem 12 \<mapsto> Head 7]\<rparr>"
  have "dlist ?M 0 [10]" "dlist ?M 1 [11]" "(0 :: nat) \<noteq> 1" "set [10] \<inter> set [11 :: nat] = {}" "dlist_elem ?M 12"
    "12 \<notin> set [10 :: nat]" by (simp_all add: dlist_def dlist_elem_def)
  from list_macros_correct [OF this] show ?thesis by auto
qed

end
