(* ===== verification/Tailq.thy ===== *)
theory Tailq
  imports Linked_List
begin

text \<open>
  The tail queues of \<open>server/queue.h\<close>: a head has the link to the first element and the address of the last link
  (\<open>tqh_first\<close>, \<open>tqh_last\<close>), an element the link to the next one and the address of the link that leads to
  it (\<open>tqe_next\<close>, \<open>tqe_prev\<close>). \<open>TAILQ_LAST\<close> and \<open>TAILQ_PREV\<close> read the structure that starts with the link a
  pointer names as a head, be it a head or the entry of an element, and follow its second pointer.
  A well-formed tail queue is a well-formed list whose head knows the last link, so the lemmas of the lists serve here too.
\<close>

section \<open>The macros\<close>

definition TAILQ_HEAD_INITIALIZER :: "qmem \<Rightarrow> nat \<Rightarrow> qmem" where
  "TAILQ_HEAD_INITIALIZER M h = M\<lparr>cell := (cell M)(Head h \<mapsto> None), second := (second M)(Head h \<mapsto> Head h)\<rparr>"

definition TAILQ_FIRST :: "qmem \<Rightarrow> nat \<Rightarrow> qptr option" where
  "TAILQ_FIRST M h = get_cell M (Head h)"

definition TAILQ_EMPTY :: "qmem \<Rightarrow> nat \<Rightarrow> bool option" where
  "TAILQ_EMPTY M h = do { p \<leftarrow> get_cell M (Head h); Some (p = None) }"

definition TAILQ_NEXT :: "qmem \<Rightarrow> qptr \<Rightarrow> qptr option" where
  "TAILQ_NEXT M elm = do { l \<leftarrow> link_of elm; get_cell M l }"

definition TAILQ_INIT :: "qmem \<Rightarrow> nat \<Rightarrow> qmem option" where
  "TAILQ_INIT M h = do { M1 \<leftarrow> set_cell M (Head h) None; set_second M1 (Head h) (Head h) }"

text \<open>\<open>p->field.tqe_prev\<close> of a pointer \<open>p\<close>, and the assignment to it.\<close>

definition tqe_prev :: "qmem \<Rightarrow> qptr \<Rightarrow> slot option" where
  "tqe_prev M p = do { l \<leftarrow> link_of p; get_second M l }"

definition set_tqe_prev :: "qmem \<Rightarrow> qptr \<Rightarrow> slot \<Rightarrow> qmem option" where
  "set_tqe_prev M p v = do { l \<leftarrow> link_of p; set_second M l v }"

definition TAILQ_LAST :: "qmem \<Rightarrow> nat \<Rightarrow> qptr option" where
  "TAILQ_LAST M h = do { l \<leftarrow> get_second M (Head h); l' \<leftarrow> get_second M l; get_cell M l' }"

definition TAILQ_PREV :: "qmem \<Rightarrow> qptr \<Rightarrow> qptr option" where
  "TAILQ_PREV M elm = do { l \<leftarrow> tqe_prev M elm; l' \<leftarrow> get_second M l; get_cell M l' }"

text \<open>The checks of a kernel build with \<open>INVARIANTS\<close>: \<open>Some False\<close> is the call of \<open>panic\<close>.\<close>

definition QMD_TAILQ_CHECK_HEAD :: "qmem \<Rightarrow> nat \<Rightarrow> bool option" where
  "QMD_TAILQ_CHECK_HEAD M h = do {
     empty \<leftarrow> TAILQ_EMPTY M h;
     if \<not> empty then do { p \<leftarrow> TAILQ_FIRST M h; l \<leftarrow> tqe_prev M p; Some (l = Head h) } else Some True
   }"

definition QMD_TAILQ_CHECK_TAIL :: "qmem \<Rightarrow> nat \<Rightarrow> bool option" where
  "QMD_TAILQ_CHECK_TAIL M h = do { l \<leftarrow> get_second M (Head h); p \<leftarrow> get_cell M l; Some (p = None) }"

definition QMD_TAILQ_CHECK_NEXT :: "qmem \<Rightarrow> qptr \<Rightarrow> bool option" where
  "QMD_TAILQ_CHECK_NEXT M elm = do {
     n \<leftarrow> TAILQ_NEXT M elm;
     if n \<noteq> None then do { l \<leftarrow> tqe_prev M n; e \<leftarrow> link_of elm; Some (l = e) } else Some True
   }"

definition QMD_TAILQ_CHECK_PREV :: "qmem \<Rightarrow> qptr \<Rightarrow> bool option" where
  "QMD_TAILQ_CHECK_PREV M elm = do { l \<leftarrow> tqe_prev M elm; p \<leftarrow> get_cell M l; Some (p = elm) }"

definition TAILQ_CONCAT :: "qmem \<Rightarrow> nat \<Rightarrow> nat \<Rightarrow> qmem option" where
  "TAILQ_CONCAT M h1 h2 = do {
     empty \<leftarrow> TAILQ_EMPTY M h2;
     if \<not> empty then do {
       last1 \<leftarrow> get_second M (Head h1);
       first2 \<leftarrow> TAILQ_FIRST M h2;
       M1 \<leftarrow> set_cell M last1 first2;
       p \<leftarrow> TAILQ_FIRST M1 h2;
       l \<leftarrow> get_second M1 (Head h1);
       M2 \<leftarrow> set_tqe_prev M1 p l;
       last2 \<leftarrow> get_second M2 (Head h2);
       M3 \<leftarrow> set_second M2 (Head h1) last2;
       TAILQ_INIT M3 h2
     } else Some M
   }"

definition TAILQ_INSERT_AFTER :: "qmem \<Rightarrow> nat \<Rightarrow> qptr \<Rightarrow> qptr \<Rightarrow> qmem option" where
  "TAILQ_INSERT_AFTER M h listelm elm = do {
     n \<leftarrow> TAILQ_NEXT M listelm;
     e \<leftarrow> link_of elm;
     M1 \<leftarrow> set_cell M e n;
     M2 \<leftarrow> (if n \<noteq> None then do { n' \<leftarrow> TAILQ_NEXT M1 elm; set_tqe_prev M1 n' e } else set_second M1 (Head h) e);
     l \<leftarrow> link_of listelm;
     M3 \<leftarrow> set_cell M2 l elm;
     set_tqe_prev M3 elm l
   }"

definition TAILQ_INSERT_BEFORE :: "qmem \<Rightarrow> qptr \<Rightarrow> qptr \<Rightarrow> qmem option" where
  "TAILQ_INSERT_BEFORE M listelm elm = do {
     p \<leftarrow> tqe_prev M listelm;
     M1 \<leftarrow> set_tqe_prev M elm p;
     e \<leftarrow> link_of elm;
     M2 \<leftarrow> set_cell M1 e listelm;
     p' \<leftarrow> tqe_prev M2 listelm;
     M3 \<leftarrow> set_cell M2 p' elm;
     set_tqe_prev M3 listelm e
   }"

definition TAILQ_INSERT_HEAD :: "qmem \<Rightarrow> nat \<Rightarrow> qptr \<Rightarrow> qmem option" where
  "TAILQ_INSERT_HEAD M h elm = do {
     n \<leftarrow> TAILQ_FIRST M h;
     e \<leftarrow> link_of elm;
     M1 \<leftarrow> set_cell M e n;
     M2 \<leftarrow> (if n \<noteq> None then do { n' \<leftarrow> TAILQ_FIRST M1 h; set_tqe_prev M1 n' e } else set_second M1 (Head h) e);
     M3 \<leftarrow> set_cell M2 (Head h) elm;
     set_tqe_prev M3 elm (Head h)
   }"

definition TAILQ_INSERT_TAIL :: "qmem \<Rightarrow> nat \<Rightarrow> qptr \<Rightarrow> qmem option" where
  "TAILQ_INSERT_TAIL M h elm = do {
     e \<leftarrow> link_of elm;
     M1 \<leftarrow> set_cell M e None;
     l \<leftarrow> get_second M1 (Head h);
     M2 \<leftarrow> set_tqe_prev M1 elm l;
     l' \<leftarrow> get_second M2 (Head h);
     M3 \<leftarrow> set_cell M2 l' elm;
     set_second M3 (Head h) e
   }"

definition TAILQ_REMOVE :: "qmem \<Rightarrow> nat \<Rightarrow> qptr \<Rightarrow> qmem option" where
  "TAILQ_REMOVE M h elm = do {
     n \<leftarrow> TAILQ_NEXT M elm;
     l \<leftarrow> tqe_prev M elm;
     M1 \<leftarrow> (if n \<noteq> None then set_tqe_prev M n l else set_second M (Head h) l);
     l' \<leftarrow> tqe_prev M1 elm;
     n' \<leftarrow> TAILQ_NEXT M1 elm;
     set_cell M1 l' n'
   }"

text \<open>The end of \<open>TAILQ_SWAP\<close> for one head: its first element points back to it, or the head to itself.\<close>

definition tailq_fix_head :: "qmem \<Rightarrow> nat \<Rightarrow> qmem option" where
  "tailq_fix_head M h = do {
     swap_first \<leftarrow> TAILQ_FIRST M h;
     if swap_first \<noteq> None then set_tqe_prev M swap_first (Head h) else set_second M (Head h) (Head h)
   }"

definition TAILQ_SWAP :: "qmem \<Rightarrow> nat \<Rightarrow> nat \<Rightarrow> qmem option" where
  "TAILQ_SWAP M h1 h2 = do {
     swap_first \<leftarrow> TAILQ_FIRST M h1;
     swap_last \<leftarrow> get_second M (Head h1);
     first2 \<leftarrow> TAILQ_FIRST M h2;
     M1 \<leftarrow> set_cell M (Head h1) first2;
     last2 \<leftarrow> get_second M1 (Head h2);
     M2 \<leftarrow> set_second M1 (Head h1) last2;
     M3 \<leftarrow> set_cell M2 (Head h2) swap_first;
     M4 \<leftarrow> set_second M3 (Head h2) swap_last;
     M5 \<leftarrow> tailq_fix_head M4 h1;
     tailq_fix_head M5 h2
   }"

definition TAILQ_FOREACH_FROM ::
  "('s \<Rightarrow> qmem) \<Rightarrow> (nat \<Rightarrow> 's \<Rightarrow> ('s \<times> bool) option) \<Rightarrow> qptr \<Rightarrow> nat \<Rightarrow> 's \<Rightarrow> ('s \<times> qptr) option" where
  "TAILQ_FOREACH_FROM mem body var h s = do {
     p \<leftarrow> (if var \<noteq> None then Some var else TAILQ_FIRST (mem s) h);
     for_each (\<lambda>s. TAILQ_NEXT (mem s)) body p s
   }"

definition TAILQ_FOREACH ::
  "('s \<Rightarrow> qmem) \<Rightarrow> (nat \<Rightarrow> 's \<Rightarrow> ('s \<times> bool) option) \<Rightarrow> nat \<Rightarrow> 's \<Rightarrow> ('s \<times> qptr) option" where
  "TAILQ_FOREACH mem body h s = do {
     p \<leftarrow> TAILQ_FIRST (mem s) h;
     for_each (\<lambda>s. TAILQ_NEXT (mem s)) body p s
   }"

definition TAILQ_FOREACH_FROM_SAFE ::
  "('s \<Rightarrow> qmem) \<Rightarrow> (nat \<Rightarrow> 's \<Rightarrow> ('s \<times> bool) option) \<Rightarrow> qptr \<Rightarrow> nat \<Rightarrow> 's \<Rightarrow> ('s \<times> qptr) option" where
  "TAILQ_FOREACH_FROM_SAFE mem body var h s = do {
     p \<leftarrow> (if var \<noteq> None then Some var else TAILQ_FIRST (mem s) h);
     for_each_safe (\<lambda>s. TAILQ_NEXT (mem s)) body p s
   }"

definition TAILQ_FOREACH_SAFE ::
  "('s \<Rightarrow> qmem) \<Rightarrow> (nat \<Rightarrow> 's \<Rightarrow> ('s \<times> bool) option) \<Rightarrow> nat \<Rightarrow> 's \<Rightarrow> ('s \<times> qptr) option" where
  "TAILQ_FOREACH_SAFE mem body h s = do {
     p \<leftarrow> TAILQ_FIRST (mem s) h;
     for_each_safe (\<lambda>s. TAILQ_NEXT (mem s)) body p s
   }"

definition TAILQ_FOREACH_REVERSE_FROM ::
  "('s \<Rightarrow> qmem) \<Rightarrow> (nat \<Rightarrow> 's \<Rightarrow> ('s \<times> bool) option) \<Rightarrow> qptr \<Rightarrow> nat \<Rightarrow> 's \<Rightarrow> ('s \<times> qptr) option" where
  "TAILQ_FOREACH_REVERSE_FROM mem body var h s = do {
     p \<leftarrow> (if var \<noteq> None then Some var else TAILQ_LAST (mem s) h);
     for_each (\<lambda>s. TAILQ_PREV (mem s)) body p s
   }"

definition TAILQ_FOREACH_REVERSE ::
  "('s \<Rightarrow> qmem) \<Rightarrow> (nat \<Rightarrow> 's \<Rightarrow> ('s \<times> bool) option) \<Rightarrow> nat \<Rightarrow> 's \<Rightarrow> ('s \<times> qptr) option" where
  "TAILQ_FOREACH_REVERSE mem body h s = do {
     p \<leftarrow> TAILQ_LAST (mem s) h;
     for_each (\<lambda>s. TAILQ_PREV (mem s)) body p s
   }"

definition TAILQ_FOREACH_REVERSE_FROM_SAFE ::
  "('s \<Rightarrow> qmem) \<Rightarrow> (nat \<Rightarrow> 's \<Rightarrow> ('s \<times> bool) option) \<Rightarrow> qptr \<Rightarrow> nat \<Rightarrow> 's \<Rightarrow> ('s \<times> qptr) option" where
  "TAILQ_FOREACH_REVERSE_FROM_SAFE mem body var h s = do {
     p \<leftarrow> (if var \<noteq> None then Some var else TAILQ_LAST (mem s) h);
     for_each_safe (\<lambda>s. TAILQ_PREV (mem s)) body p s
   }"

definition TAILQ_FOREACH_REVERSE_SAFE ::
  "('s \<Rightarrow> qmem) \<Rightarrow> (nat \<Rightarrow> 's \<Rightarrow> ('s \<times> bool) option) \<Rightarrow> nat \<Rightarrow> 's \<Rightarrow> ('s \<times> qptr) option" where
  "TAILQ_FOREACH_REVERSE_SAFE mem body h s = do {
     p \<leftarrow> TAILQ_LAST (mem s) h;
     for_each_safe (\<lambda>s. TAILQ_PREV (mem s)) body p s
   }"

section \<open>Well-formed tail queues\<close>

definition tailq :: "qmem \<Rightarrow> nat \<Rightarrow> nat list \<Rightarrow> bool" where
  "tailq M h xs \<longleftrightarrow> dlist M h xs \<and> second M (Head h) = Some (end_slot (Head h) xs)"

lemmas tailq_simps = TAILQ_FIRST_def TAILQ_EMPTY_def TAILQ_NEXT_def TAILQ_INIT_def tqe_prev_def set_tqe_prev_def qmem_simps

lemma tailqD: "tailq M h xs \<Longrightarrow> dlist M h xs" "tailq M h xs \<Longrightarrow> second M (Head h) = Some (end_slot (Head h) xs)"
  by (simp_all add: tailq_def)

lemma tailq_insert_after:
  assumes t: "tailq M h (us @ x # vs)" and a: "dlist_elem M e" and e: "e \<notin> set (us @ x # vs)"
  shows "\<exists>M'. TAILQ_INSERT_AFTER M h (Some x) (Some e) = Some M' \<and> tailq M' h (us @ x # e # vs) \<and>
    touches (spots (Head h) (e # us @ x # vs)) M M'"
proof -
  note q = tailqD(1) [OF t] and l = tailqD(2) [OF t]
  note x = dlist_at [OF q] and d = dlistD(3) [OF q]
  let ?M = "M\<lparr>cell := (cell M)(Elem e \<mapsto> first_ptr vs None, Elem x \<mapsto> Some e),
    second := (upd_first vs (Elem e) (second M))(Elem e \<mapsto> Elem x, Head h \<mapsto> end_slot (Elem e) vs)\<rparr>"
  have "TAILQ_INSERT_AFTER M h (Some x) (Some e) = Some ?M"
    using a e x l by (cases vs) (auto simp: TAILQ_INSERT_AFTER_def tailq_simps dlist_elem_def fun_upd_idem fun_upd_twist)
  moreover have "dlist ?M h ((us @ [x]) @ e # vs)"
    using q e d by (intro dlist_link [of M]) (cases vs; auto)+
  moreover have "touches (spots (Head h) (e # us @ x # vs)) M ?M"
    using a x l by (cases vs) (auto simp: touches_def spots_def dlist_elem_def)
  ultimately show ?thesis by (auto simp: tailq_def)
qed

lemma tailq_insert_before:
  assumes t: "tailq M h (us @ x # vs)" and a: "dlist_elem M e" and e: "e \<notin> set (us @ x # vs)"
  shows "\<exists>M'. TAILQ_INSERT_BEFORE M (Some x) (Some e) = Some M' \<and> tailq M' h (us @ e # x # vs) \<and>
    touches (spots (Head h) (e # us @ x # vs)) M M'"
proof -
  have "TAILQ_INSERT_BEFORE M (Some x) (Some e) = LIST_INSERT_BEFORE M (Some x) (Some e)"
    by (simp add: TAILQ_INSERT_BEFORE_def LIST_INSERT_BEFORE_def tqe_prev_def set_tqe_prev_def le_prev_def set_le_prev_def)
  with dlist_insert_before [OF tailqD(1) [OF t] a e] obtain M' where
    M': "TAILQ_INSERT_BEFORE M (Some x) (Some e) = Some M'" "dlist M' h (us @ e # x # vs)"
      "touches (spots (Head h) (e # us @ x # vs)) M M'" by auto
  from M'(1) have "second M' (Head h) = second M (Head h)"
    by (auto simp: TAILQ_INSERT_BEFORE_def tailq_simps split: if_splits option.splits bind_splits)
  with M' tailqD(2) [OF t] show ?thesis by (auto simp: tailq_def)
qed

lemma tailq_insert_head:
  assumes t: "tailq M h xs" and a: "dlist_elem M e" and e: "e \<notin> set xs"
  shows "\<exists>M'. TAILQ_INSERT_HEAD M h (Some e) = Some M' \<and> tailq M' h (e # xs) \<and> touches (spots (Head h) (e # xs)) M M'"
proof -
  note q = tailqD(1) [OF t] and l = tailqD(2) [OF t]
  note q' = dlistD [of M h "[]" xs, simplified, OF q]
  let ?M = "M\<lparr>cell := (cell M)(Elem e \<mapsto> first_ptr xs None, Head h \<mapsto> Some e),
    second := (upd_first xs (Elem e) (second M))(Elem e \<mapsto> Head h, Head h \<mapsto> end_slot (Elem e) xs)\<rparr>"
  have "TAILQ_INSERT_HEAD M h (Some e) = Some ?M"
    using a e l q'(1,5) by (cases xs) (auto simp: TAILQ_INSERT_HEAD_def tailq_simps dlist_elem_def fun_upd_idem fun_upd_twist)
  moreover have "dlist ?M h ([] @ e # xs)"
    using q e q'(3) by (intro dlist_link [of M]) (cases xs; auto)+
  moreover have "touches (spots (Head h) (e # xs)) M ?M"
    using a l q'(1,5) by (cases xs) (auto simp: touches_def spots_def dlist_elem_def)
  ultimately show ?thesis by (auto simp: tailq_def)
qed

lemma tailq_insert_tail:
  assumes t: "tailq M h xs" and a: "dlist_elem M e" and e: "e \<notin> set xs"
  shows "\<exists>M'. TAILQ_INSERT_TAIL M h (Some e) = Some M' \<and> tailq M' h (xs @ [e]) \<and> touches (spots (Head h) (e # xs)) M M'"
proof -
  note q = tailqD(1) [OF t] and l = tailqD(2) [OF t]
  note q' = dlistD [of M h xs "[]", simplified, OF q]
  let ?M = "M\<lparr>cell := (cell M)(Elem e \<mapsto> None, end_slot (Head h) xs \<mapsto> Some e),
    second := (second M)(Elem e \<mapsto> end_slot (Head h) xs, Head h \<mapsto> Elem e)\<rparr>"
  have "TAILQ_INSERT_TAIL M h (Some e) = Some ?M"
    using a e l q'(2) by (auto simp: TAILQ_INSERT_TAIL_def tailq_simps dlist_elem_def)
  moreover have "dlist ?M h (xs @ [e])"
    using q e q'(3) by (intro dlist_link [of M]) auto
  moreover have "touches (spots (Head h) (e # xs)) M ?M"
    using a l q'(2) by (auto simp: touches_def spots_def dlist_elem_def end_slot_last)
  ultimately show ?thesis by (auto simp: tailq_def)
qed

lemma tailq_remove:
  assumes t: "tailq M h (us @ x # vs)"
  shows "\<exists>M'. TAILQ_REMOVE M h (Some x) = Some M' \<and> tailq M' h (us @ vs) \<and> touches (spots (Head h) (us @ x # vs)) M M'"
proof -
  note q = tailqD(1) [OF t] and l = tailqD(2) [OF t]
  note x = dlist_at [OF q] dlistD(2) [OF q] and d = dlistD(3) [OF q]
  let ?M = "M\<lparr>cell := (cell M)(end_slot (Head h) us \<mapsto> first_ptr vs None),
    second := (upd_first vs (end_slot (Head h) us) (second M))(Head h \<mapsto> end_slot (Head h) (us @ vs))\<rparr>"
  have "TAILQ_REMOVE M h (Some x) = Some ?M"
    using x d l by (cases vs) (auto simp: TAILQ_REMOVE_def tailq_simps fun_upd_idem fun_upd_twist)
  moreover have "dlist ?M h (us @ vs)"
    by (rule dlist_unlink [OF q]) (use d in \<open>cases vs; auto\<close>)+
  moreover have "touches (spots (Head h) (us @ x # vs)) M ?M"
    using x l by (cases vs) (auto simp: touches_def spots_def end_slot_last)
  ultimately show ?thesis by (auto simp: tailq_def)
qed

lemma tailq_concat:
  assumes x: "tailq M h xs" and y: "tailq M g ys" and hg: "h \<noteq> g" and d: "set xs \<inter> set ys = {}"
  shows "\<exists>M'. TAILQ_CONCAT M h g = Some M' \<and> tailq M' h (xs @ ys) \<and> tailq M' g [] \<and>
    touches (spots (Head h) xs \<union> spots (Head g) ys) M M'"
proof (cases ys)
  case Nil
  with dlistD(1) [of M g "[]" ys] x y show ?thesis by (simp add: TAILQ_CONCAT_def tailq_simps tailqD)
next
  case (Cons b bs)
  note x' = dlistD [of M h xs "[]", simplified, OF tailqD(1) [OF x]] tailqD(2) [OF x]
  note y' = dlistD [of M g "[]" ys, simplified, OF tailqD(1) [OF y]] tailqD(2) [OF y]
  let ?N = "M\<lparr>cell := (cell M)(end_slot (Head h) xs \<mapsto> first_ptr ys None, Head g \<mapsto> None),
    second := upd_first ys (end_slot (Head h) xs) (second M)\<rparr>"
  let ?M = "?N\<lparr>second := (second ?N)(Head h \<mapsto> end_slot (Head g) ys, Head g \<mapsto> Head g)\<rparr>"
  note j = dlist_join [OF tailqD(1) [OF x] tailqD(1) [OF y] hg d, of ?N]
  have "TAILQ_CONCAT M h g = Some ?M"
    using x'(1,2,6) y'(1,2,5,6) hg Cons by (auto simp: TAILQ_CONCAT_def tailq_simps)
  moreover have "dlist ?M h (xs @ ys)" "dlist ?M g []"
    using j(1,2) backs_cong [of "xs @ ys" "second ?M" "second ?N"] by (simp_all add: dlist_def)
  moreover have "end_slot (Head g) ys = end_slot (Head h) (xs @ ys)" using Cons by simp
  moreover have "touches (spots (Head h) xs \<union> spots (Head g) ys) M ?M"
    using j(3) x'(6) y'(6) by (auto simp: touches_def spots_def)
  ultimately show ?thesis using hg by (auto simp: tailq_def)
qed

lemma tailq_swap:
  assumes x: "tailq M h xs" and y: "tailq M g ys" and hg: "h \<noteq> g" and d: "set xs \<inter> set ys = {}"
  shows "\<exists>M'. TAILQ_SWAP M h g = Some M' \<and> tailq M' h ys \<and> tailq M' g xs \<and>
    touches (spots (Head h) xs \<union> spots (Head g) ys) M M'"
proof -
  note x' = dlistD [of M h "[]" xs, simplified, OF tailqD(1) [OF x]] tailqD(2) [OF x]
  note y' = dlistD [of M g "[]" ys, simplified, OF tailqD(1) [OF y]] tailqD(2) [OF y]
  let ?M = "M\<lparr>cell := (cell M)(Head h \<mapsto> first_ptr ys None, Head g \<mapsto> first_ptr xs None),
    second := (upd_first xs (Head g) (upd_first ys (Head h) (second M)))
      (Head h \<mapsto> end_slot (Head h) ys, Head g \<mapsto> end_slot (Head g) xs)\<rparr>"
  have "TAILQ_SWAP M h g = Some ?M"
    using x'(1,5,6) y'(1,5,6) hg d
    by (cases xs; cases ys) (auto simp: TAILQ_SWAP_def tailq_fix_head_def tailq_simps fun_eq_iff)
  moreover have "dlist ?M h ys"
    by (rule dlist_move [OF tailqD(1) [OF y]]) (use hg d y'(3) in \<open>cases ys; cases xs; auto\<close>)+
  moreover have "dlist ?M g xs"
    by (rule dlist_move [OF tailqD(1) [OF x]]) (use hg d x'(3) in \<open>cases ys; cases xs; auto\<close>)+
  moreover have "touches (spots (Head h) xs \<union> spots (Head g) ys) M ?M"
    using x'(1,5,6) y'(1,5,6) by (cases xs; cases ys) (auto simp: touches_def spots_def)
  ultimately show ?thesis using hg by (auto simp: tailq_def)
qed

text \<open>Backwards: the second pointer of the structure that holds the last link, or the link to an element, names the link before it.\<close>

lemma tailq_before:
  assumes "tailq M h (us @ vs)"
  shows "do { l' \<leftarrow> get_second M (end_slot (Head h) us); get_cell M l' } = Some (if us = [] then None else Some (last us))"
proof (cases us rule: rev_cases)
  case Nil
  with links_end [OF dlistD(4) [OF tailqD(1) [OF assms]]] tailqD(2) [OF assms] show ?thesis by (simp add: qmem_simps)
next
  case (snoc ws w)
  with dlist_at(2) [of M h ws w vs] dlistD(2) [of M h ws "w # vs"] tailqD(1) [OF assms]
  show ?thesis by (simp add: qmem_simps)
qed

lemma tailq_last: "tailq M h xs \<Longrightarrow> TAILQ_LAST M h = Some (if xs = [] then None else Some (last xs))"
  using tailq_before [of M h xs "[]"] tailqD(2) [of M h xs] by (simp add: TAILQ_LAST_def get_second_def)

lemma tailq_prev: "tailq M h (us @ x # vs) \<Longrightarrow> TAILQ_PREV M (Some x) = Some (if us = [] then None else Some (last us))"
  using tailq_before [of M h us "x # vs"] dlist_at(2) [OF tailqD(1), of M h us x vs]
  by (simp add: TAILQ_PREV_def tqe_prev_def link_of_def get_second_def)

lemma tailq_checks:
  assumes "tailq M h (us @ x # vs)"
  shows "QMD_TAILQ_CHECK_NEXT M (Some x) = Some True" "QMD_TAILQ_CHECK_PREV M (Some x) = Some True"
  using dlist_at [OF tailqD(1) [OF assms]] dlistD(2) [OF tailqD(1) [OF assms]]
  by (cases vs; auto simp: QMD_TAILQ_CHECK_NEXT_def QMD_TAILQ_CHECK_PREV_def tailq_simps)+

lemma tailq_check_head:
  assumes "tailq M h xs"
  shows "QMD_TAILQ_CHECK_HEAD M h = Some True" "QMD_TAILQ_CHECK_TAIL M h = Some True"
  using tailqD(2) [OF assms] dlistD(2) [of M h xs "[]"] tailqD(1) [OF assms]
  by (cases xs; auto simp: QMD_TAILQ_CHECK_HEAD_def QMD_TAILQ_CHECK_TAIL_def tailq_simps dlist_def)+

section \<open>The interface and the contract\<close>

interpretation tq: fifo_queue tailq dlist_elem TAILQ_FIRST TAILQ_NEXT TAILQ_INSERT_HEAD TAILQ_REMOVE
  TAILQ_INSERT_TAIL TAILQ_LAST
proof unfold_locales
  show "distinct xs" if "tailq M h xs" for M h xs using that by (simp add: tailq_def dlist_def)
  show "tailq M' h xs = tailq M h xs" if "agree h xs M M'" for M M' h xs
    using that by (simp add: tailq_def dl.repr_agree agree_Head)
  show "dlist_elem M' e = dlist_elem M e" if "touches S M M'" for S M M' e by (rule dl.usable_touches [OF that])
  show "TAILQ_FIRST M h = Some (first_ptr xs None)" if "tailq M h xs" for M h xs
    using dl.first_repr [OF tailqD(1) [OF that]] by (simp add: TAILQ_FIRST_def LIST_FIRST_def)
  show "TAILQ_NEXT M (Some x) = Some (first_ptr vs None)" if "tailq M h (us @ x # vs)" for M h us x vs
    using dl.next_repr [OF tailqD(1) [OF that]] by (simp add: TAILQ_NEXT_def LIST_NEXT_def)
qed (simp_all add: tailq_simps tailq_insert_head tailq_insert_tail tailq_remove tailq_last)

text \<open>The traversals from the end: the elements in the opposite order.\<close>

lemma tailq_reverse_step: "tailq M h (us @ x # vs) \<Longrightarrow> TAILQ_PREV M (Some x) = Some (first_ptr (rev us) None)"
  using tailq_prev [of M h us x vs] by (simp add: first_ptr_rev)

lemma for_each_reverse:
  assumes keep: "\<And>a s s1. a \<in> set xs \<Longrightarrow> tailq (mem s) h xs \<Longrightarrow> body a s = Some (s1, False) \<Longrightarrow> tailq (mem s1) h xs"
    and t: "tailq (mem s) h xs" "xs = us @ vs"
  shows "for_each (\<lambda>s. TAILQ_PREV (mem s)) body (first_ptr (rev us) None) s = visit body (rev us) s"
    and "for_each_safe (\<lambda>s. TAILQ_PREV (mem s)) body (first_ptr (rev us) None) s = visit body (rev us) s"
proof -
  let ?J = "\<lambda>ws s. tailq (mem s) h xs \<and> (\<exists>vs. xs = rev ws @ vs)"
  have J: "tailq (mem s) h xs \<and> (\<exists>vs. xs = rev (a # ws) @ vs) \<Longrightarrow>
      TAILQ_PREV (mem s) (Some a) = Some (first_ptr ws None) \<and> a \<in> set xs \<and> (\<exists>vs. xs = rev ws @ vs)" for a ws s
    using tailq_reverse_step [of "mem s" h "rev ws" a] by auto
  show "for_each (\<lambda>s. TAILQ_PREV (mem s)) body (first_ptr (rev us) None) s = visit body (rev us) s"
  proof (rule for_each_visit [where J = ?J])
    fix a ws s s1
    assume j: "?J (a # ws) s" and b: "body a s = Some (s1, False)"
    then have "tailq (mem s1) h xs" using keep [of a s s1] J by blast
    with j J [of s1 a ws] show "TAILQ_PREV (mem s1) (Some a) = Some (first_ptr ws None) \<and> ?J ws s1" by blast
  qed (use t in auto)
  show "for_each_safe (\<lambda>s. TAILQ_PREV (mem s)) body (first_ptr (rev us) None) s = visit body (rev us) s"
  proof (rule for_each_safe_visit [where J = ?J])
    show "TAILQ_PREV (mem s) (Some a) = Some (first_ptr ws None)" if "?J (a # ws) s" for a ws s
      using J [OF that] by blast
    show "?J ws s1" if "?J (a # ws) s" "body a s = Some (s1, False)" for a ws s s1
      using J [OF that(1)] keep [of a s s1] that by blast
  qed (use t in auto)
qed

lemma tailq_drop_last:
  assumes "tailq M h (xs @ [a])"
  shows "\<exists>M1. drop_elem TAILQ_REMOVE h a M = Some (M1, False) \<and> tailq M1 h xs"
proof -
  from tailq_remove [OF assms] obtain M1 where 1: "TAILQ_REMOVE M h (Some a) = Some M1" "tailq M1 h xs" by auto
  have "a \<notin> set xs" using tq.repr_distinct [OF assms] by simp
  with 1 show ?thesis using tq.repr_agree [OF free_elem_agree] by (auto simp: drop_elem_def)
qed

lemma reverse_safe_drops:
  assumes "tailq M h xs"
  shows "\<exists>M'. for_each_safe TAILQ_PREV (drop_elem TAILQ_REMOVE h) (first_ptr (rev xs) None) M = Some (M', None) \<and> tailq M' h []"
proof -
  have "for_each_safe TAILQ_PREV (drop_elem TAILQ_REMOVE h) (first_ptr (rev xs) None) M = visit (drop_elem TAILQ_REMOVE h) (rev xs) M"
  proof (rule for_each_safe_visit [where J = "\<lambda>ws M. tailq M h (rev ws)"])
    show "TAILQ_PREV M (Some a) = Some (first_ptr ws None)" if "tailq M h (rev (a # ws))" for a ws M
      using tailq_reverse_step [of M h "rev ws" a "[]"] that by simp
    show "tailq M1 h (rev ws)" if "tailq M h (rev (a # ws))" "drop_elem TAILQ_REMOVE h a M = Some (M1, False)" for a ws M M1
      using tailq_drop_last [of M h "rev ws" a] that by auto
  qed (use assms in simp)
  moreover have "\<exists>M'. visit (drop_elem TAILQ_REMOVE h) (rev xs) M = Some (M', None) \<and> tailq M' h []" using assms
  proof (induction xs arbitrary: M rule: rev_induct)
    case (snoc a xs)
    from tailq_drop_last [OF snoc.prems] snoc.IH show ?case by fastforce
  qed simp
  ultimately show ?thesis by simp
qed

text \<open>
  C28. The macros of the tail queues on two separate well-formed queues and an element of neither: inserting at the head, at
  the tail, behind or before an element, removing an element without a traversal, joining two queues and
  exchanging them are always defined, give well-formed queues, forwards and backwards, with exactly the
  expected elements in the expected order, and change no memory outside the queues and the element named; the last
  element and the element before another are found by reading an entry as if it were a head; and the
  consistency checks of a kernel build pass on every well-formed queue.
\<close>

theorem tailq_macros_correct:
  assumes "tailq M h xs" and "tailq M g ys" and "h \<noteq> g" and "set xs \<inter> set ys = {}" and "dlist_elem M e" and "e \<notin> set xs"
  shows "(\<exists>M'. TAILQ_INSERT_HEAD M h (Some e) = Some M' \<and> tailq M' h (e # xs) \<and> touches (spots (Head h) (e # xs)) M M') \<and>
    (\<exists>M'. TAILQ_INSERT_TAIL M h (Some e) = Some M' \<and> tailq M' h (xs @ [e]) \<and> touches (spots (Head h) (e # xs)) M M') \<and>
    (\<forall>us x vs. xs = us @ x # vs \<longrightarrow>
      (\<exists>M'. TAILQ_INSERT_AFTER M h (Some x) (Some e) = Some M' \<and> tailq M' h (us @ x # e # vs) \<and>
        touches (spots (Head h) (e # xs)) M M') \<and>
      (\<exists>M'. TAILQ_INSERT_BEFORE M (Some x) (Some e) = Some M' \<and> tailq M' h (us @ e # x # vs) \<and>
        touches (spots (Head h) (e # xs)) M M') \<and>
      (\<exists>M'. TAILQ_REMOVE M h (Some x) = Some M' \<and> tailq M' h (us @ vs) \<and> touches (spots (Head h) xs) M M') \<and>
      TAILQ_PREV M (Some x) = Some (if us = [] then None else Some (last us)) \<and>
      QMD_TAILQ_CHECK_NEXT M (Some x) = Some True \<and> QMD_TAILQ_CHECK_PREV M (Some x) = Some True) \<and>
    (\<exists>M'. TAILQ_CONCAT M h g = Some M' \<and> tailq M' h (xs @ ys) \<and> tailq M' g [] \<and>
      touches (spots (Head h) xs \<union> spots (Head g) ys) M M') \<and>
    (\<exists>M'. TAILQ_SWAP M h g = Some M' \<and> tailq M' h ys \<and> tailq M' g xs \<and>
      touches (spots (Head h) xs \<union> spots (Head g) ys) M M') \<and>
    TAILQ_EMPTY M h = Some (xs = []) \<and> TAILQ_LAST M h = Some (if xs = [] then None else Some (last xs)) \<and>
    QMD_TAILQ_CHECK_HEAD M h = Some True \<and> QMD_TAILQ_CHECK_TAIL M h = Some True \<and>
    (\<exists>M'. TAILQ_INIT M h = Some M' \<and> tailq M' h []) \<and> tailq (TAILQ_HEAD_INITIALIZER M h) h []"
proof (intro conjI allI impI)
  note first = dlistD(1) [of M h "[]" xs, simplified, OF tailqD(1) [OF assms(1)]]
  show "tailq (TAILQ_HEAD_INITIALIZER M h) h []" by (simp add: TAILQ_HEAD_INITIALIZER_def tailq_def dlist_def)
  show "TAILQ_EMPTY M h = Some (xs = [])" using first by (simp add: tailq_simps)
  show "TAILQ_PREV M (Some x) = Some (if us = [] then None else Some (last us))" if "xs = us @ x # vs" for us x vs
    using tailq_prev assms(1) that by blast
  show "TAILQ_LAST M h = Some (if xs = [] then None else Some (last xs))" by (rule tailq_last [OF assms(1)])
  show "\<exists>M'. TAILQ_INIT M h = Some M' \<and> tailq M' h []"
    using first tailqD(2) [OF assms(1)] by (simp add: tailq_simps tailq_def dlist_def)
qed (use assms tailq_insert_head tailq_insert_tail tailq_concat tailq_swap in
  \<open>auto intro!: tailq_insert_after [simplified] tailq_insert_before [simplified] tailq_remove [simplified]
    tailq_checks tailq_check_head\<close>)

theorem tailq_macros_correct_witness:
  "\<exists>M'. TAILQ_CONCAT \<lparr>cell = [Head 0 \<mapsto> Some 10, Elem 10 \<mapsto> None, Head 1 \<mapsto> Some 11, Elem 11 \<mapsto> None, Elem 12 \<mapsto> Some 7],
      second = [Elem 10 \<mapsto> Head 0, Elem 11 \<mapsto> Head 1, Elem 12 \<mapsto> Head 7, Head 0 \<mapsto> Elem 10, Head 1 \<mapsto> Elem 11]\<rparr> 0 1 =
    Some M' \<and> tailq M' 0 [10, 11]"
proof -
  let ?M = "\<lparr>cell = [Head 0 \<mapsto> Some 10, Elem 10 \<mapsto> None, Head 1 \<mapsto> Some 11, Elem 11 \<mapsto> None, Elem 12 \<mapsto> Some 7],
      second = [Elem 10 \<mapsto> Head 0, Elem 11 \<mapsto> Head 1, Elem 12 \<mapsto> Head 7, Head 0 \<mapsto> Elem 10, Head 1 \<mapsto> Elem 11]\<rparr>"
  have "tailq ?M 0 [10]" "tailq ?M 1 [11]" "(0 :: nat) \<noteq> 1" "set [10] \<inter> set [11 :: nat] = {}" "dlist_elem ?M 12"
    "12 \<notin> set [10 :: nat]" by (simp_all add: tailq_def dlist_def dlist_elem_def)
  from tailq_macros_correct [OF this] show ?thesis by auto
qed

end
