(* ===== verification/Queue_Properties.thy ===== *)
theory Queue_Properties
  imports Slist Stailq Tailq
begin

text \<open>
  The traversals of \<open>server/queue.h\<close>: the remaining loops of the singly-linked lists, and what the loops of all four
  kinds of list visit, with bodies that keep the list, with bodies that remove and release the current element, and after
  a sequence of insertions.
\<close>

section \<open>The remaining loops of the singly-linked lists\<close>

definition SLIST_FOREACH_FROM ::
  "('s \<Rightarrow> 'd node_heap) \<Rightarrow> (nat \<Rightarrow> 's \<Rightarrow> ('s \<times> bool) option) \<Rightarrow> node_ptr \<Rightarrow> node_ptr \<Rightarrow> 's \<Rightarrow> ('s \<times> node_ptr) option" where
  "SLIST_FOREACH_FROM heap_of body var head s =
     for_each (\<lambda>s. SLIST_NEXT (heap_of s)) body (if var \<noteq> None then var else SLIST_FIRST head) s"

definition SLIST_FOREACH_SAFE ::
  "('s \<Rightarrow> 'd node_heap) \<Rightarrow> (nat \<Rightarrow> 's \<Rightarrow> ('s \<times> bool) option) \<Rightarrow> node_ptr \<Rightarrow> 's \<Rightarrow> ('s \<times> node_ptr) option" where
  "SLIST_FOREACH_SAFE heap_of body head s = for_each_safe (\<lambda>s. SLIST_NEXT (heap_of s)) body (SLIST_FIRST head) s"

definition SLIST_FOREACH_FROM_SAFE ::
  "('s \<Rightarrow> 'd node_heap) \<Rightarrow> (nat \<Rightarrow> 's \<Rightarrow> ('s \<times> bool) option) \<Rightarrow> node_ptr \<Rightarrow> node_ptr \<Rightarrow> 's \<Rightarrow> ('s \<times> node_ptr) option" where
  "SLIST_FOREACH_FROM_SAFE heap_of body var head s =
     for_each_safe (\<lambda>s. SLIST_NEXT (heap_of s)) body (if var \<noteq> None then var else SLIST_FIRST head) s"

text \<open>
  \<open>SLIST_FOREACH_PREVPTR\<close>: \<open>varp\<close> is the address of the link that leads to the current element, \<open>None\<close> for
  \<open>&SLIST_FIRST(head)\<close> and \<open>Some a\<close> for \<open>&SLIST_NEXT(a, field)\<close>; the body gets it and the element.
\<close>

partial_function (option) SLIST_FOREACH_PREVPTR ::
  "('s \<Rightarrow> node_ptr) \<Rightarrow> ('s \<Rightarrow> 'd node_heap) \<Rightarrow> (nat \<Rightarrow> nat option \<Rightarrow> 's \<Rightarrow> ('s \<times> bool) option) \<Rightarrow> nat option \<Rightarrow> 's \<Rightarrow>
   ('s \<times> nat option) option" where
  "SLIST_FOREACH_PREVPTR head_of heap_of body varp s = do {
     var \<leftarrow> (case varp of None \<Rightarrow> Some (SLIST_FIRST (head_of s)) | Some a \<Rightarrow> SLIST_NEXT (heap_of s) (Some a));
     case var of
       None \<Rightarrow> Some (s, varp)
     | Some a \<Rightarrow> do {
         (s1, leave) \<leftarrow> body a varp s;
         if leave then Some (s1, varp) else SLIST_FOREACH_PREVPTR head_of heap_of body var s1
       }
   }"

definition slist_drop :: "nat \<Rightarrow> 'd node_heap \<times> node_ptr \<Rightarrow> (('d node_heap \<times> node_ptr) \<times> bool) option" where
  "slist_drop a s = do {
     (H1, head1) \<leftarrow> SLIST_REMOVE (fst s) (snd s) (Some a);
     H2 \<leftarrow> free_node H1 a;
     Some ((H2, head1), False)
   }"

lemma slist_first_ptr: "slist H p xs \<Longrightarrow> p = first_ptr xs None"
  by (cases xs) auto

lemma slist_next: "slist H p (us @ x # vs) \<Longrightarrow> SLIST_NEXT H (Some x) = Some (first_ptr vs None)"
  using slist_suffix [of H p us x vs] by (auto simp: SLIST_NEXT_def slist_first_ptr split: option.splits)

lemma slist_for_each_from:
  assumes "slist H p (us @ vs)"
  shows "for_each (\<lambda>s. SLIST_NEXT (fst s)) (\<lambda>a s. Some ((fst s, snd s @ [a]), False)) (first_ptr vs None) (H, []) = Some ((H, vs), None)"
    and "for_each_safe (\<lambda>s. SLIST_NEXT (fst s)) (\<lambda>a s. Some ((fst s, snd s @ [a]), False)) (first_ptr vs None) (H, []) = Some ((H, vs), None)"
proof -
  let ?body = "\<lambda>a s. Some ((fst s :: 'a node_heap, snd s @ [a]), False)"
  let ?J = "\<lambda>vs s. fst s = H \<and> (\<exists>us. slist H p (us @ vs))"
  have v: "visit ?body vs (H, out) = Some ((H, out @ vs), None)" for out by (induction vs arbitrary: out) simp_all
  have J: "\<exists>us. slist H p (us @ ws)" if "slist H p (us @ a # ws)" for us a ws
    using that by (metis append.assoc append_Cons append_Nil)
  have "for_each (\<lambda>s. SLIST_NEXT (fst s)) ?body (first_ptr vs None) (H, []) = visit ?body vs (H, [])"
    by (rule for_each_visit [where J = ?J]) (use assms in \<open>auto dest: J slist_next\<close>)
  with v show "for_each (\<lambda>s. SLIST_NEXT (fst s)) ?body (first_ptr vs None) (H, []) = Some ((H, vs), None)" by simp
  have "for_each_safe (\<lambda>s. SLIST_NEXT (fst s)) ?body (first_ptr vs None) (H, []) = visit ?body vs (H, [])"
    by (rule for_each_safe_visit [where J = ?J]) (use assms in \<open>auto dest: J slist_next\<close>)
  with v show "for_each_safe (\<lambda>s. SLIST_NEXT (fst s)) ?body (first_ptr vs None) (H, []) = Some ((H, vs), None)" by simp
qed

lemma slist_drop_first:
  assumes "slist H p (a # xs)"
  shows "\<exists>H' p'. slist_drop a (H, p) = Some ((H', p'), False) \<and> slist H' p' xs \<and> dom H' = dom H - {a}"
proof -
  from sl.remove_repr [OF assms, of a] obtain H1 p1 where
    1: "SLIST_REMOVE H p (Some a) = Some (H1, p1)" "slist H1 p1 xs" "dom H1 = dom H" by auto
  have "a \<in> dom H1" "a \<notin> set xs" using slist_alloc [OF assms, of a] slist_distinct [OF assms] 1(3) by auto
  from free_node_slist [OF 1(2) this] 1 show ?thesis by (auto simp: slist_drop_def)
qed

lemma slist_safe_drops:
  assumes "slist H p xs"
  shows "\<exists>H'. SLIST_FOREACH_SAFE fst slist_drop p (H, p) = Some ((H', None), None) \<and> dom H' = dom H - set xs"
proof -
  have "for_each_safe (\<lambda>s. SLIST_NEXT (fst s)) slist_drop (first_ptr xs None) (H, p) = visit slist_drop xs (H, p)"
  proof (rule for_each_safe_visit [where J = "\<lambda>vs s. slist (fst s) (snd s) vs"])
    show "SLIST_NEXT (fst s) (Some a) = Some (first_ptr vs None)" if "slist (fst s) (snd s) (a # vs)"
      for a vs and s :: "'a node_heap \<times> node_ptr"
      using slist_next [of "fst s" "snd s" "[]" a vs] that by simp
    show "slist (fst s1) (snd s1) vs" if "slist (fst s) (snd s) (a # vs)" "slist_drop a s = Some (s1, False)"
      for a vs and s s1 :: "'a node_heap \<times> node_ptr"
      using slist_drop_first [OF that(1)] that(2) by auto
  qed (use assms in simp)
  moreover have "\<exists>H'. visit slist_drop xs (H, p) = Some ((H', None), None) \<and> dom H' = dom H - set xs" using assms
  proof (induction xs arbitrary: H p)
    case (Cons a xs)
    from slist_drop_first [OF Cons.prems] obtain H1 p1 where
      "slist_drop a (H, p) = Some ((H1, p1), False)" "slist H1 p1 xs" "dom H1 = dom H - {a}" by blast
    with Cons.IH [of H1 p1] show ?case by auto
  qed simp
  ultimately show ?thesis using slist_first_ptr [OF assms] by (simp add: SLIST_FOREACH_SAFE_def SLIST_FIRST_def)
qed

text \<open>The loop with the address of the link meets every element together with the link that leads to it.\<close>

lemma slist_prevptr:
  assumes "slist H p (us @ vs)"
  shows "SLIST_FOREACH_PREVPTR (\<lambda>s. p) (\<lambda>s. H) (\<lambda>a varp s. Some (s @ [(varp, a)], False))
      (if us = [] then None else Some (last us)) out =
    Some (out @ zip ((if us = [] then None else Some (last us)) # map Some vs) vs, if us @ vs = [] then None else Some (last (us @ vs)))"
  using assms
proof (induction vs arbitrary: us out)
  case Nil
  then show ?case using slist_next [of H p "butlast us" "last us" "[]"] slist_first_ptr [of H p us]
    by (subst SLIST_FOREACH_PREVPTR.simps) (auto simp: SLIST_FIRST_def)
next
  case (Cons v vs)
  have "(case if us = [] then None else Some (last us) of None \<Rightarrow> Some (SLIST_FIRST p) | Some a \<Rightarrow> SLIST_NEXT H (Some a)) = Some (Some v)"
    using Cons.prems slist_next [of H p "butlast us" "last us" "v # vs"] slist_first_ptr [of H p "us @ v # vs"]
    by (cases us rule: rev_cases) (auto simp: SLIST_FIRST_def)
  with Cons.IH [of "us @ [v]"] Cons.prems show ?case by (subst SLIST_FOREACH_PREVPTR.simps) simp
qed

section \<open>What the traversals do\<close>

text \<open>
  C31. The traversals of the tail queues with any body that keeps the queue visit every element once, in order, and from the
  end in the opposite order, until the body leaves the loop; started at an element they visit the rest of the
  queue; the plain and the safe form do the same. With a body that removes and releases the current
  element the safe forms end with the empty queue in either direction, and the plain form reads released memory on every
  queue that is not empty. Elements that were inserted at the tail one after another are met in the order of their insertion.
\<close>

theorem tailq_traversals_correct:
  fixes mem :: "'s \<Rightarrow> qmem"
  assumes keep: "\<And>a s s1. a \<in> set xs \<Longrightarrow> tailq (mem s) h xs \<Longrightarrow> body a s = Some (s1, False) \<Longrightarrow> tailq (mem s1) h xs"
    and t: "tailq (mem s) h xs" and M: "tailq M g ys"
    and es: "\<forall>e \<in> set es. dlist_elem M e" "distinct es" "set es \<inter> set ys = {}"
  shows "TAILQ_FOREACH mem body h s = visit body xs s \<and> TAILQ_FOREACH_SAFE mem body h s = visit body xs s \<and>
    TAILQ_FOREACH_REVERSE mem body h s = visit body (rev xs) s \<and> TAILQ_FOREACH_REVERSE_SAFE mem body h s = visit body (rev xs) s \<and>
    (\<forall>us x vs. xs = us @ x # vs \<longrightarrow>
      TAILQ_FOREACH_FROM mem body (Some x) h s = visit body (x # vs) s \<and>
      TAILQ_FOREACH_FROM_SAFE mem body (Some x) h s = visit body (x # vs) s \<and>
      TAILQ_FOREACH_REVERSE_FROM mem body (Some x) h s = visit body (x # rev us) s \<and>
      TAILQ_FOREACH_REVERSE_FROM_SAFE mem body (Some x) h s = visit body (x # rev us) s) \<and>
    (\<exists>M'. TAILQ_FOREACH_SAFE (\<lambda>M. M) (drop_elem TAILQ_REMOVE g) g M = Some (M', None) \<and> tailq M' g []) \<and>
    (\<exists>M'. TAILQ_FOREACH_REVERSE_SAFE (\<lambda>M. M) (drop_elem TAILQ_REMOVE g) g M = Some (M', None) \<and> tailq M' g []) \<and>
    (ys \<noteq> [] \<longrightarrow> TAILQ_FOREACH (\<lambda>M. M) (drop_elem TAILQ_REMOVE g) g M = None) \<and>
    (\<exists>M'. insert_each TAILQ_INSERT_TAIL g es M = Some M' \<and>
      TAILQ_FOREACH fst note_elem g (M', []) = Some ((M', ys @ es), None))"
proof (intro conjI allI impI)
  have fwd: "for_each (\<lambda>s. TAILQ_NEXT (mem s)) body (first_ptr vs None) s = visit body vs s"
    "for_each_safe (\<lambda>s. TAILQ_NEXT (mem s)) body (first_ptr vs None) s = visit body vs s" if "xs = us @ vs" for us vs
    by (rule tq.for_each_from [of xs mem h body s us vs] tq.for_each_safe_from [of xs mem h body s us vs];
        (rule keep, assumption+ | rule t | rule that))+
  have bwd: "for_each (\<lambda>s. TAILQ_PREV (mem s)) body (first_ptr (rev us) None) s = visit body (rev us) s"
    "for_each_safe (\<lambda>s. TAILQ_PREV (mem s)) body (first_ptr (rev us) None) s = visit body (rev us) s" if "xs = us @ vs" for us vs
    by (rule for_each_reverse [of xs mem h body s us vs]; (rule keep, assumption+ | rule t | rule that))+
  note ends = tq.first_repr [OF t] tq.last_repr [OF t, folded first_ptr_rev]
  show "TAILQ_FOREACH mem body h s = visit body xs s" "TAILQ_FOREACH_SAFE mem body h s = visit body xs s"
    using fwd [of "[]" xs] ends by (simp_all add: TAILQ_FOREACH_def TAILQ_FOREACH_SAFE_def)
  show "TAILQ_FOREACH_REVERSE mem body h s = visit body (rev xs) s" "TAILQ_FOREACH_REVERSE_SAFE mem body h s = visit body (rev xs) s"
    using bwd [of xs "[]"] ends by (simp_all add: TAILQ_FOREACH_REVERSE_def TAILQ_FOREACH_REVERSE_SAFE_def)
  fix us x vs
  assume xs: "xs = us @ x # vs"
  show "TAILQ_FOREACH_FROM mem body (Some x) h s = visit body (x # vs) s" "TAILQ_FOREACH_FROM_SAFE mem body (Some x) h s = visit body (x # vs) s"
    using fwd [OF xs] by (simp_all add: TAILQ_FOREACH_FROM_def TAILQ_FOREACH_FROM_SAFE_def)
  show "TAILQ_FOREACH_REVERSE_FROM mem body (Some x) h s = visit body (x # rev us) s"
    "TAILQ_FOREACH_REVERSE_FROM_SAFE mem body (Some x) h s = visit body (x # rev us) s"
    using bwd [of "us @ [x]" vs] xs by (simp_all add: TAILQ_FOREACH_REVERSE_FROM_def TAILQ_FOREACH_REVERSE_FROM_SAFE_def)
next
  show "\<exists>M'. TAILQ_FOREACH_SAFE (\<lambda>M. M) (drop_elem TAILQ_REMOVE g) g M = Some (M', None) \<and> tailq M' g []"
    using tq.for_each_safe_drops [OF M] by (auto simp: TAILQ_FOREACH_SAFE_def)
  show "\<exists>M'. TAILQ_FOREACH_REVERSE_SAFE (\<lambda>M. M) (drop_elem TAILQ_REMOVE g) g M = Some (M', None) \<and> tailq M' g []"
    using reverse_safe_drops [OF M] tq.last_repr [OF M, folded first_ptr_rev] by (simp add: TAILQ_FOREACH_REVERSE_SAFE_def)
  show "TAILQ_FOREACH (\<lambda>M. M) (drop_elem TAILQ_REMOVE g) g M = None" if "ys \<noteq> []"
    using tq.for_each_drop_undefined M that by (cases ys) (simp_all add: TAILQ_FOREACH_def)
  show "\<exists>M'. insert_each TAILQ_INSERT_TAIL g es M = Some M' \<and> TAILQ_FOREACH fst note_elem g (M', []) = Some ((M', ys @ es), None)"
    using tq.fifo_order [OF M es] by (simp add: TAILQ_FOREACH_def)
qed

theorem tailq_traversals_correct_witness:
  "TAILQ_FOREACH_REVERSE fst note_elem 0 (\<lparr>cell = [Head 0 \<mapsto> Some 10, Elem 10 \<mapsto> Some 11, Elem 11 \<mapsto> None],
      second = [Head 0 \<mapsto> Elem 11, Elem 10 \<mapsto> Head 0, Elem 11 \<mapsto> Elem 10]\<rparr>, []) =
    Some ((\<lparr>cell = [Head 0 \<mapsto> Some 10, Elem 10 \<mapsto> Some 11, Elem 11 \<mapsto> None],
      second = [Head 0 \<mapsto> Elem 11, Elem 10 \<mapsto> Head 0, Elem 11 \<mapsto> Elem 10]\<rparr>, [11, 10]), None)"
proof -
  let ?M = "\<lparr>cell = [Head 0 \<mapsto> Some 10, Elem 10 \<mapsto> Some 11, Elem 11 \<mapsto> None],
      second = [Head 0 \<mapsto> Elem 11, Elem 10 \<mapsto> Head 0, Elem 11 \<mapsto> Elem 10]\<rparr>"
  have t: "tailq ?M 0 [10, 11]" by (simp add: tailq_def dlist_def)
  have "TAILQ_FOREACH_REVERSE fst note_elem 0 (?M, []) = visit note_elem (rev [10, 11]) (?M, [])"
    using tailq_traversals_correct [of "[10, 11]" fst 0 note_elem "(?M, [])" ?M 0 "[10, 11]" "[]"] t
    by (auto simp: note_elem_def)
  then show ?thesis by (simp add: note_elem_def)
qed

text \<open>
  C32. The same for the other lists and queues. A loop that notes the elements meets every element once, in order, from the first
  one or from the given one on, and the loop with the address of the link meets each element together with the link that leads
  to it. The safe loop whose body removes and releases the current element ends with the empty list. Elements
  inserted at the tail of a singly-linked tail queue are met in the order of their insertion, elements inserted at the head of a list in the
  opposite order.
\<close>

theorem list_traversals_correct:
  assumes "slist H p xs" and S: "stailq M h ys" and L: "dlist N g zs"
    and "\<forall>e \<in> set es. stailq_elem M e" "distinct es" "set es \<inter> set ys = {}"
    and "\<forall>e \<in> set ds. dlist_elem N e" "distinct ds" "set ds \<inter> set zs = {}"
  shows "(\<forall>us x vs. xs = us @ x # vs \<longrightarrow>
      SLIST_FOREACH_FROM fst (\<lambda>a s. Some ((fst s, snd s @ [a]), False)) (Some x) p (H, []) = Some ((H, x # vs), None) \<and>
      SLIST_FOREACH_FROM_SAFE fst (\<lambda>a s. Some ((fst s, snd s @ [a]), False)) (Some x) p (H, []) = Some ((H, x # vs), None)) \<and>
    SLIST_FOREACH_PREVPTR (\<lambda>s. p) (\<lambda>s. H) (\<lambda>a varp s. Some (s @ [(varp, a)], False)) None [] =
      Some (zip (None # map Some xs) xs, if xs = [] then None else Some (last xs)) \<and>
    (\<exists>H'. SLIST_FOREACH_SAFE fst slist_drop p (H, p) = Some ((H', None), None) \<and> dom H' = dom H - set xs) \<and>
    (\<forall>us x vs. ys = us @ x # vs \<longrightarrow>
      STAILQ_FOREACH_FROM fst note_elem (Some x) h (M, []) = Some ((M, x # vs), None) \<and>
      STAILQ_FOREACH_FROM_SAFE fst note_elem (Some x) h (M, []) = Some ((M, x # vs), None)) \<and>
    (\<exists>M'. STAILQ_FOREACH_SAFE (\<lambda>M. M) (drop_elem STAILQ_REMOVE h) h M = Some (M', None) \<and> stailq M' h []) \<and>
    (\<exists>M'. insert_each STAILQ_INSERT_TAIL h es M = Some M' \<and>
      STAILQ_FOREACH fst note_elem h (M', []) = Some ((M', ys @ es), None)) \<and>
    (\<forall>us x vs. zs = us @ x # vs \<longrightarrow>
      LIST_FOREACH_FROM fst note_elem (Some x) g (N, []) = Some ((N, x # vs), None) \<and>
      LIST_FOREACH_FROM_SAFE fst note_elem (Some x) g (N, []) = Some ((N, x # vs), None)) \<and>
    (\<exists>M'. LIST_FOREACH_SAFE (\<lambda>M. M) (drop_elem (\<lambda>M h. LIST_REMOVE M) g) g N = Some (M', None) \<and> dlist M' g []) \<and>
    (\<exists>M'. insert_each LIST_INSERT_HEAD g ds N = Some M' \<and>
      LIST_FOREACH fst note_elem g (M', []) = Some ((M', rev ds @ zs), None))"
proof (intro conjI allI impI)
  show "SLIST_FOREACH_PREVPTR (\<lambda>s. p) (\<lambda>s. H) (\<lambda>a varp s. Some (s @ [(varp, a)], False)) None [] =
      Some (zip (None # map Some xs) xs, if xs = [] then None else Some (last xs))"
    using slist_prevptr [of H p "[]" xs "[]"] assms(1) by simp
  show "\<exists>H'. SLIST_FOREACH_SAFE fst slist_drop p (H, p) = Some ((H', None), None) \<and> dom H' = dom H - set xs"
    by (rule slist_safe_drops [OF assms(1)])
  show "\<exists>M'. STAILQ_FOREACH_SAFE (\<lambda>M. M) (drop_elem STAILQ_REMOVE h) h M = Some (M', None) \<and> stailq M' h []"
    using stq.for_each_safe_drops [OF S] by (auto simp: STAILQ_FOREACH_SAFE_def)
  show "\<exists>M'. insert_each STAILQ_INSERT_TAIL h es M = Some M' \<and> STAILQ_FOREACH fst note_elem h (M', []) = Some ((M', ys @ es), None)"
    using stq.fifo_order [OF S assms(4-6)] by (simp add: STAILQ_FOREACH_def)
  show "\<exists>M'. LIST_FOREACH_SAFE (\<lambda>M. M) (drop_elem (\<lambda>M h. LIST_REMOVE M) g) g N = Some (M', None) \<and> dlist M' g []"
    using dl.for_each_safe_drops [OF L] by (auto simp: LIST_FOREACH_SAFE_def)
  show "\<exists>M'. insert_each LIST_INSERT_HEAD g ds N = Some M' \<and> LIST_FOREACH fst note_elem g (M', []) = Some ((M', rev ds @ zs), None)"
    using dl.insert_head_each [OF L assms(7-9)] dl.for_each_lists by (auto simp: LIST_FOREACH_def)
next
  fix us x vs
  assume "xs = us @ x # vs"
  with slist_for_each_from [of H p us "x # vs"] assms(1)
  show "SLIST_FOREACH_FROM fst (\<lambda>a s. Some ((fst s, snd s @ [a]), False)) (Some x) p (H, []) = Some ((H, x # vs), None)"
    "SLIST_FOREACH_FROM_SAFE fst (\<lambda>a s. Some ((fst s, snd s @ [a]), False)) (Some x) p (H, []) = Some ((H, x # vs), None)"
    by (simp_all add: SLIST_FOREACH_FROM_def SLIST_FOREACH_FROM_SAFE_def)
next
  fix us x vs
  assume "ys = us @ x # vs"
  with stq.lists_from [OF S, of us "x # vs"]
  show "STAILQ_FOREACH_FROM fst note_elem (Some x) h (M, []) = Some ((M, x # vs), None)"
    "STAILQ_FOREACH_FROM_SAFE fst note_elem (Some x) h (M, []) = Some ((M, x # vs), None)"
    by (simp_all add: STAILQ_FOREACH_FROM_def STAILQ_FOREACH_FROM_SAFE_def)
next
  fix us x vs
  assume "zs = us @ x # vs"
  with dl.lists_from [OF L, of us "x # vs"]
  show "LIST_FOREACH_FROM fst note_elem (Some x) g (N, []) = Some ((N, x # vs), None)"
    "LIST_FOREACH_FROM_SAFE fst note_elem (Some x) g (N, []) = Some ((N, x # vs), None)"
    by (simp_all add: LIST_FOREACH_FROM_def LIST_FOREACH_FROM_SAFE_def)
qed

theorem list_traversals_correct_witness:
  "\<exists>M'. insert_each STAILQ_INSERT_TAIL 0 [11, 12] \<lparr>cell = [Head 0 \<mapsto> None, Elem 11 \<mapsto> None, Elem 12 \<mapsto> Some 5], second = [Head 0 \<mapsto> Head 0]\<rparr> =
      Some M' \<and> STAILQ_FOREACH fst note_elem 0 (M', []) = Some ((M', [11, 12]), None)"
proof -
  let ?M = "\<lparr>cell = [Head 0 \<mapsto> None, Elem 11 \<mapsto> None, Elem 12 \<mapsto> Some 5], second = [Head 0 \<mapsto> Head 0]\<rparr>"
  have "slist Map.empty None []" "stailq ?M 0 []" "dlist ?M 0 []" "\<forall>e \<in> set [11, 12]. stailq_elem ?M e"
    "distinct [11, 12 :: nat]" "set [11, 12] \<inter> set ([] :: nat list) = {}" "\<forall>e \<in> set []. dlist_elem ?M e" "distinct ([] :: nat list)"
    "set [] \<inter> set ([] :: nat list) = {}"
    by (simp_all add: stailq_def stailq_elem_def dlist_def)
  from list_traversals_correct [OF this, unfolded append_Nil] show ?thesis by blast
qed

end
