(* ===== verification/Systemcalls.thy ===== *)
theory Systemcalls
  imports Aesd_Prelude
begin

text \<open>
  Running other programs (\<open>examples/systemcalls/systemcalls.c\<close>): \<open>do_system\<close>, \<open>do_exec\<close> and
  \<open>do_exec_redirect\<close>. The system calls are the fields of a record over an arbitrary type of
  operating-system states. \<open>fork\<close> returns in two processes; the code behind it is one definition that is
  run with a positive result in the parent and with 0 in the child, each from its own state. How a
  process leaves the function is a value of type \<open>exec_end\<close>; undefined behaviour of the
  variable argument list is \<open>None\<close>. Messages of \<open>perror\<close> are not modelled.
\<close>

unbundle bit_operations_syntax

section \<open>Status words\<close>

text \<open>The macros of \<open>sys/wait.h\<close> on the status word, as the C library defines them.\<close>

definition WIFEXITED :: "u32 \<Rightarrow> bool" where
  "WIFEXITED status \<longleftrightarrow> status AND 0x7f = 0"

definition WEXITSTATUS :: "u32 \<Rightarrow> u32" where
  "WEXITSTATUS status = drop_bit 8 (status AND 0xff00)"

text \<open>
  How a program ends: by \<open>exit\<close> with the low byte of a code, or by a signal, with or without a core dump;
  and the status word the kernel reports for it.
\<close>

datatype program_end = Prog_exit u8 | Prog_killed "7 word" bool

definition status_of :: "program_end \<Rightarrow> u32" where
  "status_of e =
     (case e of
        Prog_exit c \<Rightarrow> push_bit 8 (ucast c)
      | Prog_killed sig core \<Rightarrow> ucast sig OR (if core then 0x80 else 0))"

definition is_signal :: "program_end \<Rightarrow> bool" where
  "is_signal e = (case e of Prog_exit _ \<Rightarrow> True | Prog_killed sig _ \<Rightarrow> sig \<noteq> 0 \<and> sig \<noteq> 0x7f)"

lemma ucast_0_iff:
  "LENGTH('a) \<le> LENGTH('b) \<Longrightarrow> (ucast (x :: 'a::len word) :: 'b::len word) = 0 \<longleftrightarrow> x = 0"
proof
  assume le: "LENGTH('a) \<le> LENGTH('b)" and 0: "(ucast x :: 'b word) = 0"
  show "x = 0"
  proof (rule bit_word_eqI)
    fix n
    assume "n < LENGTH('a)"
    moreover have "\<not> bit (ucast x :: 'b word) n" by (simp add: 0)
    ultimately show "bit x n = bit (0 :: 'a word) n" using le by (simp add: bit_ucast_iff)
  qed
qed simp

lemma mask_127: "(w :: u32) AND 0x7f = take_bit 7 w"
  by (simp add: take_bit_eq_mask mask_eq_exp_minus_1)

lemma exitstatus_take: "WEXITSTATUS w = take_bit 8 (drop_bit 8 w)"
proof -
  have m: "(0xff00 :: u32) = push_bit 8 (mask 8)" by (simp add: mask_eq_exp_minus_1 push_bit_eq_mult)
  have "drop_bit 8 (w AND push_bit 8 (mask 8)) = take_bit 8 (drop_bit 8 w)"
    by (rule bit_word_eqI) (auto simp: bit_simps)
  then show ?thesis by (simp only: WEXITSTATUS_def m)
qed

lemma status_exit: "WIFEXITED (status_of (Prog_exit c))" "WEXITSTATUS (status_of (Prog_exit c)) = ucast c"
proof -
  have "take_bit 7 (push_bit 8 (ucast c) :: u32) = 0" by (rule bit_word_eqI) (auto simp: bit_simps)
  then show "WIFEXITED (status_of (Prog_exit c))" by (simp add: WIFEXITED_def status_of_def mask_127)
  have "take_bit 8 (drop_bit 8 (push_bit 8 (ucast c))) = (ucast c :: u32)"
    by (rule bit_word_eqI) (auto simp: bit_simps dest: bit_imp_le_length)
  then show "WEXITSTATUS (status_of (Prog_exit c)) = ucast c" by (simp add: exitstatus_take status_of_def)
qed

lemma status_killed:
  assumes "is_signal (Prog_killed sig core)"
  shows "\<not> WIFEXITED (status_of (Prog_killed sig core))" "WEXITSTATUS (status_of (Prog_killed sig core)) = 0"
proof -
  have "take_bit 7 (ucast sig OR (if core then 0x80 else 0) :: u32) = ucast sig"
  proof -
    have "take_bit 7 (0x80 :: u32) = 0" by simp
    moreover have "take_bit 7 (ucast sig :: u32) = ucast sig"
      by (rule bit_word_eqI) (auto simp: bit_simps dest: bit_imp_le_length)
    ultimately show ?thesis by (simp add: take_bit_or)
  qed
  moreover have "(ucast sig :: u32) \<noteq> 0" using assms by (simp add: is_signal_def ucast_0_iff)
  ultimately show "\<not> WIFEXITED (status_of (Prog_killed sig core))"
    by (simp add: WIFEXITED_def status_of_def mask_127)
  have "drop_bit 8 (ucast sig :: u32) = 0"
    by (rule bit_word_eqI) (auto simp: bit_simps dest: bit_imp_le_length)
  moreover have "drop_bit 8 (0x80 :: u32) = 0" by simp
  ultimately show "WEXITSTATUS (status_of (Prog_killed sig core)) = 0"
    by (simp add: exitstatus_take status_of_def drop_bit_or)
qed

section \<open>System calls\<close>

text \<open>
  \<open>execv\<close> returns only on failure: \<open>True\<close> stands for a replaced process image. \<open>open\<close> is always called with
  \<open>O_WRONLY | O_TRUNC | O_CREAT\<close> and mode 0644, and \<open>waitpid\<close> without options.
\<close>

record 'o proc_env =
  sc_system :: "'o \<Rightarrow> string option \<Rightarrow> 'o \<times> u32"
  sc_fork :: "'o \<Rightarrow> 'o \<times> int"
  sc_execv :: "'o \<Rightarrow> string option \<Rightarrow> string option list \<Rightarrow> 'o \<times> bool"
  sc_waitpid :: "'o \<Rightarrow> int \<Rightarrow> 'o \<times> int \<times> u32"
  sc_open :: "'o \<Rightarrow> string \<Rightarrow> 'o \<times> int"
  sc_dup2 :: "'o \<Rightarrow> int \<Rightarrow> int \<Rightarrow> 'o \<times> int"

text \<open>
  How a process leaves a function: it returns, it calls \<open>exit\<close>, or its image is replaced by the program of a path
  and an argument vector.
\<close>

datatype exec_end = Returns bool | Exits int | Becomes "string option" "string option list"

section \<open>The functions\<close>


text \<open>
  The loop that copies \<open>count\<close> variable arguments into the array \<open>command\<close> and the null pointer behind them. Taking
  more arguments than were passed is undefined, and so is an array of no elements.
\<close>

fun va_args :: "nat \<Rightarrow> string list \<Rightarrow> string option list option" where
  "va_args 0 args = Some []"
| "va_args (Suc n) [] = None"
| "va_args (Suc n) (a # args) = map_option ((#) (Some a)) (va_args n args)"

definition command_array :: "int \<Rightarrow> string list \<Rightarrow> string option list option" where
  "command_array count args =
     (if count + 1 \<le> 0 then None else map_option (\<lambda>xs. xs @ [None]) (va_args (nat count) args))"

text \<open>From the result of \<open>fork\<close> to the end of \<open>do_exec\<close>, in the process that got \<open>pid\<close>.\<close>

definition exec_forked :: "'o proc_env \<Rightarrow> string option list \<Rightarrow> 'o \<Rightarrow> int \<Rightarrow> 'o \<times> exec_end" where
  "exec_forked E command st pid =
     (if pid < 0 then (st, Returns False)
      else if pid = 0 then
        let (st1, replaced) = sc_execv E st (command ! 0) command in
        if replaced then (st1, Becomes (command ! 0) command) else (st1, Exits 1)
      else
        let (st1, r, status) = sc_waitpid E st pid in
        if r \<noteq> - 1 then (st1, Returns (WIFEXITED status \<and> WEXITSTATUS status = 0))
        else (st1, Returns True))"

definition do_exec :: "'o proc_env \<Rightarrow> 'o \<Rightarrow> int \<Rightarrow> string list \<Rightarrow> ('o \<times> exec_end) option" where
  "do_exec E st count args = do {
     command \<leftarrow> command_array count args;
     let (st1, pid) = sc_fork E st;
     Some (exec_forked E command st1 pid)
   }"



section \<open>Properties\<close>

lemma va_args_all: "va_args (length args) args = Some (map Some args)"
  by (induction args) simp_all

lemma command_array_all: "command_array (int (length args)) args = Some (map Some args @ [None])"
  by (simp add: command_array_def va_args_all)


lemma exit_test: "is_signal e \<Longrightarrow>
    WIFEXITED (status_of e) \<and> WEXITSTATUS (status_of e) = 0 \<longleftrightarrow> e = Prog_exit 0"
  by (cases e) (auto simp: status_exit status_killed ucast_0_iff)

lemma exit_status_test: "is_signal e \<Longrightarrow>
    WEXITSTATUS (status_of e) = 0 \<longleftrightarrow> e = Prog_exit 0 \<or> (\<exists>sig core. e = Prog_killed sig core)"
  by (cases e) (auto simp: status_exit status_killed ucast_0_iff)


text \<open>
  The status word the parent gets for a child that left the function in a given way, where \<open>program\<close> tells how the
  program of a path ends; a child that returned has not ended.
\<close>

definition reported ::
  "('o \<Rightarrow> string option \<Rightarrow> string option list \<Rightarrow> program_end) \<Rightarrow> 'o \<times> exec_end \<Rightarrow> u32 option" where
  "reported program = (\<lambda>(st, e).
     case e of
       Returns _ \<Rightarrow> None
     | Exits c \<Rightarrow> Some (status_of (Prog_exit (word_of_int c)))
     | Becomes path argv \<Rightarrow> Some (status_of (program st path argv)))"

lemma argv_0: "args \<noteq> [] \<Longrightarrow> (map Some args @ [None]) ! 0 = Some (hd args)"
  by (cases args) simp_all

lemma reported_exec:
  assumes "reported program (if replaced then (img, Becomes path argv) else (img, Exits 1)) = Some status"
    and "is_signal (program img path argv)"
  shows "WIFEXITED status \<and> WEXITSTATUS status = 0 \<longleftrightarrow> replaced \<and> program img path argv = Prog_exit 0"
    and "WEXITSTATUS status = 0 \<longleftrightarrow> replaced \<and> (case program img path argv of Prog_exit c \<Rightarrow> c = 0 | Prog_killed sig core \<Rightarrow> True)"
  using assms(1) exit_test [OF assms(2)] exit_status_test [OF assms(2)] status_exit [of 1]
  by (auto simp: reported_def split: if_splits program_end.splits)

text \<open>
  C33. Running a command, whatever the calls return. If the fork fails, \<open>do_exec\<close> returns false. In the child it executes the command with the given
  arguments and exits with 1 if that is not possible. In the parent it returns true exactly if the command was executed and ended by exiting
  with 0, \<^emph>\<open>or if waiting for it failed\<close>; a command that exits with another code, is killed by a signal or cannot be executed gives false.
\<close>

theorem do_exec_correct:
  assumes "args \<noteq> []" and "sc_fork E st = (t1, pid)" and "sc_waitpid E t1 pid = (t, r, status)"
    and "r \<noteq> - 1 \<Longrightarrow> reported program (exec_forked E (map Some args @ [None]) child 0) = Some status"
    and "sc_execv E child (Some (hd args)) (map Some args @ [None]) = (img, replaced)"
    and "is_signal (program img (Some (hd args)) (map Some args @ [None]))"
  shows "do_exec E st (int (length args)) args = Some
    (if pid < 0 then (t1, Returns False)
     else if pid = 0 then
       (case sc_execv E t1 (Some (hd args)) (map Some args @ [None]) of
          (u, True) \<Rightarrow> (u, Becomes (Some (hd args)) (map Some args @ [None])) | (u, False) \<Rightarrow> (u, Exits 1))
     else (t, Returns (r = - 1 \<or> replaced \<and> program img (Some (hd args)) (map Some args @ [None]) = Prog_exit 0)))"
proof -
  let ?argv = "map Some args @ [None]"
  have "WIFEXITED status \<and> WEXITSTATUS status = 0 \<longleftrightarrow> replaced \<and> program img (Some (hd args)) ?argv = Prog_exit 0" if "r \<noteq> - 1"
    using reported_exec(1) [of program replaced img "Some (hd args)" ?argv status] assms(4) [OF that] assms(5,6) argv_0 [OF assms(1)]
    by (simp add: exec_forked_def split: if_splits)
  then show ?thesis using assms(2,3) argv_0 [OF assms(1)]
    by (auto simp: do_exec_def command_array_all exec_forked_def split: prod.splits)
qed



section \<open>A concrete system\<close>

text \<open>A system whose one program ends in a given way; the states count the calls.\<close>

definition demo_env :: "program_end \<Rightarrow> nat proc_env" where
  "demo_env e =
     \<lparr>sc_system = (\<lambda>st _. (st + 1, status_of e)), sc_fork = (\<lambda>st. (st + 1, 42)), sc_execv = (\<lambda>st _ _. (st + 1, True)),
      sc_waitpid = (\<lambda>st pid. (st + 1, pid, status_of e)), sc_open = (\<lambda>st _. (st + 1, 3)),
      sc_dup2 = (\<lambda>st _ new. (st + 1, new))\<rparr>"

theorem do_exec_correct_witness:
  "do_exec (demo_env (Prog_exit 0)) 0 2 [''/bin/echo'', ''hi''] = Some (2, Returns True)"
  using do_exec_correct [of "[''/bin/echo'', ''hi'']" "demo_env (Prog_exit 0)" 0 1 42 2 42 "status_of (Prog_exit 0)"
      "\<lambda>_ _ _. Prog_exit 0" 1 2 True]
  by (simp add: demo_env_def reported_def exec_forked_def is_signal_def)



end
