(* ===== verification/Threading.thy ===== *)
theory Threading
  imports Lock_Discipline
begin

text \<open>
  Threads that wait, obtain a mutex, hold it and release it (\<open>examples/threading/threading.c\<close>). The first part
  is the code of one thread and of the function that starts it, over a heap of \<open>thread_data\<close> blocks with the
  library calls as parameters. The second part lets any number of such threads run interleaved on
  one mutex, one call of \<open>threadfunc\<close> at a time.
\<close>

section \<open>The functions\<close>

record thread_data =
  mutex :: nat
  wait_to_obtain_ms :: int
  wait_to_release_ms :: int
  thread_complete_success :: bool

type_synonym td_heap = "nat \<rightharpoonup> thread_data"

text \<open>
  The library calls. \<open>pt_malloc\<close> returns a block and what it happens to hold, or a null pointer; \<open>pt_create\<close> returns its
  result and the identifier of the new thread. Every call returns 0 on success.
\<close>

record 'o pthreads =
  pt_usleep :: "'o \<Rightarrow> u32 \<Rightarrow> 'o \<times> int"
  pt_mutex_lock :: "'o \<Rightarrow> nat \<Rightarrow> 'o \<times> int"
  pt_mutex_unlock :: "'o \<Rightarrow> nat \<Rightarrow> 'o \<times> int"
  pt_malloc :: "'o \<Rightarrow> 'o \<times> (nat \<times> thread_data) option"
  pt_create :: "'o \<Rightarrow> nat \<Rightarrow> 'o \<times> int \<times> nat"

text \<open>
  The argument of \<open>usleep\<close>: a product of two \<open>int\<close> values, undefined if it overflows, converted to
  an unsigned number.
\<close>

definition usecs :: "int \<Rightarrow> u32 option" where
  "usecs ms = (if - (2 ^ 31) \<le> ms * 1000 \<and> ms * 1000 < 2 ^ 31 then Some (word_of_int (ms * 1000)) else None)"

definition set_success :: "bool \<Rightarrow> nat \<Rightarrow> td_heap \<Rightarrow> td_heap" where
  "set_success b a H = H(a := map_option (\<lambda>td. td\<lparr>thread_complete_success := b\<rparr>) (H a))"

definition threadfunc :: "'o pthreads \<Rightarrow> 'o \<Rightarrow> td_heap \<Rightarrow> nat \<Rightarrow> ('o \<times> td_heap \<times> nat) option" where
  "threadfunc E st H thread_param = do {
     args \<leftarrow> H thread_param;
     let H = set_success True thread_param H;
     obtain_us \<leftarrow> usecs (wait_to_obtain_ms args);
     let (st, r) = pt_usleep E st obtain_us;
     let H = (if r \<noteq> 0 then set_success False thread_param H else H);
     let (st, r) = pt_mutex_lock E st (mutex args);
     let H = (if r \<noteq> 0 then set_success False thread_param H else H);
     release_us \<leftarrow> usecs (wait_to_release_ms args);
     let (st, r) = pt_usleep E st release_us;
     let H = (if r \<noteq> 0 then set_success False thread_param H else H);
     let (st, r) = pt_mutex_unlock E st (mutex args);
     let H = (if r \<noteq> 0 then set_success False thread_param H else H);
     Some (st, H, thread_param)
   }"

text \<open>The result: the heap behind the call, the identifier stored through \<open>thread\<close> if one was stored, and the returned value.\<close>

definition start_thread_obtaining_mutex ::
  "'o pthreads \<Rightarrow> 'o \<Rightarrow> td_heap \<Rightarrow> nat \<Rightarrow> int \<Rightarrow> int \<Rightarrow> 'o \<times> td_heap \<times> nat option \<times> bool" where
  "start_thread_obtaining_mutex E st H mtx obtain_ms release_ms =
     (let (st1, block) = pt_malloc E st in
      case block of
        None \<Rightarrow> (st1, H, None, False)
      | Some (thread_param, garbage) \<Rightarrow>
          let H1 = H(thread_param \<mapsto> garbage\<lparr>mutex := mtx, wait_to_obtain_ms := obtain_ms, wait_to_release_ms := release_ms\<rparr>);
              (st2, r, tid) = pt_create E st1 thread_param
          in if r \<noteq> 0 then (st2, H1, None, False) else (st2, H1, Some tid, True))"

section \<open>One thread\<close>

lemma usecs_None_iff: "usecs ms = None \<longleftrightarrow> \<not> (- 2147483 \<le> ms \<and> ms \<le> 2147483)"
  by (auto simp: usecs_def)

lemma set_success_simps:
  "set_success b a (set_success b' a H) = set_success b a H"
  "set_success b a H a = map_option (\<lambda>td. td\<lparr>thread_complete_success := b\<rparr>) (H a)"
  "a \<noteq> c \<Longrightarrow> set_success b a H c = H c"
  by (auto simp: set_success_def map_option.compositionality comp_def fun_eq_iff option.map_comp)

lemma set_success_Some: "H a = Some td \<Longrightarrow> set_success b a H = H(a \<mapsto> td\<lparr>thread_complete_success := b\<rparr>)"
  by (simp add: set_success_def)

text \<open>
  C37. One thread: with waiting times that can be multiplied by 1000, \<open>threadfunc\<close> makes its four calls in order, whatever
  they return, and returns its own block, with \<open>thread_complete_success\<close> true exactly if all
  four calls returned 0. In particular the mutex is unlocked even if locking it failed. A waiting time outside
  \<open>-2147483 .. 2147483\<close> is undefined behaviour.
\<close>

theorem threadfunc_correct:
  assumes "H a = Some td"
  shows "if wait_to_obtain_ms td \<in> {- 2147483..2147483} \<and> wait_to_release_ms td \<in> {- 2147483..2147483} then
      (let (s1, r1) = pt_usleep E st (word_of_int (wait_to_obtain_ms td * 1000));
           (s2, r2) = pt_mutex_lock E s1 (mutex td);
           (s3, r3) = pt_usleep E s2 (word_of_int (wait_to_release_ms td * 1000));
           (s4, r4) = pt_mutex_unlock E s3 (mutex td)
       in threadfunc E st H a =
         Some (s4, H(a \<mapsto> td\<lparr>thread_complete_success := (\<forall>r \<in> {r1, r2, r3, r4}. r = 0)\<rparr>), a))
    else threadfunc E st H a = None"
proof (cases "wait_to_obtain_ms td \<in> {- 2147483..2147483} \<and> wait_to_release_ms td \<in> {- 2147483..2147483}")
  case True
  then have "usecs (wait_to_obtain_ms td) = Some (word_of_int (wait_to_obtain_ms td * 1000))"
    "usecs (wait_to_release_ms td) = Some (word_of_int (wait_to_release_ms td * 1000))"
    by (simp_all add: usecs_def)
  then show ?thesis using True assms
    by (simp add: threadfunc_def Let_def set_success_simps set_success_Some [of H a td] split: prod.splits)
      (simp add: set_success_def)
next
  case False
  then have "usecs (wait_to_obtain_ms td) = None \<or> usecs (wait_to_release_ms td) = None"
    by (auto simp: usecs_None_iff)
  then show ?thesis using False assms by (auto simp: threadfunc_def bind_eq_None_conv split: prod.splits)
qed

text \<open>
  C38. Starting a thread: the result is true exactly if a block was allocated and the thread was created; then the
  block holds the given mutex and waiting times and the identifier is stored. If creating the thread fails, the result
  is false but the new block stays allocated.
\<close>

theorem start_thread_correct:
  assumes "pt_malloc E st = (t, block)" and "\<And>a g. block = Some (a, g) \<Longrightarrow> H a = None"
  shows "\<exists>st' H' id ok. start_thread_obtaining_mutex E st H m w1 w2 = (st', H', id, ok) \<and>
    (ok \<longleftrightarrow> (\<exists>a g. block = Some (a, g) \<and> fst (snd (pt_create E t a)) = 0)) \<and>
    (id \<noteq> None \<longleftrightarrow> ok) \<and> (block = None \<longrightarrow> H' = H) \<and>
    (\<forall>a g. block = Some (a, g) \<longrightarrow> dom H' = insert a (dom H) \<and> a \<notin> dom H \<and> (\<forall>c. c \<noteq> a \<longrightarrow> H' c = H c) \<and>
       (\<exists>td. H' a = Some td \<and> mutex td = m \<and> wait_to_obtain_ms td = w1 \<and> wait_to_release_ms td = w2) \<and>
       (ok \<longrightarrow> id = Some (snd (snd (pt_create E t a)))))"
proof (cases block)
  case None
  then show ?thesis using assms(1) by (simp add: start_thread_obtaining_mutex_def)
next
  case (Some ag)
  obtain a g where ag: "ag = (a, g)" by force
  have "H a = None" using assms(2) Some ag by blast
  then show ?thesis using assms(1) Some ag
    by (auto simp: start_thread_obtaining_mutex_def case_prod_beta Let_def)
qed

section \<open>Many threads\<close>

text \<open>The place of a thread in \<open>threadfunc\<close>: before one of its four calls, or at its end.\<close>

datatype tpc = At_obtain_sleep | At_lock | At_release_sleep | At_unlock | Returned

text \<open>
  What the thread whose block is \<open>i\<close> does next, where \<open>res i p\<close> is the result of its call at the place \<open>p\<close>. Locking waits for the mutex; a lock call that
  fails does not acquire it and an unlock call that fails does not release it, and the thread goes on in either case.
\<close>

definition thread_prog :: "(nat \<Rightarrow> tpc \<Rightarrow> int) \<Rightarrow> (tpc, td_heap) program" where
  "thread_prog res i p H =
     (let failed = res i p \<noteq> 0 in
      case p of
        At_obtain_sleep \<Rightarrow>
          let H1 = set_success True i H in [(Local, At_lock, if failed then set_success False i H1 else H1)]
      | At_lock \<Rightarrow> if failed then [(Local, At_release_sleep, set_success False i H)] else [(Acquire, At_release_sleep, H)]
      | At_release_sleep \<Rightarrow> [(Local, At_unlock, if failed then set_success False i H else H)]
      | At_unlock \<Rightarrow> if failed then [(Local, Returned, set_success False i H)] else [(Release, Returned, H)]
      | Returned \<Rightarrow> [])"

definition holding :: "tpc \<Rightarrow> bool" where
  "holding p \<longleftrightarrow> p = At_release_sleep \<or> p = At_unlock"

fun calls_left :: "tpc \<Rightarrow> nat" where
  "calls_left At_obtain_sleep = 4"
| "calls_left At_lock = 3"
| "calls_left At_release_sleep = 2"
| "calls_left At_unlock = 1"
| "calls_left Returned = 0"

text \<open>The same results, but for lock and unlock calls, which succeed.\<close>

definition sound :: "(nat \<Rightarrow> tpc \<Rightarrow> int) \<Rightarrow> nat \<Rightarrow> tpc \<Rightarrow> int" where
  "sound res i p = (if p = At_lock \<or> p = At_unlock then 0 else res i p)"

lemma sound_same: "\<forall>i. res i At_lock = 0 \<and> res i At_unlock = 0 \<Longrightarrow> sound res = res"
  by (auto simp: sound_def fun_eq_iff)

interpretation rk: ranked_program "thread_prog res" calls_left for res
  by unfold_locales (auto simp: thread_prog_def Let_def split: tpc.splits if_splits)

interpretation th: ending_lock_program "thread_prog (sound res)" holding calls_left for res
  by unfold_locales (auto simp: thread_prog_def holding_def sound_def Let_def split: tpc.splits if_splits)

definition started :: "nat set \<Rightarrow> td_heap \<Rightarrow> (tpc, td_heap) pool" where
  "started T H = \<lparr>owner = None, pcs = (\<lambda>i. if i \<in> T then At_obtain_sleep else Returned), shared = H\<rparr>"

lemma started_ok: "th.owner_inside (started T H)" "rk.idle_outside T (started T H)"
  by (simp_all add: th.owner_inside_def rk.idle_outside_def started_def holding_def)

text \<open>
  Each block is written by its own thread only, and holds what \<open>threadfunc\<close> has computed so far: whether all calls before the place of
  the thread returned 0.
\<close>

fun calls_before :: "tpc \<Rightarrow> tpc list" where
  "calls_before At_obtain_sleep = []"
| "calls_before At_lock = [At_obtain_sleep]"
| "calls_before At_release_sleep = [At_obtain_sleep, At_lock]"
| "calls_before At_unlock = [At_obtain_sleep, At_lock, At_release_sleep]"
| "calls_before Returned = [At_obtain_sleep, At_lock, At_release_sleep, At_unlock]"

definition block_ok :: "(nat \<Rightarrow> tpc \<Rightarrow> int) \<Rightarrow> td_heap \<Rightarrow> (tpc, td_heap) pool \<Rightarrow> nat \<Rightarrow> bool" where
  "block_ok res H s i \<longleftrightarrow> shared s i =
     (if pcs s i = At_obtain_sleep then H i else set_success (list_all (\<lambda>p. res i p = 0) (calls_before (pcs s i))) i H i)"

lemma block_ok_step:
  assumes "pool_step (thread_prog res) s s'" and "block_ok res H s i"
  shows "block_ok res H s' i"
  using assms
  by (cases rule: pool_step.cases)
    (auto simp: block_ok_def thread_prog_def Let_def set_success_def option.map_comp comp_def split: tpc.splits if_splits)

lemma block_ok_run:
  assumes "(pool_step (thread_prog res))\<^sup>*\<^sup>* (started T H) s" and "i \<in> T"
  shows "block_ok res H s i"
  using assms(1)
proof (induction rule: rtranclp_induct)
  case base
  show ?case using assms(2) by (simp add: block_ok_def started_def)
qed (rule block_ok_step)

text \<open>An environment whose calls return the numbers of a list one after the other.\<close>

definition scripted :: "int list pthreads" where
  "scripted =
     \<lparr>pt_usleep = (\<lambda>rs _. (tl rs, hd rs)), pt_mutex_lock = (\<lambda>rs _. (tl rs, hd rs)),
      pt_mutex_unlock = (\<lambda>rs _. (tl rs, hd rs)), pt_malloc = (\<lambda>rs. (rs, None)), pt_create = (\<lambda>rs _. (tl rs, hd rs, 0))\<rparr>"

lemma threadfunc_scripted:
  assumes "H i = Some td" and "usecs (wait_to_obtain_ms td) = Some u" and "usecs (wait_to_release_ms td) = Some v"
  shows "threadfunc scripted [r1, r2, r3, r4] H i = Some ([], set_success (r1 = 0 \<and> r2 = 0 \<and> r3 = 0 \<and> r4 = 0) i H, i)"
  using assms by (simp add: threadfunc_def scripted_def set_success_simps Let_def)

text \<open>
  C36. Any number of threads on one mutex, whatever their calls return: however they are interleaved, there are at most four steps per thread, and a thread
  that returned has left in its block, and there only, exactly what a run of \<open>threadfunc\<close> on its own leaves with the same results of its calls. If no lock or unlock call fails, a
  thread is between its lock and its unlock call exactly if it owns the mutex, so at most one is, and none unlocks a mutex it does not own; and a pool that
  cannot go on has a free mutex and all its threads have returned. A thread whose lock call fails goes on as if it had the mutex: it sleeps and will
  call unlock, whoever owns the mutex.
\<close>

theorem threads_end:
  assumes "finite T" and "(pool_step (thread_prog res) ^^ k) (started T H) s"
    and "\<forall>i \<in> T. \<exists>td. H i = Some td \<and> usecs (wait_to_obtain_ms td) \<noteq> None \<and> usecs (wait_to_release_ms td) \<noteq> None"
  shows "k \<le> 4 * card T \<and>
    (\<forall>i \<in> T. pcs s i = Returned \<longrightarrow>
      threadfunc scripted [res i At_obtain_sleep, res i At_lock, res i At_release_sleep, res i At_unlock] H i = Some ([], H(i := shared s i), i)) \<and>
    ((\<forall>i. res i At_lock = 0 \<and> res i At_unlock = 0) \<longrightarrow>
      (\<forall>i. holding (pcs s i) \<longleftrightarrow> owner s = Some i) \<and> \<not> bad_release (thread_prog res) s \<and>
      ((\<nexists>s'. pool_step (thread_prog res) s s') \<longrightarrow> owner s = None \<and> (\<forall>i \<in> T. pcs s i = Returned))) \<and>
    (\<forall>i. pcs s i = At_lock \<and> res i At_lock \<noteq> 0 \<longrightarrow>
      (\<exists>s'. pool_step (thread_prog res) s s' \<and> pcs s' i = At_release_sleep \<and> owner s' = owner s))"
proof (intro conjI impI ballI allI)
  have "rk.total T (started T H) = 4 * card T" by (simp add: rk.total_def started_def)
  then show "k \<le> 4 * card T" using rk.run_length [OF assms(2,1) started_ok(2)] by simp
  have run: "(pool_step (thread_prog res))\<^sup>*\<^sup>* (started T H) s" using assms(2) by (rule relpowp_imp_rtranclp)
  show "threadfunc scripted [res i At_obtain_sleep, res i At_lock, res i At_release_sleep, res i At_unlock] H i = Some ([], H(i := shared s i), i)"
    if i: "i \<in> T" and p: "pcs s i = Returned" for i
  proof -
    obtain td u v where td: "H i = Some td" "usecs (wait_to_obtain_ms td) = Some u" "usecs (wait_to_release_ms td) = Some v"
      using assms(3) i by blast
    let ?b = "list_all (\<lambda>p. res i p = 0) (calls_before Returned)"
    have "shared s i = set_success ?b i H i" using block_ok_run [OF run i] p by (simp add: block_ok_def)
    then have "H(i := shared s i) = set_success ?b i H" by (simp add: set_success_def)
    then show ?thesis using threadfunc_scripted [of H i, OF td] by simp
  qed
  show "\<exists>s'. pool_step (thread_prog res) s s' \<and> pcs s' i = At_release_sleep \<and> owner s' = owner s"
    if "pcs s i = At_lock \<and> res i At_lock \<noteq> 0" for i
    using that act_local [of At_release_sleep "set_success False i (shared s)" "thread_prog res" i s]
    by (intro exI [of _ "advance i At_release_sleep (set_success False i (shared s)) s"]) (simp add: thread_prog_def)
  assume "\<forall>i. res i At_lock = 0 \<and> res i At_unlock = 0"
  note same = sound_same [OF this]
  note inv = th.owner_inside_run [of res, unfolded same, OF run started_ok(1)]
  show "holding (pcs s i) \<longleftrightarrow> owner s = Some i" for i using inv by (simp add: th.owner_inside_def)
  show "\<not> bad_release (thread_prog res) s" by (rule th.mutual_exclusion(2) [of res, unfolded same, OF run started_ok(1)])
  assume "\<nexists>s'. pool_step (thread_prog res) s s'"
  note fin = th.stuck_finished [of _ res, unfolded same, OF inv this]
  show "owner s = None" by (rule fin(2))
  show "pcs s i = Returned" if "i \<in> T" for i using fin(1) [of i] by (cases "pcs s i") simp_all
qed

section \<open>Concrete threads\<close>

definition demo_heap :: td_heap where
  "demo_heap = [1 \<mapsto> \<lparr>mutex = 7, wait_to_obtain_ms = 5, wait_to_release_ms = 10, thread_complete_success = False\<rparr>]"

theorem threadfunc_correct_witness:
  "threadfunc scripted [0, 22, 0, 1] demo_heap 1 = Some ([], demo_heap, 1)"
  using threadfunc_correct [of demo_heap 1 "the (demo_heap 1)" scripted "[0, 22, 0, 1]"]
  by (simp add: demo_heap_def scripted_def)

theorem start_thread_correct_witness:
  "snd (start_thread_obtaining_mutex (scripted\<lparr>pt_malloc := \<lambda>rs. (rs, Some (2, the (demo_heap 1)))\<rparr>) [11] demo_heap 7 5 10) =
     (demo_heap(2 \<mapsto> the (demo_heap 1)), None, False)"
  using start_thread_correct [of "scripted\<lparr>pt_malloc := \<lambda>rs. (rs, Some (2, the (demo_heap 1)))\<rparr>" "[11]" "[11]"
      "Some (2, the (demo_heap 1))" demo_heap 7 5 10]
  by (simp add: start_thread_obtaining_mutex_def demo_heap_def scripted_def)

definition demo_pool :: "nat option \<Rightarrow> tpc \<Rightarrow> td_heap \<Rightarrow> (tpc, td_heap) pool" where
  "demo_pool ow p H = \<lparr>owner = ow, pcs = (\<lambda>_. Returned)(1 := p), shared = H\<rparr>"

lemma demo_started: "started {1} H = demo_pool None At_obtain_sleep H"
  by (auto simp: started_def demo_pool_def)

abbreviation demo_res :: "nat \<Rightarrow> tpc \<Rightarrow> int" where
  "demo_res \<equiv> \<lambda>i p. 0"

lemma demo_steps:
  "pool_step (thread_prog demo_res) (demo_pool None At_obtain_sleep H) (demo_pool None At_lock (set_success True 1 H))"
  "pool_step (thread_prog demo_res) (demo_pool None At_lock H) (demo_pool (Some 1) At_release_sleep H)"
  "pool_step (thread_prog demo_res) (demo_pool (Some 1) At_release_sleep H) (demo_pool (Some 1) At_unlock H)"
  "pool_step (thread_prog demo_res) (demo_pool (Some 1) At_unlock H) (demo_pool None Returned H)"
  using act_local [of At_lock "set_success True 1 H" "thread_prog demo_res" 1 "demo_pool None At_obtain_sleep H"]
    act_acquire [of At_release_sleep H "thread_prog demo_res" 1 "demo_pool None At_lock H"]
    act_local [of At_unlock H "thread_prog demo_res" 1 "demo_pool (Some 1) At_release_sleep H"]
    act_release [of Returned H "thread_prog demo_res" 1 "demo_pool (Some 1) At_unlock H"]
  by (simp_all add: demo_pool_def advance_def thread_prog_def)

lemmas demo_held = run_Suc [OF run_Suc [OF run_0 demo_steps(1)] demo_steps(2)]
lemmas demo_done = run_Suc [OF run_Suc [OF demo_held demo_steps(3)] demo_steps(4)]

lemma demo_run: "(pool_step (thread_prog demo_res) ^^ 4) (started {1} H) (demo_pool None Returned (set_success True 1 H))"
  unfolding demo_started using demo_done [of H] by (simp only: eval_nat_numeral BitM.simps)

theorem threads_end_witness:
  "threadfunc scripted [0, 0, 0, 0] demo_heap 1 = Some ([], set_success True 1 demo_heap, 1) \<and>
   \<not> bad_release (thread_prog demo_res) (demo_pool None Returned (set_success True 1 demo_heap)) \<and> (4 :: nat) \<le> 4 * card {1 :: nat}"
proof -
  let ?s = "demo_pool None Returned (set_success True 1 demo_heap)"
  have "\<forall>i \<in> {1}. \<exists>td. demo_heap i = Some td \<and> usecs (wait_to_obtain_ms td) \<noteq> None \<and> usecs (wait_to_release_ms td) \<noteq> None"
    by (simp add: demo_heap_def usecs_def)
  note E = threads_end [OF _ demo_run this]
  have "demo_heap(1 := shared ?s 1) = set_success True 1 demo_heap" by (simp add: demo_pool_def set_success_def)
  moreover have "pcs ?s 1 = Returned" by (simp add: demo_pool_def)
  ultimately show ?thesis using E by auto
qed

end
