(* ===== verification/Writer.thy ===== *)
theory Writer
  imports Aesd_Prelude
begin

text \<open>
  The writer utility (\<open>finder-app/writer.c\<close>): put a string into a file. The part of \<open>stdio\<close> that it uses is modelled on
  a set of named files: which names can be opened for writing and how many bytes fit behind a name are given by the
  system, output is buffered in the stream and reaches the file when the stream is closed. Messages to
  the terminal and to the system log are not modelled.
\<close>

section \<open>Streams\<close>

record stdio =
  files :: "string \<rightharpoonup> char list"
  openable :: "string \<Rightarrow> bool"
  room :: "string \<Rightarrow> nat"
  streams :: "(string \<times> char list) list"

text \<open>
  \<open>fopen\<close> with mode \<open>w\<close> creates or truncates the file; the stream is its place in the list of streams.
  \<open>fprintf\<close> with the format \<open>%s\<close> returns the number of bytes it put into the buffer; \<open>fclose\<close> writes the buffer to the file as
  far as it fits and returns 0, or \<open>EOF\<close> (-1) if some bytes were lost.
\<close>

definition fopen_w :: "stdio \<Rightarrow> string \<Rightarrow> stdio \<times> nat option" where
  "fopen_w st path =
     (if openable st path
      then (st\<lparr>files := (files st)(path \<mapsto> []), streams := streams st @ [(path, [])]\<rparr>, Some (length (streams st)))
      else (st, None))"

definition fprintf_s :: "stdio \<Rightarrow> nat \<Rightarrow> string \<Rightarrow> stdio \<times> int" where
  "fprintf_s st f str =
     (let (path, buf) = streams st ! f in (st\<lparr>streams := (streams st)[f := (path, buf @ str)]\<rparr>, int (length str)))"

definition fclose :: "stdio \<Rightarrow> nat \<Rightarrow> stdio \<times> int" where
  "fclose st f =
     (let (path, buf) = streams st ! f; written = take (room st path) buf
      in (st\<lparr>files := (files st)(path \<mapsto> written)\<rparr>, if length written = length buf then 0 else - 1))"

section \<open>The program\<close>

text \<open>\<open>main\<close> of the writer: the argument vector starts with the name of the program; the result is the exit status.\<close>

definition writer_main :: "stdio \<Rightarrow> string list \<Rightarrow> stdio \<times> int" where
  "writer_main st argv =
     (if length argv < 3 then (st, 1)
      else
        let filename = argv ! 1; string = argv ! 2;
            (st1, file) = fopen_w st filename
        in case file of
             None \<Rightarrow> (st1, 1)
           | Some f \<Rightarrow>
               let (st2, _) = fprintf_s st1 f string;
                   (st3, _) = fclose st2 f
               in (st3, 0))"

text \<open>
  C39. The writer: with fewer than two arguments, or for a file that cannot be opened, the exit status is 1 and no file
  changes, so no missing directory is made; otherwise the status is 0, no other file changes, and the file holds the
  string as far as it fits, in place of what it held before. The status is 0 even if bytes were lost.
\<close>

theorem writer_main_correct:
  "case writer_main st argv of (st', status) \<Rightarrow>
     if 3 \<le> length argv \<and> openable st (argv ! 1)
     then status = 0 \<and> files st' = (files st)(argv ! 1 \<mapsto> take (room st (argv ! 1)) (argv ! 2)) \<and>
       (files st' (argv ! 1) = Some (argv ! 2) \<longleftrightarrow> length (argv ! 2) \<le> room st (argv ! 1))
     else status = 1 \<and> files st' = files st"
proof -
  have "take n xs = xs \<longleftrightarrow> length xs \<le> n" for n and xs :: string
    by (metis length_take min.cobounded1 min_def take_all)
  then show ?thesis by (auto simp: writer_main_def fopen_w_def fprintf_s_def fclose_def nth_append Let_def)
qed

end
