(* ===== verification/Autotest.thy ===== *)
theory Autotest
  imports Aesd_Prelude
begin

text \<open>
  The program that validates the test set-up (\<open>examples/autotest-validate\<close>) and the test of the user name
  (\<open>student-test/assignment1\<close>). The function that reads the name from the configuration file belongs to a submodule; its
  result is a parameter.
\<close>

definition this_function_returns_true :: bool where
  "this_function_returns_true = True"

definition this_function_returns_false :: bool where
  "this_function_returns_false = False"

definition my_username :: string where
  "my_username = ''Amr-Khaled-BS''"

definition bool_text :: "bool \<Rightarrow> string" where
  "bool_text b = (if b then ''true'' else ''false'')"

text \<open>What the program prints, and its exit status.\<close>

definition autotest_main :: "string \<times> int" where
  "autotest_main =
     (''this_function_returns_true returned '' @ bool_text this_function_returns_true @ [newline] @
      ''this_function_returns_false returned '' @ bool_text this_function_returns_false @ [newline], 0)"

text \<open>Whether the test passes, for the name read from the configuration file (\<open>None\<close> if it could not be read).\<close>

definition test_validate_my_username :: "string option \<Rightarrow> bool" where
  "test_validate_my_username malloc_username_from_conf_file = (malloc_username_from_conf_file = Some my_username)"

lemma autotest_main_lines:
  "autotest_main = (''this_function_returns_true returned true\<newline>this_function_returns_false returned false\<newline>'', 0)"
  by (simp add: autotest_main_def bool_text_def this_function_returns_true_def this_function_returns_false_def)

lemma test_passes_iff: "test_validate_my_username name \<longleftrightarrow> name = Some ''Amr-Khaled-BS''"
  by (simp add: test_validate_my_username_def my_username_def)

end
