(* ===== verification/Spec2Isabelle.thy ===== *)
theory Spec2Isabelle
  imports Driver_Findings Server_Sessions Server_Lifecycle Server_Race Server_Interleaved Queue_Properties Systemcalls Threading Writer Autotest
begin

text \<open>
  \<^bold>\<open>Verification of the AESD programs\<close>

  The repository holds a Linux character driver that remembers the last ten newline-terminated commands written to it, a
  socket server that stores what its clients send in that device and sends the stored commands back, and
  smaller programs on processes, threads and files. This development models the C code of these parts as HOL
  functions, one definition per C function or phase of a function, and proves what they do on every branch. All paths
  below are relative to \<open>src\<close>.

  \<^bold>\<open>Conventions.\<close> A definition of option type is \<open>None\<close> exactly where the C code has undefined behaviour (a null
  or dangling pointer, an index outside an array, memory released twice) or, for the loops defined with
  \<open>partial_function (option)\<close>, where it does not end; error codes are ordinary values. Code that is not part of the
  repository is a parameter: the kernel services of the driver (record \<open>kernel\<close>, theory \<open>Kernel_Env\<close>), the system and library calls of the
  server (record \<open>os\<close>, \<open>Server_Env\<close>), of the process functions (record \<open>proc_env\<close>, \<open>Systemcalls\<close>) and of the threads (record
  \<open>pthreads\<close>, \<open>Threading\<close>). What the driver relies on is the predicate \<open>kernel_ok\<close>, whose parts state the documented
  behaviour of each service, failure included; \<open>grants R\<close> says of a kernel that it has resources to spare for commands of \<open>R\<close> bytes, and is
  a hypothesis only where a result is promised to succeed. Sizes and positions are 64-bit words, ring indices 8-bit words,
  ioctl arguments and wait statuses 32-bit words.

  \<^bold>\<open>Circular buffer\<close> (\<open>aesd-char-driver/aesd-circular-buffer.c\<close>, \<open>.h\<close>). \<open>Circular_Buffer\<close> has the structures, the three
  functions and the loop macro. \<open>Log_Interface\<close> states what the driver needs of it as the locales \<open>bounded_log\<close> and \<open>searchable_log\<close>; the
  interpretation \<open>cb\<close> discharges them for the C functions. \<open>Buffer_Properties\<close>: any sequence of additions leaves the last
  ten entries, one addition on every branch, and the search agrees with the position in the concatenation.

  \<^bold>\<open>Character driver\<close> (\<open>aesd-char-driver/main.c\<close>, \<open>aesdchar.h\<close>, \<open>aesd_ioctl.h\<close>). \<open>Aesd_Device\<close> has the state \<open>kstate\<close> (an explicit heap of blocks, the
  memory of the calling process, the device) with its invariants; \<open>Aesd_Write\<close>, \<open>Aesd_Read_Seek\<close> and
  \<open>Aesd_Module\<close> have the file operations, loading and unloading; \<open>Aesd_System\<close> is the transition system of any number of
  open files on the device. \<open>Command_Stream\<close> is the specification of writing on byte streams. \<open>Write_Properties\<close> and
  \<open>Driver_Properties\<close>: a write refines the specification and fails only if the kernel refuses a request; a
  sequence of writes stores the last ten lines of the stream; reads return the concatenated commands; seeks go to
  the requested byte; what every operation can return; in every reachable state every operation stays inside the memory the driver owns, the messages
  of a write excepted; the error branches and which of them lose memory; unloading. The messages with a \<open>%s\<close> read memory: \<open>pdebug\<close> sets the field \<open>overread\<close> of the state if one reads behind its object.
  \<open>Driver_Findings\<close>: where the code does not do what it means to, the seek command in a full buffer and the recorded size, for every device, and runs on the concrete kernel \<open>Kernel_Sim\<close>
  (16 addresses, blocks of at most 64 bytes, enough for these runs). \<open>KMALLOC_LIMIT\<close>
  (\<open>2 ^ 32\<close>) bounds a single allocation; the kernel's own limit is smaller, and with it no sum of sizes wraps around.

  \<^bold>\<open>Socket server\<close> (\<open>server/aesdsocket.c\<close>, \<open>aesdsocket.h\<close>, the singly-linked lists of \<open>server/queue.h\<close>). \<open>Slist\<close> has the list
  macros on a heap of nodes and the locale \<open>node_list\<close> (interpretation \<open>sl\<close>) on which clean-up rests; the server includes the system's
  \<open>sys/queue.h\<close>, whose macros are those of the copy in the repository. \<open>Server_Env\<close> has the globals (record \<open>srv\<close>), \<open>Server_Handler\<close> the client thread,
  \<open>Server_Main\<close> start-up, accept loop, signal handler, clean-up and the time-stamp thread. \<open>Server_Rounds\<close> presents the two loops of the client
  thread as iterations of a round, with their induction rules. \<open>Server_Device\<close> states what the client thread needs of the device behind the
  data file and of the sockets as the locale \<open>char_device\<close> and proves, once, what the thread achieves over any such device; \<open>Server_Driver\<close> interprets it on
  the model of the driver (\<open>dev\<close>), with a kernel that may answer each call differently, together with sockets: files and sockets share the descriptor numbers, every socket has its own
  packets to receive and its own bytes sent, a call on a descriptor that is no open socket fails, and the network (the sequence \<open>net\<close>) may refuse every call and cut every \<open>send\<close> short. \<open>Server_Live\<close> extends the interface to the locale \<open>live_device\<close>, whose calls succeed while there is
  memory for the command and a free descriptor, and interprets it on the driver over a kernel with resources to spare and a network that takes every call in full (\<open>live\<close>). \<open>Server_Properties\<close>: a client gets the
  stored commands back on its own socket, whole unless a \<open>send\<close> was short; a seek command is understood and obeyed. \<open>Server_Sessions\<close>: any number of clients served in turn. \<open>Server_Lifecycle\<close>: the list of threads, clean-up,
  signals, becoming a daemon, exit status, and the threads that never end. In these theories a thread's calls are
  not interleaved with other threads of the server; the state of the operating system may change arbitrarily at every call. \<open>Server_Race\<close> cuts the
  client thread, from its first receive call to its return, at its system calls and at its accesses to its list element, and lets any number of
  client threads run between them: mutual exclusion as long as the mutex functions report errors by \<open>- 1\<close> only (\<open>mutex_fine\<close>; after a positive error number, which is what they
  return, the thread goes on without the mutex), and the race on the shared descriptor; the lemma \<open>handler_in_pool\<close> ties the steps to \<open>client_data_handler\<close>.
  \<open>Server_Interleaved\<close> puts these threads on the driver: its locale \<open>shared_device\<close> says what a device promises to threads that call it in any order, the driver provides it
  (interpretation \<open>shr\<close>), and every thread writes exactly the packets it received that are no seek commands, each once and in order, with the writes of all threads in some serial order.

  \<^bold>\<open>Tail queues and lists\<close> (the rest of \<open>server/queue.h\<close>). \<open>Queue_Memory\<close> has the memory of heads and entries, the two shapes of
  traversal and the chains of links; \<open>Queue_Interface\<close> the locales \<open>linked_queue\<close> and \<open>fifo_queue\<close> with what traversals and sequences of
  insertions do on every queue that keeps their laws. \<open>Stailq\<close>, \<open>Linked_List\<close> and \<open>Tailq\<close> have the macros of the three families, interpret the locales
  (\<open>stq\<close>, \<open>dl\<close>, \<open>tq\<close>) and show that every macro is defined on well-formed queues, has the effect on the sequence of elements
  its name says and changes nothing else. \<open>Queue_Properties\<close>: the traversal macros.

  \<^bold>\<open>Threads on one mutex.\<close> \<open>Lock_Discipline\<close> has pools of threads with one mutex and the locales \<open>lock_program\<close> (mutual exclusion), \<open>ranked_program\<close> (every run ends)
  and \<open>ending_lock_program\<close> (both, without deadlock). \<open>Server_Race\<close> interprets the first for the clients (\<open>cl\<close>), and \<open>Threading\<close>
  (\<open>examples/threading/threading.c\<close>) the second for its threads with any results of their calls (\<open>rk\<close>) and the third where lock and unlock calls succeed (\<open>th\<close>).

  \<^bold>\<open>Processes and files.\<close> \<open>Systemcalls\<close> (\<open>examples/systemcalls/systemcalls.c\<close>) has \<open>do_system\<close>, \<open>do_exec\<close> and \<open>do_exec_redirect\<close> in
  the parent and the child process; \<open>Writer\<close> (\<open>finder-app/writer.c\<close>) the writer utility over the \<open>stdio\<close> calls it uses; \<open>Autotest\<close>
  (\<open>examples/autotest-validate\<close>, \<open>student-test\<close>) the constants of the test set-up.

  \<^bold>\<open>Not modelled.\<close> The text of messages (\<open>PDEBUG\<close>, \<open>syslog\<close>, \<open>perror\<close>; of the debug messages, the reads of memory are modelled), and with them
  \<open>get_in_addr\<close>, which only feeds a message; the trace records and the overwriting of removed links that \<open>queue.h\<close> has with
  \<open>QUEUE_MACRO_DEBUG\<close>; shell scripts, make
  files and the CI configuration. The branch of the server without \<open>USE_AESD_CHAR_DEVICE\<close>, which the build does not select, is
  modelled for the time-stamp thread only.
\<close>

end
